(* ===== verification/Prelude.thy ===== *)
theory Prelude
  imports Main "HOL-Library.Word" "HOL-Library.Sublist"
begin

text \<open>
  Shared vocabulary of the development: the types the model uses for Rust's machine integers, byte
  buffers and strings, executable versions of the standard-library string operations that the
  source calls, decimal formatting and parsing, and the lemmas on lists, prefixes and little-endian
  encodings that several components need.

  Conventions. A Rust \<^verbatim>\<open>&[u8]\<close> or \<^verbatim>\<open>Vec<u8>\<close> is a list of \<open>8 word\<close>. A Rust \<^verbatim>\<open>str\<close> is its UTF-8
  byte sequence as a HOL string, so \<^verbatim>\<open>len()\<close> is \<open>length\<close>, and every ASCII test on \<^verbatim>\<open>chars()\<close> gives the
  same answer on the bytes, because no byte of a multi-byte UTF-8 sequence is an ASCII byte.
  Unsigned counters that can wrap are words; sizes and clock readings that are only compared and
  subtracted with saturation are naturals, where HOL's truncated subtraction is
  \<^verbatim>\<open>saturating_sub\<close>.
\<close>

section \<open>Machine types\<close>

type_synonym byte = "8 word"
type_synonym bytes = "8 word list"
type_synonym u8 = "8 word"
type_synonym u32 = "32 word"
type_synonym u64 = "64 word"

named_theorems rust_std \<open>the standard-library operations of the source\<close>
named_theorems list_facts \<open>generic facts on lists, prefixes and splitting\<close>

abbreviation (input) u64_max :: nat where
  "u64_max \<equiv> 18446744073709551615"

text \<open>\<^verbatim>\<open>u64::saturating_add\<close> and the truncating cast \<^verbatim>\<open>as u64\<close>, on naturals.\<close>

definition saturating_add_u64 :: "nat \<Rightarrow> nat \<Rightarrow> nat" where
  "saturating_add_u64 a b = min (a + b) u64_max"

definition as_u64 :: "nat \<Rightarrow> nat" where
  "as_u64 n = n mod 2 ^ 64"

text \<open>Two's complement wrap-around of a 64-bit signed result.\<close>

definition wrap_i64 :: "int \<Rightarrow> int" where
  "wrap_i64 x = (x + 2 ^ 63) mod 2 ^ 64 - 2 ^ 63"

lemma wrap_i64_id [simp]: "- (2 ^ 63) \<le> x \<Longrightarrow> x < 2 ^ 63 \<Longrightarrow> wrap_i64 x = x"
  by (simp add: wrap_i64_def)

text \<open>
  Rust's \<^verbatim>\<open>?\<close> on a \<^verbatim>\<open>&mut self\<close> method: an error returns with the state as the failing call left it, a
  value goes on.
\<close>

definition try_then :: "('e + 'a) \<times> 's \<Rightarrow> ('a \<Rightarrow> 's \<Rightarrow> ('e + 'b) \<times> 's) \<Rightarrow> ('e + 'b) \<times> 's" where
  "try_then m f = (case m of (Inl e, s) \<Rightarrow> (Inl e, s) | (Inr a, s) \<Rightarrow> f a s)"

lemma try_then_simps [simp]:
  "try_then (Inl e, s) f = (Inl e, s)"
  "try_then (Inr a, s) f = f a s"
  by (simp_all add: try_then_def)

lemma try_then_Inr:
  "try_then m f = (Inr b, t) \<longleftrightarrow> (\<exists>a s. m = (Inr a, s) \<and> f a s = (Inr b, t))"
  by (cases m; cases "fst m") (auto simp: try_then_def)

lemma sorted_le_last: "sorted (map f xs) \<Longrightarrow> x \<in> set xs \<Longrightarrow> f x \<le> f (last xs)"
  by (induction xs rule: rev_induct) (auto simp: sorted_append)

lemma sort_key_Nil_iff [simp]: "sort_key f xs = [] \<longleftrightarrow> xs = []"
  by (metis length_0_conv length_sort)

text \<open>A UUID is 16 bytes, most significant first.\<close>

definition uuid_as_bytes :: "128 word \<Rightarrow> bytes" where
  "uuid_as_bytes u = map (\<lambda>i. ucast (drop_bit (8 * (15 - i)) u)) [0..<16]"

lemma length_uuid_as_bytes [simp]: "length (uuid_as_bytes u) = 16"
  by (simp add: uuid_as_bytes_def)

section \<open>Little-endian words\<close>

definition u32_to_le :: "u32 \<Rightarrow> bytes" where
  "u32_to_le w = map (\<lambda>i. ucast (drop_bit (8 * i) w)) [0, 1, 2, 3]"

fun le_to_nat :: "bytes \<Rightarrow> nat" where
  "le_to_nat [] = 0"
| "le_to_nat (b # bs) = unat b + 256 * le_to_nat bs"

definition u32_from_le :: "bytes \<Rightarrow> u32" where
  "u32_from_le bs = of_nat (le_to_nat bs)"

definition u64_from_le :: "bytes \<Rightarrow> u64" where
  "u64_from_le bs = of_nat (le_to_nat bs)"

lemma length_u32_to_le [simp]: "length (u32_to_le w) = 4"
  by (simp add: u32_to_le_def)

lemma unat_byte_of_u32:
  "unat (ucast (drop_bit k (w :: u32)) :: byte) = unat w div 2 ^ k mod 256"
proof -
  have "take_bit 32 (unat w) = unat w"
    using unsigned_less [of w, where ?'a = nat] by (simp add: take_bit_eq_mod)
  then have "unat (drop_bit k w) = unat w div 2 ^ k"
    by (subst unsigned_drop_bit_eq) (simp add: drop_bit_eq_div)
  then show ?thesis
    by (simp add: unsigned_ucast_eq take_bit_eq_mod)
qed

lemma nat_base256_digits:
  assumes "n < (4294967296 :: nat)"
  shows "n mod 256 + 256 * (n div 256 mod 256 + 256 * (n div 65536 mod 256 + 256 * (n div 16777216 mod 256))) = n"
proof -
  define m where "m = n div 256"
  define k where "k = m div 256"
  have d: "n div 65536 = k" "n div 16777216 = k div 256"
    by (simp_all add: m_def k_def div_mult2_eq [symmetric])
  have "k div 256 < 256"
    using assms d(2) by linarith
  then show ?thesis
    unfolding d m_def [symmetric] by (simp add: k_def m_def)
qed

lemma base256_digits:
  assumes "a < (256 :: nat)" "b < 256" "c < 256" "d < 256"
  shows "(a + 256 * (b + 256 * (c + 256 * d))) mod 256 = a"
    "(a + 256 * (b + 256 * (c + 256 * d))) div 256 mod 256 = b"
    "(a + 256 * (b + 256 * (c + 256 * d))) div 65536 mod 256 = c"
    "(a + 256 * (b + 256 * (c + 256 * d))) div 16777216 mod 256 = d"
proof -
  define x where "x = c + 256 * d"
  define y where "y = b + 256 * x"
  have y: "(a + 256 * y) mod 256 = a" "(a + 256 * y) div 256 = y"
    "y mod 256 = b" "y div 256 = x" "x mod 256 = c" "x div 256 = d"
    using assms by (simp_all only: x_def y_def mod_mult_self2 div_mult_self2 mod_less div_less)
  have "(a + 256 * y) div 65536 = x" "(a + 256 * y) div 16777216 = d"
    using y by (simp_all only: div_mult2_eq [of _ 256 256, simplified] div_mult2_eq [of _ 65536 256, simplified])
  with y assms(4) show "(a + 256 * (b + 256 * (c + 256 * d))) mod 256 = a"
    "(a + 256 * (b + 256 * (c + 256 * d))) div 256 mod 256 = b"
    "(a + 256 * (b + 256 * (c + 256 * d))) div 65536 mod 256 = c"
    "(a + 256 * (b + 256 * (c + 256 * d))) div 16777216 mod 256 = d"
    unfolding x_def [symmetric] y_def [symmetric] by simp_all
qed

lemma le_to_nat_u32: "le_to_nat (u32_to_le w) = unat w"
proof -
  define n where "n = unat w"
  have bound: "n < 4294967296"
    using unsigned_less [of w, where ?'a = nat] by (simp add: n_def)
  have byte: "unat (ucast (drop_bit (8 * i) w) :: byte) = n div 2 ^ (8 * i) mod 256" for i
    by (simp only: unat_byte_of_u32 n_def)
  have "n mod 256 + 256 * (n div 256 mod 256 + 256 * (n div 65536 mod 256 + 256 * (n div 16777216 mod 256))) = n"
    by (rule nat_base256_digits [OF bound])
  then show ?thesis
    using byte [of 0] byte [of 1] byte [of 2] byte [of 3]
    by (simp add: u32_to_le_def n_def [symmetric])
qed

lemma u32_le_roundtrip [simp]: "u32_from_le (u32_to_le w) = w"
  by (simp add: u32_from_le_def le_to_nat_u32)

lemma length_4_cases: "length bs = 4 \<Longrightarrow> \<exists>a b c d. bs = [a, b, c, d]"
  by (auto simp: length_Suc_conv numeral_eq_Suc)

lemma le_to_u32_roundtrip:
  assumes "length bs = 4"
  shows "u32_to_le (u32_from_le bs) = bs"
proof -
  obtain a b c d where bs: "bs = [a, b, c, d]"
    using length_4_cases [OF assms] by blast
  have lt: "unat a < 256" "unat b < 256" "unat c < 256" "unat d < 256"
    using unsigned_less [of a, where ?'a = nat] unsigned_less [of b, where ?'a = nat]
      unsigned_less [of c, where ?'a = nat] unsigned_less [of d, where ?'a = nat] by simp_all
  define n where "n = unat a + 256 * (unat b + 256 * (unat c + 256 * unat d))"
  have n: "n < 4294967296"
    using lt by (simp add: n_def)
  have "le_to_nat bs = n"
    by (simp add: bs n_def)
  then have un: "unat (u32_from_le bs) = n"
    using n by (simp add: u32_from_le_def unsigned_of_nat take_bit_eq_mod)
  have byte: "unat (ucast (drop_bit (8 * i) (u32_from_le bs)) :: byte) = n div 2 ^ (8 * i) mod 256" for i
    by (simp only: unat_byte_of_u32 un)
  have "n mod 256 = unat a" "n div 256 mod 256 = unat b"
    "n div 65536 mod 256 = unat c" "n div 16777216 mod 256 = unat d"
    using base256_digits [OF lt] by (simp_all only: n_def)
  then have "ucast (drop_bit (8 * 0) (u32_from_le bs)) = a"
    "ucast (drop_bit (8 * 1) (u32_from_le bs)) = b"
    "ucast (drop_bit (8 * 2) (u32_from_le bs)) = c"
    "ucast (drop_bit (8 * 3) (u32_from_le bs)) = d"
    using byte [of 0] byte [of 1] byte [of 2] byte [of 3]
    by (simp_all add: word_eq_iff_unsigned [where ?'a = nat])
  then show ?thesis
    by (simp add: u32_to_le_def bs)
qed

section \<open>Strings\<close>

definition is_ascii_digit :: "char \<Rightarrow> bool" where
  [code_unfold]: "is_ascii_digit c \<longleftrightarrow> 48 \<le> (of_char c :: nat) \<and> (of_char c :: nat) \<le> 57"

definition is_ascii_lower :: "char \<Rightarrow> bool" where
  "is_ascii_lower c \<longleftrightarrow> 97 \<le> (of_char c :: nat) \<and> (of_char c :: nat) \<le> 122"

definition is_ascii_upper :: "char \<Rightarrow> bool" where
  "is_ascii_upper c \<longleftrightarrow> 65 \<le> (of_char c :: nat) \<and> (of_char c :: nat) \<le> 90"

definition is_ascii_alphabetic :: "char \<Rightarrow> bool" where
  "is_ascii_alphabetic c \<longleftrightarrow> is_ascii_lower c \<or> is_ascii_upper c"

definition is_ascii_alphanumeric :: "char \<Rightarrow> bool" where
  "is_ascii_alphanumeric c \<longleftrightarrow> is_ascii_alphabetic c \<or> is_ascii_digit c"

definition is_ascii_hexdigit :: "char \<Rightarrow> bool" where
  "is_ascii_hexdigit c \<longleftrightarrow> is_ascii_digit c \<or>
     (97 \<le> (of_char c :: nat) \<and> (of_char c :: nat) \<le> 102) \<or>
     (65 \<le> (of_char c :: nat) \<and> (of_char c :: nat) \<le> 70)"

definition to_ascii_lower_char :: "char \<Rightarrow> char" where
  "to_ascii_lower_char c = (if is_ascii_upper c then char_of ((of_char c :: nat) + 32) else c)"

definition to_ascii_lowercase :: "string \<Rightarrow> string" where
  "to_ascii_lowercase = map to_ascii_lower_char"

definition to_ascii_upper_char :: "char \<Rightarrow> char" where
  "to_ascii_upper_char c = (if is_ascii_lower c then char_of ((of_char c :: nat) - 32) else c)"

definition to_ascii_uppercase :: "string \<Rightarrow> string" where
  "to_ascii_uppercase = map to_ascii_upper_char"

text \<open>
  \<^verbatim>\<open>char::is_whitespace\<close> on UTF-8: the byte length of the whitespace character at the head of the
  string, 0 when there is none. The multi-byte ones are U+0085, U+00A0, U+1680, U+2000 to U+200A,
  U+2028, U+2029, U+202F, U+205F and U+3000.
\<close>

definition ws_len :: "string \<Rightarrow> nat" where
  "ws_len s = (case map (of_char :: char \<Rightarrow> nat) (take 3 s) of
     [] \<Rightarrow> 0
   | a # r \<Rightarrow>
       if (9 \<le> a \<and> a \<le> 13) \<or> a = 32 then 1
       else (case r of
         [] \<Rightarrow> 0
       | b # q \<Rightarrow>
           if a = 194 \<and> (b = 133 \<or> b = 160) then 2
           else (case q of
             [] \<Rightarrow> 0
           | c # _ \<Rightarrow>
               if a = 225 \<and> b = 154 \<and> c = 128
                  \<or> a = 226 \<and> b = 128 \<and> (128 \<le> c \<and> c \<le> 138 \<or> c = 168 \<or> c = 169 \<or> c = 175)
                  \<or> a = 226 \<and> b = 129 \<and> c = 159
                  \<or> a = 227 \<and> b = 128 \<and> c = 128
               then 3 else 0)))"

lemma ws_len_Nil [simp]: "ws_len [] = 0"
  by (simp add: ws_len_def)

lemma ws_len_pos: "0 < ws_len s \<Longrightarrow> 0 < length s"
  by (cases s) simp_all

text \<open>\<^verbatim>\<open>str::split_whitespace\<close>: the maximal non-empty runs without whitespace.\<close>

function split_ws_from :: "string \<Rightarrow> string \<Rightarrow> string list" where
  "split_ws_from acc s =
     (if s = [] then (if acc = [] then [] else [rev acc])
      else if 0 < ws_len s
        then (if acc = [] then split_ws_from [] (drop (ws_len s) s)
              else rev acc # split_ws_from [] (drop (ws_len s) s))
        else split_ws_from (hd s # acc) (tl s))"
  by pat_completeness auto
termination
  by (relation "measure (\<lambda>(acc, s). length s)") auto

declare split_ws_from.simps [simp del]

definition split_whitespace :: "string \<Rightarrow> string list" where
  "split_whitespace s = split_ws_from [] s"

text \<open>\<^verbatim>\<open>str::trim_start\<close>, \<^verbatim>\<open>trim_end\<close> and \<^verbatim>\<open>trim\<close>.\<close>

function trim_start :: "string \<Rightarrow> string" where
  "trim_start s = (if 0 < ws_len s then trim_start (drop (ws_len s) s) else s)"
  by pat_completeness auto
termination
  by (relation "measure length") (auto intro: diff_less ws_len_pos)

declare trim_start.simps [simp del]

definition ends_ws_len :: "string \<Rightarrow> nat" where
  "ends_ws_len s = (
     if s \<noteq> [] \<and> ws_len [last s] = 1 then 1
     else if 2 \<le> length s \<and> ws_len (drop (length s - 2) s) = 2 then 2
     else if 3 \<le> length s \<and> ws_len (drop (length s - 3) s) = 3 then 3
     else 0)"

function trim_end :: "string \<Rightarrow> string" where
  "trim_end s = (if 0 < ends_ws_len s then trim_end (take (length s - ends_ws_len s) s) else s)"
  by pat_completeness auto
termination
  by (relation "measure length") (auto simp: ends_ws_len_def split: if_splits)

declare trim_end.simps [simp del]

definition trim :: "string \<Rightarrow> string" where
  "trim s = trim_end (trim_start s)"

text \<open>\<^verbatim>\<open>str::split(c)\<close>, \<^verbatim>\<open>split_once(c)\<close>, \<^verbatim>\<open>rsplit_once(c)\<close> and \<^verbatim>\<open>split_once\<close> with a string pattern.\<close>

fun split_on :: "'a \<Rightarrow> 'a list \<Rightarrow> 'a list list" where
  "split_on c [] = [[]]"
| "split_on c (x # xs) =
     (if x = c then [] # split_on c xs
      else (case split_on c xs of [] \<Rightarrow> [[x]] | y # ys \<Rightarrow> (x # y) # ys))"

fun split_once :: "'a \<Rightarrow> 'a list \<Rightarrow> ('a list \<times> 'a list) option" where
  "split_once c [] = None"
| "split_once c (x # xs) =
     (if x = c then Some ([], xs) else map_option (\<lambda>(a, b). (x # a, b)) (split_once c xs))"

definition rsplit_once :: "'a \<Rightarrow> 'a list \<Rightarrow> ('a list \<times> 'a list) option" where
  "rsplit_once c s = map_option (\<lambda>(a, b). (rev b, rev a)) (split_once c (rev s))"

definition strip_prefix :: "'a list \<Rightarrow> 'a list \<Rightarrow> 'a list option" where
  "strip_prefix p s = (if take (length p) s = p then Some (drop (length p) s) else None)"

definition strip_suffix :: "'a list \<Rightarrow> 'a list \<Rightarrow> 'a list option" where
  "strip_suffix p s =
     (if length p \<le> length s \<and> drop (length s - length p) s = p
      then Some (take (length s - length p) s) else None)"

fun split_once_str :: "'a list \<Rightarrow> 'a list \<Rightarrow> ('a list \<times> 'a list) option" where
  "split_once_str p [] = (if p = [] then Some ([], []) else None)"
| "split_once_str p (x # xs) =
     (case strip_prefix p (x # xs) of
        Some r \<Rightarrow> Some ([], r)
      | None \<Rightarrow> map_option (\<lambda>(a, b). (x # a, b)) (split_once_str p xs))"

definition starts_with :: "'a list \<Rightarrow> 'a list \<Rightarrow> bool" where
  "starts_with p s \<longleftrightarrow> take (length p) s = p"

definition ends_with :: "'a list \<Rightarrow> 'a list \<Rightarrow> bool" where
  "ends_with p s \<longleftrightarrow> length p \<le> length s \<and> drop (length s - length p) s = p"

definition trim_end_matches :: "('a \<Rightarrow> bool) \<Rightarrow> 'a list \<Rightarrow> 'a list" where
  "trim_end_matches P s = rev (dropWhile P (rev s))"

definition trim_matches :: "('a \<Rightarrow> bool) \<Rightarrow> 'a list \<Rightarrow> 'a list" where
  "trim_matches P s = trim_end_matches P (dropWhile P s)"

fun join :: "'a list \<Rightarrow> 'a list list \<Rightarrow> 'a list" where
  "join sep [] = []"
| "join sep [x] = x"
| "join sep (x # y # ys) = x @ sep @ join sep (y # ys)"

section \<open>Decimal numbers\<close>

text \<open>\<^verbatim>\<open>{}\<close> and \<^verbatim>\<open>{:0w}\<close> on an unsigned number, and \<^verbatim>\<open>str::parse\<close> for the integer types.\<close>

definition digit_char :: "nat \<Rightarrow> char" where
  "digit_char d = char_of (48 + d)"

definition digit_val :: "char \<Rightarrow> nat" where
  "digit_val c = of_char c - 48"

text \<open>A digit of \<^verbatim>\<open>{:x}\<close>.\<close>

definition hex_digit :: "nat \<Rightarrow> char" where
  "hex_digit d = (if d < 10 then digit_char d else char_of (87 + d))"

text \<open>The value of a hexadecimal digit of either case.\<close>

definition hex_char_val :: "char \<Rightarrow> nat option" where
  "hex_char_val c = (
     if is_ascii_digit c then Some (of_char c - 48)
     else if 97 \<le> (of_char c :: nat) \<and> (of_char c :: nat) \<le> 102 then Some (of_char c - 87)
     else if 65 \<le> (of_char c :: nat) \<and> (of_char c :: nat) \<le> 70 then Some (of_char c - 55)
     else None)"

lemma hex_char_val_digit: "n < 16 \<Longrightarrow> hex_char_val (hex_digit n) = Some n"
  by (auto simp: hex_char_val_def hex_digit_def is_ascii_digit_def digit_char_def)

fun show_nat :: "nat \<Rightarrow> string" where
  "show_nat n = (if n < 10 then [digit_char n] else show_nat (n div 10) @ [digit_char (n mod 10)])"

declare show_nat.simps [simp del]

definition pad_nat :: "nat \<Rightarrow> nat \<Rightarrow> string" where
  "pad_nat w n = replicate (w - length (show_nat n)) (CHR ''0'') @ show_nat n"

definition digits_value :: "string \<Rightarrow> nat" where
  "digits_value s = foldl (\<lambda>v c. 10 * v + digit_val c) 0 s"

definition parse_digits :: "string \<Rightarrow> nat option" where
  "parse_digits s = (if s \<noteq> [] \<and> list_all is_ascii_digit s then Some (digits_value s) else None)"

definition parse_unsigned :: "nat \<Rightarrow> string \<Rightarrow> nat option" where
  "parse_unsigned limit s =
     (case parse_digits (case s of c # r \<Rightarrow> if c = CHR ''+'' then r else s | [] \<Rightarrow> []) of
        Some n \<Rightarrow> if n \<le> limit then Some n else None
      | None \<Rightarrow> None)"

definition parse_i64 :: "string \<Rightarrow> int option" where
  "parse_i64 s = (case s of
     c # r \<Rightarrow>
       if c = CHR ''-'' then (case parse_digits r of
           Some n \<Rightarrow> if n \<le> 2 ^ 63 then Some (- int n) else None | None \<Rightarrow> None)
       else map_option int (parse_unsigned (2 ^ 63 - 1) s)
   | [] \<Rightarrow> None)"

lemma of_char_digit_char: "d < 10 \<Longrightarrow> (of_char (digit_char d) :: nat) = 48 + d"
  by (simp add: digit_char_def)

lemma digit_char_facts [simp]:
  assumes "d < 10"
  shows "is_ascii_digit (digit_char d)" "digit_val (digit_char d) = d"
  using assms by (simp_all add: is_ascii_digit_def digit_val_def of_char_digit_char)

lemma digits_show_nat: "list_all is_ascii_digit (show_nat n)"
proof (induction n rule: show_nat.induct)
  case (1 n)
  then show ?case
    by (cases "n < 10") (simp_all add: show_nat.simps [of n])
qed

lemma show_nat_not_Nil [simp]: "show_nat n \<noteq> []"
  by (subst show_nat.simps) simp

lemma foldl_digits_zeros:
  "foldl (\<lambda>v c. 10 * v + digit_val c) 0 (replicate k (CHR ''0'')) = 0"
  by (induction k) (simp_all add: digit_val_def)

lemma digits_value_show_nat [simp]: "digits_value (show_nat n) = n"
proof (induction n rule: show_nat.induct)
  case (1 n)
  then show ?case
    by (cases "n < 10") (simp_all add: show_nat.simps [of n] digits_value_def)
qed

lemma is_ascii_digit_zero [simp]: "is_ascii_digit (CHR ''0'')"
  by (simp add: is_ascii_digit_def)

lemma digits_pad_nat: "list_all is_ascii_digit (pad_nat w n)"
  by (simp add: pad_nat_def digits_show_nat list_all_iff del: is_ascii_digit_zero)
    (use digits_show_nat in \<open>auto simp: list_all_iff\<close>)

lemma parse_digits_pad_nat [simp]: "parse_digits (pad_nat w n) = Some n"
  using digits_pad_nat [of w n] digits_value_show_nat [of n]
  by (simp add: parse_digits_def digits_value_def pad_nat_def foldl_digits_zeros)

lemma parse_digits_show_nat [simp]: "parse_digits (show_nat n) = Some n"
  using parse_digits_pad_nat [of 0 n] by (simp add: pad_nat_def)

lemma digit_not_in_digits:
  assumes "list_all is_ascii_digit s" "\<not> is_ascii_digit c"
  shows "c \<notin> set s"
  using assms by (auto simp: list_all_iff)

lemma pad_nat_not_Nil [simp]: "pad_nat w n \<noteq> []"
  by (simp add: pad_nat_def)

lemma parse_unsigned_pad_nat:
  assumes "n \<le> limit"
  shows "parse_unsigned limit (pad_nat w n) = Some n"
proof -
  have "hd (pad_nat w n) \<noteq> CHR ''+''"
    using digits_pad_nat [of w n] pad_nat_not_Nil [of w n]
    by (cases "pad_nat w n") (auto simp: is_ascii_digit_def)
  then have "(case pad_nat w n of c # r \<Rightarrow> if c = CHR ''+'' then r else pad_nat w n | [] \<Rightarrow> []) = pad_nat w n"
    by (cases "pad_nat w n") simp_all
  with assms show ?thesis
    by (simp add: parse_unsigned_def)
qed

lemma parse_unsigned_show_nat: "n \<le> limit \<Longrightarrow> parse_unsigned limit (show_nat n) = Some n"
  using parse_unsigned_pad_nat [of n limit 0] by (simp add: pad_nat_def)

lemma parse_i64_pad_nat:
  assumes "n < 2 ^ 63"
  shows "parse_i64 (pad_nat w n) = Some (int n)"
proof -
  have "hd (pad_nat w n) \<noteq> CHR ''-''"
    using digits_pad_nat [of w n] pad_nat_not_Nil [of w n]
    by (cases "pad_nat w n") (auto simp: is_ascii_digit_def)
  with assms show ?thesis
    using parse_unsigned_pad_nat [of n "2 ^ 63 - 1" w] pad_nat_not_Nil [of w n]
    by (cases "pad_nat w n") (simp_all add: parse_i64_def)
qed

section \<open>Splitting\<close>

lemma split_on_not_Nil [simp]: "split_on c s \<noteq> []"
  by (induction s) (auto split: list.splits)

lemma split_on_no_sep [simp]: "c \<notin> set s \<Longrightarrow> split_on c s = [s]"
  by (induction s) auto

lemma split_on_append [simp]: "c \<notin> set a \<Longrightarrow> split_on c (a @ c # b) = a # split_on c b"
  by (induction a) auto

lemma split_once_append [simp]: "c \<notin> set a \<Longrightarrow> split_once c (a @ c # b) = Some (a, b)"
  by (induction a) auto

lemma split_once_None: "split_once c s = None \<longleftrightarrow> c \<notin> set s"
  by (induction s) auto

lemma split_once_Some:
  "split_once c s = Some (a, b) \<longleftrightarrow> s = a @ c # b \<and> c \<notin> set a"
proof (induction s arbitrary: a)
  case Nil
  show ?case by simp
next
  case (Cons x s)
  then show ?case by (cases a) auto
qed

lemma rsplit_once_append [simp]: "c \<notin> set b \<Longrightarrow> rsplit_once c (a @ c # b) = Some (a, b)"
  by (simp add: rsplit_once_def)

lemma strip_prefix_append [simp]: "strip_prefix p (p @ s) = Some s"
  by (simp add: strip_prefix_def)

lemma strip_prefix_Some: "strip_prefix p s = Some r \<longleftrightarrow> s = p @ r"
  by (auto simp: strip_prefix_def) (metis append_take_drop_id)

lemma trim_end_matches_id [simp]: "s \<noteq> [] \<Longrightarrow> \<not> P (last s) \<Longrightarrow> trim_end_matches P s = s"
  by (cases s rule: rev_cases) (simp_all add: trim_end_matches_def)

lemma trim_end_matches_prefix:
  "\<exists>t. s = trim_end_matches P s @ t \<and> list_all P t"
proof -
  have "rev s = takeWhile P (rev s) @ dropWhile P (rev s)"
    by simp
  then have "s = rev (dropWhile P (rev s)) @ rev (takeWhile P (rev s))"
    by (metis rev_append rev_rev_ident)
  moreover have "list_all P (rev (takeWhile P (rev s)))"
    by (auto simp: list_all_iff dest: set_takeWhileD)
  ultimately show ?thesis
    unfolding trim_end_matches_def by blast
qed

text \<open>Trimming leaves a string alone that starts and ends with a visible ASCII character.\<close>

definition is_graphic :: "char \<Rightarrow> bool" where
  "is_graphic c \<longleftrightarrow> 33 \<le> (of_char c :: nat) \<and> (of_char c :: nat) \<le> 126"

lemma digit_is_graphic: "is_ascii_digit c \<Longrightarrow> is_graphic c"
  by (simp add: is_ascii_digit_def is_graphic_def)

lemma trim_start_graphic: "s \<noteq> [] \<Longrightarrow> is_graphic (hd s) \<Longrightarrow> trim_start s = s"
proof -
  assume "s \<noteq> []" "is_graphic (hd s)"
  then have "ws_len s = 0"
    by (cases s) (auto simp: ws_len_def is_graphic_def split: list.split)
  then show "trim_start s = s"
    by (simp add: trim_start.simps [of s])
qed

lemma ends_ws_len_graphic:
  assumes "s \<noteq> []" "is_graphic (last s)"
  shows "ends_ws_len s = 0"
proof -
  obtain r c where s: "s = r @ [c]" and c: "is_graphic c"
    using assms by (cases s rule: rev_cases) auto
  have 1: "ws_len [c] = 0"
    using c by (simp add: ws_len_def is_graphic_def)
  have 2: "ws_len [b, c] \<noteq> 2" "ws_len [a, b, c] \<noteq> 3" for a b
    using c by (auto simp: ws_len_def is_graphic_def)
  have "ws_len (drop (length s - 2) s) \<noteq> 2" if len: "2 \<le> length s"
  proof -
    obtain q b where "r = q @ [b]" using len unfolding s by (cases r rule: rev_cases) auto
    then have "drop (length s - 2) s = [b, c]" by (simp add: s)
    then show ?thesis using 2 by simp
  qed
  moreover have "ws_len (drop (length s - 3) s) \<noteq> 3" if len: "3 \<le> length s"
  proof -
    obtain q b where r: "r = q @ [b]" using len unfolding s by (cases r rule: rev_cases) auto
    then obtain q' a where "q = q' @ [a]" using len unfolding s r by (cases q rule: rev_cases) auto
    then have "drop (length s - 3) s = [a, b, c]" by (simp add: s r)
    then show ?thesis using 2 by simp
  qed
  ultimately show ?thesis
    using 1 by (simp add: ends_ws_len_def s)
qed

lemma trim_graphic: "s \<noteq> [] \<Longrightarrow> is_graphic (hd s) \<Longrightarrow> is_graphic (last s) \<Longrightarrow> trim s = s"
  by (simp add: trim_def trim_start_graphic trim_end.simps [of s] ends_ws_len_graphic)

end
