(* ===== verification/Partition.thy ===== *)
theory Partition
  imports Prelude "HOL-Library.Signed_Division"
begin

text \<open>
  Partition keys and the on-disk layout (\<^verbatim>\<open>partition.rs\<close>): identifier validation, the five-level
  partition key and its directory, the key read back from a path, and the hour names with the
  civil-date arithmetic behind them. A path is the list of its components.
\<close>

section \<open>Definitions\<close>

definition SECS_PER_HOUR :: nat where "SECS_PER_HOUR = 3600"
definition NANOS_PER_HOUR :: nat where "NANOS_PER_HOUR = SECS_PER_HOUR * 1000000000"
definition DEFAULT_TENANT :: string where "DEFAULT_TENANT = ''default''"
definition DEFAULT_INDEX :: string where "DEFAULT_INDEX = ''default''"

definition valid_ident :: "string \<Rightarrow> bool" where
  "valid_ident s \<longleftrightarrow>
     1 \<le> length s \<and> length s \<le> 64 \<and> \<not> starts_with ''.'' s
     \<and> list_all (\<lambda>b. is_ascii_alphanumeric b \<or> b \<in> {CHR ''.'', CHR ''_'', CHR ''-''}) s
     \<and> list_ex is_ascii_alphabetic s"

record partition_key =
  pk_tenant :: string
  pk_index :: string
  pk_epoch_hour :: nat
  pk_bucket :: string
  pk_node :: string

definition partition_key_new :: "string \<Rightarrow> string \<Rightarrow> nat \<Rightarrow> string \<Rightarrow> string \<Rightarrow> partition_key" where
  "partition_key_new t i h b n =
     \<lparr>pk_tenant = t, pk_index = i, pk_epoch_hour = h, pk_bucket = b, pk_node = n\<rparr>"

type_synonym path = "string list"

text \<open>
  \<^verbatim>\<open>Path::join\<close> with a relative string: its components are added, and a slash inside it separates
  components.
\<close>

definition path_components :: "string \<Rightarrow> path" where
  "path_components s = filter (\<lambda>c. c \<noteq> [] \<and> c \<noteq> ''.'') (split_on (CHR ''/'') s)"

definition path_join :: "path \<Rightarrow> string \<Rightarrow> path" where
  "path_join p s = p @ path_components s"

text \<open>Howard Hinnant's civil-date algorithms, with Rust's truncating division.\<close>

definition civil_from_days :: "int \<Rightarrow> int \<times> int \<times> int" where
  "civil_from_days z0 = (
     let z = z0 + 719468;
         era = (if 0 \<le> z then z else z - 146096) sdiv 146097;
         doe = z - era * 146097;
         yoe = (doe - doe div 1460 + doe div 36524 - doe div 146096) div 365;
         y = yoe + era * 400;
         doy = doe - (365 * yoe + yoe div 4 - yoe div 100);
         mp = (5 * doy + 2) div 153;
         d = doy - (153 * mp + 2) div 5 + 1;
         m = (if mp < 10 then mp + 3 else mp - 9)
     in (if m \<le> 2 then y + 1 else y, m, d))"

definition days_from_civil :: "int \<Rightarrow> int \<Rightarrow> int \<Rightarrow> int" where
  "days_from_civil y0 m d = (
     let y = (if m \<le> 2 then y0 - 1 else y0);
         era = (if 0 \<le> y then y else y - 399) sdiv 400;
         yoe = y - era * 400;
         mp = (if 2 < m then m - 3 else m + 9);
         doy = (153 * mp + 2) div 5 + d - 1;
         doe = yoe * 365 + yoe div 4 - yoe div 100 + doy
     in wrap_i64 (era * 146097 + doe - 719468))"

definition pad_int :: "nat \<Rightarrow> int \<Rightarrow> string" where
  "pad_int w x = (if x < 0 then CHR ''-'' # pad_nat (w - 1) (nat (- x)) else pad_nat w (nat x))"

definition format_hour :: "nat \<Rightarrow> string" where
  "format_hour epoch_hour = (
     let (y, m, d) = civil_from_days (int (epoch_hour div 24));
         h = epoch_hour mod 24
     in pad_int 4 y @ ''-'' @ pad_int 2 m @ ''-'' @ pad_int 2 d @ ''T'' @ pad_nat 2 h)"

definition parse_hour :: "string \<Rightarrow> nat option" where
  "parse_hour s = (case split_once (CHR ''T'') s of
     None \<Rightarrow> None
   | Some (date, hour) \<Rightarrow>
       (case split_on (CHR ''-'') date of
          [ys, ms, ds] \<Rightarrow>
            (case (parse_i64 ys, parse_unsigned (2 ^ 32 - 1) ms, parse_unsigned (2 ^ 32 - 1) ds) of
               (Some y, Some m, Some d) \<Rightarrow>
                 if \<not> (1 \<le> m \<and> m \<le> 12) \<or> \<not> (1 \<le> d \<and> d \<le> 31) then None
                 else (case parse_unsigned u64_max hour of
                     None \<Rightarrow> None
                   | Some h \<Rightarrow>
                       if 23 < h then None
                       else let days = days_from_civil y (int m) (int d)
                            in if days < 0 then None else Some (as_u64 (nat days * 24 + h)))
             | _ \<Rightarrow> None)
        | _ \<Rightarrow> None))"

definition level_dir :: "partition_key \<Rightarrow> path \<Rightarrow> path" where
  "level_dir k store_dir =
     path_join (path_join (path_join (path_join store_dir
       (''tenant='' @ pk_tenant k))
       (''index='' @ pk_index k))
       (''hour='' @ format_hour (pk_epoch_hour k)))
       (''level='' @ pk_bucket k)"

definition key_dir :: "partition_key \<Rightarrow> path \<Rightarrow> path" where
  "key_dir k store_dir = path_join (level_dir k store_dir) (''node='' @ pk_node k)"

definition end_unix_secs :: "partition_key \<Rightarrow> nat" where
  "end_unix_secs k = as_u64 ((pk_epoch_hour k + 1) * SECS_PER_HOUR)"

definition filtered :: "('a \<Rightarrow> bool) \<Rightarrow> 'a option \<Rightarrow> 'a option" where
  "filtered P v = (case v of Some x \<Rightarrow> if P x then Some x else None | None \<Rightarrow> None)"

definition key_of_path :: "path \<Rightarrow> partition_key option" where
  "key_of_path p = (if p = [] then None else
     (let parent = butlast p in
      case drop (length parent - 5) parent of
        [tenant, index, hour, level, node] \<Rightarrow>
          (case (filtered valid_ident (strip_prefix ''tenant='' tenant),
                 filtered valid_ident (strip_prefix ''index='' index),
                 filtered valid_ident (strip_prefix ''node='' node),
                 Option.bind (strip_prefix ''hour='' hour) parse_hour,
                 filtered (\<lambda>v. v \<noteq> []) (strip_prefix ''level='' level)) of
             (Some t, Some i, Some n, Some h, Some b) \<Rightarrow> Some (partition_key_new t i h b n)
           | _ \<Rightarrow> None)
      | _ \<Rightarrow> None))"

text \<open>The directory listing is the argument: \<open>None\<close> when it cannot be read, else names and whether
  each entry is a directory.\<close>

definition is_old_layout :: "(string \<times> bool) list option \<Rightarrow> bool" where
  "is_old_layout listing = (case listing of
     None \<Rightarrow> False
   | Some entries \<Rightarrow>
       list_ex (\<lambda>(name, is_dir). is_dir \<and>
         Option.bind (strip_prefix ''hour='' name) parse_hour \<noteq> None) entries)"

section \<open>Civil dates\<close>

text \<open>A day of the 400-year era split into century, four-year cycle, year and day.\<close>

lemma era_split:
  assumes "0 \<le> doe" "doe \<le> (146096 :: int)"
  obtains c q i t where "doe = 36524 * c + 1461 * q + 365 * i + t"
    "0 \<le> c" "c \<le> 3" "0 \<le> q" "q \<le> 24" "0 \<le> i" "i \<le> 3" "0 \<le> t" "t \<le> 365"
    "t = 365 \<Longrightarrow> i = 3" "1461 * q + 365 * i + t = 36524 \<Longrightarrow> c = 3"
proof -
  define c where "c = min (doe div 36524) 3"
  define r where "r = doe - 36524 * c"
  have c: "0 \<le> c" "c \<le> 3" "0 \<le> r" "r \<le> 36524" "r = 36524 \<Longrightarrow> c = 3"
    using assms by (auto simp: c_def r_def min_def)
  define q where "q = r div 1461"
  define s where "s = r - 1461 * q"
  have q: "0 \<le> q" "q \<le> 24" "0 \<le> s" "s \<le> 1460"
    using c by (auto simp: q_def s_def)
  define i where "i = min (s div 365) 3"
  define t where "t = s - 365 * i"
  have "0 \<le> i" "i \<le> 3" "0 \<le> t" "t \<le> 365" "t = 365 \<Longrightarrow> i = 3"
    using q by (auto simp: i_def t_def min_def split: if_splits)
  moreover have "doe = 36524 * c + 1461 * q + 365 * i + t" "1461 * q + 365 * i + t = r"
    by (simp_all add: t_def s_def r_def)
  ultimately show thesis
    using that c q by blast
qed

lemma year_of_era:
  assumes "0 \<le> doe" "doe \<le> (146096 :: int)"
  defines "yoe \<equiv> (doe - doe div 1460 + doe div 36524 - doe div 146096) div 365"
  shows "0 \<le> yoe" "yoe \<le> 399"
    "0 \<le> doe - (365 * yoe + yoe div 4 - yoe div 100)"
    "doe - (365 * yoe + yoe div 4 - yoe div 100) \<le> 365"
proof -
  obtain c q i t where doe: "doe = 36524 * c + 1461 * q + 365 * i + t"
    and b: "0 \<le> c" "c \<le> 3" "0 \<le> q" "q \<le> 24" "0 \<le> i" "i \<le> 3" "0 \<le> t" "t \<le> 365"
      "t = 365 \<Longrightarrow> i = 3" "1461 * q + 365 * i + t = 36524 \<Longrightarrow> c = 3"
    using era_split [OF assms(1,2)] by metis
  define e where "e = (24 * c + q + 365 * i + t) div 1460"
  have e1: "doe div 1460 = 25 * c + q + e"
  proof -
    have "doe = 24 * c + q + 365 * i + t + (25 * c + q) * 1460"
      by (simp add: doe)
    then show ?thesis
      by (simp only: e_def div_mult_self1)
  qed
  have e: "0 \<le> e" "e \<le> 1"
    using b by (simp_all add: e_def)
  have t: "0 \<le> t - e" "t - e < 365"
  proof -
    show "0 \<le> t - e"
      using b e unfolding e_def by linarith
    show "t - e < 365"
      using b e unfolding e_def by linarith
  qed
  have cc: "doe div 36524 - doe div 146096 = c"
  proof (cases "1461 * q + 365 * i + t = 36524")
    case True
    with b(10) doe show ?thesis by simp
  next
    case False
    with b have "0 \<le> 1461 * q + 365 * i + t" "1461 * q + 365 * i + t < 36524"
      by linarith+
    then have "doe div 36524 = c" "doe div 146096 = 0"
      using doe b(1,2) by (simp_all add: add.assoc)
    then show ?thesis by simp
  qed
  have yoe: "yoe = 100 * c + 4 * q + i"
  proof -
    have "doe - doe div 1460 + doe div 36524 - doe div 146096 = doe - (25 * c + q + e) + c"
      using e1 cc by simp
    also have "\<dots> = (t - e) + (100 * c + 4 * q + i) * 365"
      using doe by simp
    finally show ?thesis
      using t unfolding yoe_def by simp
  qed
  have y4: "yoe div 4 = 25 * c + q" and y100: "yoe div 100 = c"
    using b yoe by linarith+
  have "doe - (365 * yoe + yoe div 4 - yoe div 100) = t"
    unfolding y4 y100 using doe yoe by linarith
  with b yoe show "0 \<le> yoe" "yoe \<le> 399"
    "0 \<le> doe - (365 * yoe + yoe div 4 - yoe div 100)"
    "doe - (365 * yoe + yoe div 4 - yoe div 100) \<le> 365"
    by linarith+
qed

lemma month_of_year:
  assumes "0 \<le> doy" "doy \<le> (365 :: int)"
  defines "mp \<equiv> (5 * doy + 2) div 153"
  shows "0 \<le> mp" "mp \<le> 11" "1 \<le> doy - (153 * mp + 2) div 5 + 1" "doy - (153 * mp + 2) div 5 + 1 \<le> 31"
  using assms unfolding mp_def by linarith+

lemma sdiv_nonneg: "0 \<le> a \<Longrightarrow> 0 < b \<Longrightarrow> a sdiv b = a div (b :: int)"
  by (cases "a = 0") (simp_all add: signed_divide_int_def)

text \<open>What \<open>civil_from_days\<close> computes, as the equation its inverse undoes.\<close>

lemma civil_decompose:
  assumes "0 \<le> z" "civil_from_days z = (y, m, d)"
  obtains era yoe doy mp where
    "z + 719468 = era * 146097 + (365 * yoe + yoe div 4 - yoe div 100) + doy"
    "0 \<le> era" "0 \<le> yoe" "yoe \<le> 399"
    "0 \<le> mp" "mp \<le> 11" "m = (if mp < 10 then mp + 3 else mp - 9)"
    "d = doy - (153 * mp + 2) div 5 + 1" "1 \<le> d" "d \<le> 31"
    "(if m \<le> 2 then y - 1 else y) = yoe + era * 400"
proof -
  define w where "w = z + 719468"
  define era where "era = w div 146097"
  define doe where "doe = w - era * 146097"
  define yoe where "yoe = (doe - doe div 1460 + doe div 36524 - doe div 146096) div 365"
  define doy where "doy = doe - (365 * yoe + yoe div 4 - yoe div 100)"
  define mp where "mp = (5 * doy + 2) div 153"
  have doe: "0 \<le> doe" "doe \<le> 146096"
    by (simp_all add: doe_def era_def minus_div_mult_eq_mod)
  have sd: "(if 0 \<le> w then w else w - 146096) sdiv 146097 = era"
    using assms(1) by (simp add: w_def era_def sdiv_nonneg)
  note ye = year_of_era [OF doe, folded yoe_def, folded doy_def]
  note mo = month_of_year [OF ye(3,4), folded mp_def]
  have era: "0 \<le> era"
    using assms(1) by (simp add: era_def w_def)
  have m: "m = (if mp < 10 then mp + 3 else mp - 9)"
    and d: "d = doy - (153 * mp + 2) div 5 + 1"
    and y: "(if m \<le> 2 then y - 1 else y) = yoe + era * 400"
    using assms(2)
    unfolding civil_from_days_def Let_def w_def [symmetric] sd doe_def [symmetric]
      yoe_def [symmetric] doy_def [symmetric] mp_def [symmetric]
    by (simp_all split: if_splits)
  have "z + 719468 = era * 146097 + (365 * yoe + yoe div 4 - yoe div 100) + doy"
    by (simp add: doy_def doe_def w_def)
  then show thesis
    using that ye era mo m d y by metis
qed

lemma civil_from_days_range:
  assumes "0 \<le> z" "civil_from_days z = (y, m, d)"
  shows "0 \<le> y" "1 \<le> m" "m \<le> 12" "1 \<le> d" "d \<le> 31" "y \<le> z + 719868"
proof -
  obtain era yoe doy mp where
    z: "z + 719468 = era * 146097 + (365 * yoe + yoe div 4 - yoe div 100) + doy"
    and b: "0 \<le> era" "0 \<le> yoe" "yoe \<le> 399" "0 \<le> mp" "mp \<le> 11"
    and m: "m = (if mp < 10 then mp + 3 else mp - 9)"
    and d: "d = doy - (153 * mp + 2) div 5 + 1" "1 \<le> d" "d \<le> 31"
    and y: "(if m \<le> 2 then y - 1 else y) = yoe + era * 400"
    using civil_decompose [OF assms] by blast
  show "1 \<le> m" "m \<le> 12"
    using m b by (simp_all split: if_splits)
  show "1 \<le> d" "d \<le> 31"
    using d by simp_all
  show "0 \<le> y"
    using y b by (simp split: if_splits)
  have "y \<le> yoe + era * 400 + 1"
    using y by (simp split: if_splits)
  moreover have "0 \<le> doy"
    using d(1,2) b(4) by simp
  moreover have "yoe div 100 \<le> yoe div 4"
    using b by (simp add: zdiv_mono2)
  ultimately show "y \<le> z + 719868"
    using z b(1-3) by (simp only: mult.commute [of era])
qed

lemma days_civil_roundtrip:
  assumes "0 \<le> z" "z < 2 ^ 62" "civil_from_days z = (y, m, d)"
  shows "days_from_civil y m d = z"
proof -
  obtain era yoe doy mp where
    z: "z + 719468 = era * 146097 + (365 * yoe + yoe div 4 - yoe div 100) + doy"
    and b: "0 \<le> era" "0 \<le> yoe" "yoe \<le> 399" "0 \<le> mp" "mp \<le> 11"
    and m: "m = (if mp < 10 then mp + 3 else mp - 9)"
    and d: "d = doy - (153 * mp + 2) div 5 + 1" "1 \<le> d" "d \<le> 31"
    and y: "(if m \<le> 2 then y - 1 else y) = yoe + era * 400"
    using civil_decompose [OF assms(1,3)] by blast
  have mp: "(if 2 < m then m - 3 else m + 9) = mp"
    using m b by (simp split: if_splits)
  have sy: "(if 0 \<le> yoe + era * 400 then yoe + era * 400 else yoe + era * 400 - 399) sdiv 400 = era"
    using b by (simp add: sdiv_nonneg)
  have inv: "era * 146097 + ((yoe + era * 400 - era * 400) * 365 + (yoe + era * 400 - era * 400) div 4
      - (yoe + era * 400 - era * 400) div 100 + ((153 * mp + 2) div 5 + d - 1)) - 719468 = z"
    using z d(1) by simp
  have "wrap_i64 z = z"
    using assms(1,2) by simp
  then show ?thesis
    unfolding days_from_civil_def Let_def y mp sy inv by simp
qed

section \<open>Hour names\<close>

lemma no_sep_in_digits [simp]:
  "CHR ''T'' \<notin> set (pad_nat w n)" "CHR ''-'' \<notin> set (pad_nat w n)" "CHR ''/'' \<notin> set (pad_nat w n)"
  using digits_pad_nat [of w n] by (auto simp: list_all_iff is_ascii_digit_def)

lemma format_hour_shape:
  assumes "civil_from_days (int (h div 24)) = (y, m, d)"
  shows "format_hour h = (pad_nat 4 (nat y) @ CHR ''-'' # pad_nat 2 (nat m) @ CHR ''-'' # pad_nat 2 (nat d))
    @ CHR ''T'' # pad_nat 2 (h mod 24)"
  using civil_from_days_range [OF _ assms] assms
  by (simp add: format_hour_def pad_int_def)

lemma parse_format_hour_lemma:
  assumes "h < 2 ^ 64"
  shows "parse_hour (format_hour h) = Some h"
proof -
  obtain y m d where ymd: "civil_from_days (int (h div 24)) = (y, m, d)"
    by (metis prod_cases3)
  note rng = civil_from_days_range [OF _ ymd, simplified]
  have h24: "h div 24 < 2 ^ 62"
    using assms by simp
  have days: "days_from_civil y m d = int (h div 24)"
    using days_civil_roundtrip [OF _ _ ymd] h24 by simp
  have "y < 2 ^ 63"
    using rng(6) h24 by simp
  then have y: "nat y < 2 ^ 63"
    by (simp add: nat_less_iff rng(1))
  have "as_u64 (h div 24 * 24 + h mod 24) = h"
    using assms by (simp add: as_u64_def)
  moreover have "split_once (CHR ''T'') (format_hour h) =
      Some (pad_nat 4 (nat y) @ CHR ''-'' # pad_nat 2 (nat m) @ CHR ''-'' # pad_nat 2 (nat d), pad_nat 2 (h mod 24))"
    unfolding format_hour_shape [OF ymd] by (rule split_once_append) simp
  moreover have "h mod 24 \<le> 23" "Suc 0 \<le> nat m" "nat m \<le> 12" "Suc 0 \<le> nat d" "nat d \<le> 31"
    using rng by simp_all
  ultimately show ?thesis
    using rng y days
    by (simp add: parse_hour_def parse_i64_pad_nat parse_unsigned_pad_nat)
qed

text \<open>
  C14. Hour directories read back as the hour they were named for: for every \<^verbatim>\<open>u64\<close> epoch hour,
  \<^verbatim>\<open>parse_hour(&format_hour(h)) == Some(h)\<close>. The name never disagrees with the partition it names,
  whatever the year's width.
\<close>

theorem parse_format_hour:
  assumes "h < 2 ^ 64"
  shows "parse_hour (format_hour h) = Some h"
  using assms by (rule parse_format_hour_lemma)

theorem parse_format_hour_witness:
  "(0 :: nat) < 2 ^ 64 \<and> parse_hour (format_hour 496190) = Some 496190"
  using parse_format_hour [of 496190] by simp

section \<open>Keys and paths\<close>

lemma path_components_plain:
  assumes "s \<noteq> []" "s \<noteq> ''.''" "CHR ''/'' \<notin> set s"
  shows "path_components s = [s]"
  using assms by (simp add: path_components_def)

lemma valid_ident_no_slash:
  assumes "valid_ident s"
  shows "CHR ''/'' \<notin> set s"
  using assms by (auto simp: valid_ident_def list_all_iff is_ascii_alphanumeric_def
      is_ascii_alphabetic_def is_ascii_lower_def is_ascii_upper_def is_ascii_digit_def)

lemma format_hour_no_slash: "CHR ''/'' \<notin> set (format_hour h)"
proof -
  obtain y m d where ymd: "civil_from_days (int (h div 24)) = (y, m, d)"
    by (metis prod_cases3)
  show ?thesis
    by (simp add: format_hour_shape [OF ymd])
qed

definition storable_key :: "partition_key \<Rightarrow> bool" where
  "storable_key k \<longleftrightarrow> valid_ident (pk_tenant k) \<and> valid_ident (pk_index k) \<and> valid_ident (pk_node k)
     \<and> pk_bucket k \<noteq> [] \<and> CHR ''/'' \<notin> set (pk_bucket k) \<and> pk_epoch_hour k < 2 ^ 64"

lemma key_dir_components:
  assumes "storable_key k"
  shows "key_dir k store_dir = store_dir @
    [''tenant='' @ pk_tenant k, ''index='' @ pk_index k, ''hour='' @ format_hour (pk_epoch_hour k),
     ''level='' @ pk_bucket k, ''node='' @ pk_node k]"
  using assms format_hour_no_slash [of "pk_epoch_hour k"]
  by (simp add: key_dir_def level_dir_def path_join_def path_components_plain valid_ident_no_slash storable_key_def)

text \<open>
  C15. The tree is the authority: the key read back from a file's location in the partition's
  directory is the key the directory was made from, for every key with valid identifiers, a
  non-empty single-component bucket name and a \<^verbatim>\<open>u64\<close> hour.
\<close>

theorem key_of_path_dir:
  assumes "storable_key k"
  shows "key_of_path (key_dir k store_dir @ [file]) = Some k"
proof -
  have "drop (length store_dir) (butlast (store_dir @ [a, b, c, d, e, file])) = [a, b, c, d, e]" for a b c d e
    by (simp add: butlast_append)
  with assms show ?thesis
    by (simp add: key_dir_components key_of_path_def Let_def filtered_def partition_key_new_def
        parse_format_hour_lemma storable_key_def strip_prefix_def)
qed

theorem key_of_path_dir_witness:
  "key_of_path (key_dir (partition_key_new ''default'' ''default'' 496190 ''warn_plus'' ''node-a'') [''store''] @ [''1.parquet''])
   = Some (partition_key_new ''default'' ''default'' 496190 ''warn_plus'' ''node-a'')"
  by (rule key_of_path_dir) (simp add: storable_key_def partition_key_new_def, code_simp)

end
