(* ===== verification/Model.thy ===== *)
theory Model
  imports Prelude
begin

text \<open>
  The log data model (\<^verbatim>\<open>model.rs\<close>): severities and their coarse classes, attribute values, and the
  normalised record every receiver produces and every writer consumes. Ids that the \<^verbatim>\<open>uuid\<close> crate
  draws are arguments of the constructor.
\<close>

section \<open>Severity and level class\<close>

type_synonym severity = nat

definition TRACE :: severity where "TRACE = 1"
definition DEBUG :: severity where "DEBUG = 5"
definition INFO :: severity where "INFO = 9"
definition WARN :: severity where "WARN = 13"
definition ERROR :: severity where "ERROR = 17"
definition FATAL :: severity where "FATAL = 21"

lemmas severity_levels = TRACE_def DEBUG_def INFO_def WARN_def ERROR_def FATAL_def

datatype level_class = Debug | Info | WarnPlus

definition level_class_ALL :: "level_class list" where
  "level_class_ALL = [Debug, Info, WarnPlus]"

fun level_rank :: "level_class \<Rightarrow> nat" where
  "level_rank Debug = 0"
| "level_rank Info = 1"
| "level_rank WarnPlus = 2"

text \<open>The derived order: the order in which shedding sacrifices data.\<close>

instantiation level_class :: linorder
begin

definition less_eq_level_class :: "level_class \<Rightarrow> level_class \<Rightarrow> bool" where
  "a \<le> b \<longleftrightarrow> level_rank a \<le> level_rank b"

definition less_level_class :: "level_class \<Rightarrow> level_class \<Rightarrow> bool" where
  "a < b \<longleftrightarrow> level_rank a < level_rank b"

instance
proof
  fix x y z :: level_class
  show "x < y \<longleftrightarrow> x \<le> y \<and> \<not> y \<le> x"
    by (auto simp: less_eq_level_class_def less_level_class_def)
  show "x \<le> x"
    by (simp add: less_eq_level_class_def)
  show "x \<le> y \<Longrightarrow> y \<le> z \<Longrightarrow> x \<le> z"
    by (simp add: less_eq_level_class_def)
  show "x \<le> y \<Longrightarrow> y \<le> x \<Longrightarrow> x = y"
    by (cases x; cases y) (simp_all add: less_eq_level_class_def)
  show "x \<le> y \<or> y \<le> x"
    by (auto simp: less_eq_level_class_def)
qed

end

definition severity_class :: "severity \<Rightarrow> level_class" where
  "severity_class s = (if s \<le> 8 then Debug else if s \<le> 12 then Info else WarnPlus)"

definition is_error_or_worse :: "severity \<Rightarrow> bool" where
  "is_error_or_worse s \<longleftrightarrow> ERROR \<le> s"

fun level_class_as_str :: "level_class \<Rightarrow> string" where
  "level_class_as_str Debug = ''debug''"
| "level_class_as_str Info = ''info''"
| "level_class_as_str WarnPlus = ''warn_plus''"

definition from_text :: "string \<Rightarrow> severity option" where
  "from_text text = (let t = to_ascii_lowercase (trim text) in
     if t \<in> {''trace'', ''trc'', ''verbose''} then Some TRACE
     else if t \<in> {''debug'', ''dbg''} then Some DEBUG
     else if t \<in> {''info'', ''inf'', ''information'', ''notice''} then Some INFO
     else if t \<in> {''warn'', ''warning'', ''wrn''} then Some WARN
     else if t \<in> {''error'', ''err'', ''severe''} then Some ERROR
     else if t \<in> {''fatal'', ''critical'', ''crit'', ''panic'', ''emergency'', ''alert''} then Some FATAL
     else None)"

section \<open>Records\<close>

text \<open>An \<^verbatim>\<open>f64\<close> attribute is carried by its 64 bits: nothing modelled here computes with it.\<close>

datatype attr_value = Str string | I64 int | F64 u64 | Bool bool

record attr =
  attr_key :: string
  attr_val :: attr_value

record log_record =
  event_id :: "128 word"
  timestamp_unix_nano :: nat
  observed_unix_nano :: nat
  severity_of :: severity
  severity_text :: "string option"
  body :: string
  service :: "string option"
  trace_id :: "bytes option"
  span_id :: "bytes option"
  attributes :: "attr list"
  template_id :: "u64 option"

definition log_record_new :: "128 word \<Rightarrow> nat \<Rightarrow> severity \<Rightarrow> string \<Rightarrow> log_record" where
  "log_record_new now_v7 ts sev b =
     \<lparr>event_id = now_v7, timestamp_unix_nano = ts, observed_unix_nano = ts, severity_of = sev,
      severity_text = None, body = b, service = None, trace_id = None, span_id = None,
      attributes = [], template_id = None\<rparr>"

definition record_class :: "log_record \<Rightarrow> level_class" where
  "record_class r = severity_class (severity_of r)"

section \<open>Facts\<close>

lemma severity_class_mono: "s \<le> t \<Longrightarrow> severity_class s \<le> severity_class t"
  by (auto simp: severity_class_def less_eq_level_class_def)

lemma error_is_warn_plus: "is_error_or_worse s \<Longrightarrow> severity_class s = WarnPlus"
  by (simp add: is_error_or_worse_def severity_class_def ERROR_def)

lemma level_class_as_str_inj: "level_class_as_str a = level_class_as_str b \<Longrightarrow> a = b"
  by (cases a; cases b) simp_all

lemma record_class_new [simp]: "record_class (log_record_new u ts sev b) = severity_class sev"
  by (simp add: record_class_def log_record_new_def)

end
