(* ===== verification/Ingest_Queue.thy ===== *)
theory Ingest_Queue
  imports Model
begin

text \<open>
  The bounded ingest queue with severity-ordered load shedding (\<^verbatim>\<open>queue.rs\<close>). The channel between
  producers and the writer is the \<^verbatim>\<open>crossbeam-channel\<close> crate: its operations are an argument of the
  definitions, a record of functions over an abstract channel state \<open>'c\<close> that also stands for
  whatever other threads and the clock do while a call waits. What the crate documents about them is
  the predicate \<open>channel_laws\<close>. The counters are atomic 64-bit words and wrap, as
  \<^verbatim>\<open>fetch_add\<close> does.
\<close>

section \<open>Definitions\<close>

datatype admission = Enqueued | Shed level_class | Closed

record ingest_stats =
  received :: u64
  enqueued :: u64
  dropped_debug :: u64
  dropped_info :: u64
  dropped_critical :: u64
  closed :: u64

definition stats_default :: ingest_stats where
  "stats_default = \<lparr>received = 0, enqueued = 0, dropped_debug = 0, dropped_info = 0,
     dropped_critical = 0, closed = 0\<rparr>"

definition stats_dropped :: "ingest_stats \<Rightarrow> u64" where
  "stats_dropped s = dropped_debug s + dropped_info s + dropped_critical s + closed s"

definition accounts_for_everything :: "ingest_stats \<Rightarrow> bool" where
  "accounts_for_everything s \<longleftrightarrow> received s = enqueued s + stats_dropped s"

datatype try_send_result = SendOk | SendFull | SendDisconnected
datatype send_timeout_result = TimeoutOk | TimeoutElapsed | TimeoutDisconnected
datatype recv_result = RecvOk log_record | RecvEmpty | RecvDisconnected

record 'c channel_ops =
  try_send :: "'c \<Rightarrow> log_record \<Rightarrow> try_send_result \<times> 'c"
  send_timeout :: "'c \<Rightarrow> log_record \<Rightarrow> nat \<Rightarrow> send_timeout_result \<times> 'c"
  try_recv :: "'c \<Rightarrow> recv_result \<times> 'c"
  recv_timeout :: "'c \<Rightarrow> nat \<Rightarrow> recv_result \<times> 'c"
  time_left :: "'c \<Rightarrow> nat option \<times> 'c"

record 'c ingest_queue =
  tx :: 'c
  stats :: ingest_stats
  critical_timeout_ms :: nat

definition shed :: "level_class \<Rightarrow> ingest_stats \<Rightarrow> ingest_stats" where
  "shed class s = (case class of
     Debug \<Rightarrow> s\<lparr>dropped_debug := dropped_debug s + 1\<rparr>
   | Info \<Rightarrow> s\<lparr>dropped_info := dropped_info s + 1\<rparr>
   | WarnPlus \<Rightarrow> s\<lparr>dropped_critical := dropped_critical s + 1\<rparr>)"

definition channel :: "'c \<Rightarrow> nat \<Rightarrow> 'c ingest_queue" where
  "channel c critical_timeout =
     \<lparr>tx = c, stats = stats_default, critical_timeout_ms = as_u64 critical_timeout\<rparr>"

definition with_timeout_cell :: "'c ingest_queue \<Rightarrow> nat \<Rightarrow> 'c ingest_queue \<times> nat" where
  "with_timeout_cell q cell = (q, critical_timeout_ms q)"

definition submit :: "'c channel_ops \<Rightarrow> 'c ingest_queue \<Rightarrow> log_record \<Rightarrow> admission \<times> 'c ingest_queue" where
  "submit ops q r = (
     let st = (stats q)\<lparr>received := received (stats q) + 1\<rparr>;
         class = record_class r
     in case try_send ops (tx q) r of
          (SendOk, c) \<Rightarrow> (Enqueued, q\<lparr>tx := c, stats := st\<lparr>enqueued := enqueued st + 1\<rparr>\<rparr>)
        | (SendFull, c) \<Rightarrow>
            if class \<noteq> WarnPlus then (Shed class, q\<lparr>tx := c, stats := shed class st\<rparr>)
            else (case send_timeout ops c r (critical_timeout_ms q) of
                (TimeoutOk, c') \<Rightarrow> (Enqueued, q\<lparr>tx := c', stats := st\<lparr>enqueued := enqueued st + 1\<rparr>\<rparr>)
              | (TimeoutElapsed, c') \<Rightarrow> (Shed class, q\<lparr>tx := c', stats := shed class st\<rparr>)
              | (TimeoutDisconnected, c') \<Rightarrow> (Closed, q\<lparr>tx := c', stats := st\<lparr>closed := closed st + 1\<rparr>\<rparr>))
        | (SendDisconnected, c) \<Rightarrow> (Closed, q\<lparr>tx := c, stats := st\<lparr>closed := closed st + 1\<rparr>\<rparr>))"

text \<open>The inner loop of \<^verbatim>\<open>next_batch\<close>: at most \<open>n\<close> more records, none waited for.\<close>

fun recv_more :: "'c channel_ops \<Rightarrow> nat \<Rightarrow> 'c \<Rightarrow> log_record list \<times> 'c" where
  "recv_more ops 0 c = ([], c)"
| "recv_more ops (Suc n) c =
     (case try_recv ops c of
        (RecvOk r, c') \<Rightarrow> (let (rs, c'') = recv_more ops n c' in (r # rs, c''))
      | (_, c') \<Rightarrow> ([], c'))"

definition next_batch :: "'c channel_ops \<Rightarrow> nat \<Rightarrow> nat \<Rightarrow> 'c \<Rightarrow> log_record list \<times> 'c" where
  "next_batch ops mx timeout c =
     (case recv_timeout ops c timeout of
        (RecvOk r, c') \<Rightarrow> (let (rs, c'') = recv_more ops (mx - 1) c' in (r # rs, c''))
      | (_, c') \<Rightarrow> ([], c'))"

text \<open>The inner loop of \<^verbatim>\<open>next_batch_lingering\<close>: what is there is drained before each bounded wait.\<close>

fun recv_linger :: "'c channel_ops \<Rightarrow> nat \<Rightarrow> 'c \<Rightarrow> log_record list \<times> 'c" where
  "recv_linger ops 0 c = ([], c)"
| "recv_linger ops (Suc n) c =
     (case try_recv ops c of
        (RecvOk r, c') \<Rightarrow> (let (rs, c'') = recv_linger ops n c' in (r # rs, c''))
      | (RecvDisconnected, c') \<Rightarrow> ([], c')
      | (RecvEmpty, c') \<Rightarrow>
          (case time_left ops c' of
             (None, c'') \<Rightarrow> ([], c'')
           | (Some left, c'') \<Rightarrow>
               (case recv_timeout ops c'' left of
                  (RecvOk r, d) \<Rightarrow> (let (rs, d') = recv_linger ops n d in (r # rs, d'))
                | (_, d) \<Rightarrow> ([], d))))"

definition next_batch_lingering :: "'c channel_ops \<Rightarrow> nat \<Rightarrow> nat \<Rightarrow> 'c \<Rightarrow> log_record list \<times> 'c" where
  "next_batch_lingering ops mx timeout c =
     (case recv_timeout ops c timeout of
        (RecvOk r, c') \<Rightarrow> (let (rs, c'') = recv_linger ops (mx - 1) c' in (r # rs, c''))
      | (_, c') \<Rightarrow> ([], c'))"

text \<open>\<^verbatim>\<open>try_iter().collect()\<close>: not returning is \<open>None\<close>.\<close>

partial_function (option) drain :: "'c channel_ops \<Rightarrow> 'c \<Rightarrow> (log_record list \<times> 'c) option" where
  "drain ops c =
     (case try_recv ops c of
        (RecvOk r, c') \<Rightarrow> Option.bind (drain ops c') (\<lambda>(rs, c''). Some (r # rs, c''))
      | (_, c') \<Rightarrow> Some ([], c'))"

declare drain.simps [code]

section \<open>What the channel crate documents\<close>

text \<open>
  \<open>sent\<close> and \<open>rcvd\<close> are the histories of a channel state: every record ever accepted and every
  record ever handed out, oldest first. What is handed out is a prefix of what was accepted (first
  in, first out) and at most \<open>cap\<close> records are in between. A non-blocking call is atomic. While
  \<^verbatim>\<open>send_timeout\<close> waits the consumer may take records, while \<^verbatim>\<open>recv_timeout\<close> waits producers may
  add some.
\<close>

definition channel_laws ::
  "'c channel_ops \<Rightarrow> ('c \<Rightarrow> log_record list) \<Rightarrow> ('c \<Rightarrow> log_record list) \<Rightarrow> nat \<Rightarrow> bool" where
  "channel_laws ops sent rcvd cap \<longleftrightarrow>
     (\<forall>c. prefix (rcvd c) (sent c) \<and> length (sent c) \<le> length (rcvd c) + cap)
   \<and> (\<forall>c r. case try_send ops c r of
        (SendOk, c') \<Rightarrow> sent c' = sent c @ [r] \<and> rcvd c' = rcvd c
      | (SendFull, c') \<Rightarrow> length (sent c) = length (rcvd c) + cap \<and> sent c' = sent c \<and> rcvd c' = rcvd c
      | (SendDisconnected, c') \<Rightarrow> sent c' = sent c \<and> rcvd c' = rcvd c)
   \<and> (\<forall>c r t. case send_timeout ops c r t of
        (TimeoutOk, c') \<Rightarrow> sent c' = sent c @ [r] \<and> prefix (rcvd c) (rcvd c')
      | (_, c') \<Rightarrow> sent c' = sent c \<and> prefix (rcvd c) (rcvd c'))
   \<and> (\<forall>c. case try_recv ops c of
        (RecvOk r, c') \<Rightarrow> rcvd c' = rcvd c @ [r] \<and> sent c' = sent c
      | (_, c') \<Rightarrow> rcvd c = sent c \<and> rcvd c' = rcvd c \<and> sent c' = sent c)
   \<and> (\<forall>c t. case recv_timeout ops c t of
        (RecvOk r, c') \<Rightarrow> rcvd c' = rcvd c @ [r] \<and> prefix (sent c) (sent c')
      | (_, c') \<Rightarrow> rcvd c' = rcvd c \<and> prefix (sent c) (sent c'))
   \<and> (\<forall>c. rcvd (snd (time_left ops c)) = rcvd c \<and> prefix (sent c) (sent (snd (time_left ops c))))"

text \<open>The rule form of the laws.\<close>

lemma channel_lawsD:
  assumes "channel_laws ops sent rcvd cap"
  shows "prefix (rcvd c) (sent c)" "length (sent c) \<le> length (rcvd c) + cap"
    "try_send ops c r = (SendOk, c') \<Longrightarrow> sent c' = sent c @ [r] \<and> rcvd c' = rcvd c"
    "try_send ops c r = (SendFull, c') \<Longrightarrow> length (sent c) = length (rcvd c) + cap \<and> sent c' = sent c \<and> rcvd c' = rcvd c"
    "try_send ops c r = (SendDisconnected, c') \<Longrightarrow> sent c' = sent c \<and> rcvd c' = rcvd c"
    "send_timeout ops c r t = (TimeoutOk, c') \<Longrightarrow> sent c' = sent c @ [r]"
    "send_timeout ops c r t = (TimeoutElapsed, c') \<Longrightarrow> sent c' = sent c"
    "send_timeout ops c r t = (TimeoutDisconnected, c') \<Longrightarrow> sent c' = sent c"
    "try_recv ops c = (RecvOk r, c') \<Longrightarrow> rcvd c' = rcvd c @ [r] \<and> sent c' = sent c"
    "try_recv ops c = (RecvEmpty, c') \<Longrightarrow> rcvd c = sent c \<and> rcvd c' = rcvd c \<and> sent c' = sent c"
    "try_recv ops c = (RecvDisconnected, c') \<Longrightarrow> rcvd c = sent c \<and> rcvd c' = rcvd c \<and> sent c' = sent c"
    "recv_timeout ops c t = (RecvOk r, c') \<Longrightarrow> rcvd c' = rcvd c @ [r] \<and> prefix (sent c) (sent c')"
    "recv_timeout ops c t = (RecvEmpty, c') \<Longrightarrow> rcvd c' = rcvd c \<and> prefix (sent c) (sent c')"
    "recv_timeout ops c t = (RecvDisconnected, c') \<Longrightarrow> rcvd c' = rcvd c \<and> prefix (sent c) (sent c')"
    "time_left ops c = (l, c') \<Longrightarrow> rcvd c' = rcvd c \<and> prefix (sent c) (sent c')"
  using assms unfolding channel_laws_def
  by (smt (verit) prod.case try_send_result.case send_timeout_result.case recv_result.case snd_conv)+

section \<open>Accounting\<close>

text \<open>What one admission adds to the counters.\<close>

definition count_admission :: "admission \<Rightarrow> ingest_stats \<Rightarrow> ingest_stats" where
  "count_admission a s = (let s' = s\<lparr>received := received s + 1\<rparr> in
     case a of
       Enqueued \<Rightarrow> s'\<lparr>enqueued := enqueued s' + 1\<rparr>
     | Shed class \<Rightarrow> shed class s'
     | Closed \<Rightarrow> s'\<lparr>closed := closed s' + 1\<rparr>)"

lemma submit_stats:
  "submit ops q r = (a, q') \<Longrightarrow> stats q' = count_admission a (stats q)"
  by (auto simp: submit_def count_admission_def Let_def
      split: prod.splits try_send_result.splits send_timeout_result.splits if_splits)

lemma count_admission_accounts:
  "accounts_for_everything (count_admission a s) = accounts_for_everything s"
  by (cases a; cases "case a of Shed c \<Rightarrow> c | _ \<Rightarrow> Debug")
    (auto simp: count_admission_def accounts_for_everything_def stats_dropped_def shed_def Let_def
      algebra_simps)

fun submit_all :: "'c channel_ops \<Rightarrow> 'c ingest_queue \<Rightarrow> log_record list \<Rightarrow> admission list \<times> 'c ingest_queue" where
  "submit_all ops q [] = ([], q)"
| "submit_all ops q (r # rs) =
     (let (a, q') = submit ops q r; (as, q'') = submit_all ops q' rs in (a # as, q''))"

lemma submit_all_stats:
  "submit_all ops q rs = (as, q') \<Longrightarrow> stats q' = fold count_admission as (stats q) \<and> length as = length rs"
proof (induction rs arbitrary: q as)
  case Nil
  then show ?case by simp
next
  case (Cons r rs)
  obtain a q1 as' q2 where step: "submit ops q r = (a, q1)" "submit_all ops q1 rs = (as', q2)"
    by (metis surj_pair)
  then have "as = a # as'" "q' = q2"
    using Cons.prems by simp_all
  then show ?case
    using Cons.IH [of q1 as'] step submit_stats [OF step(1)] by simp
qed

lemma fold_count_admission:
  "received (fold count_admission as s) = received s + of_nat (length as)"
  "enqueued (fold count_admission as s) = enqueued s + of_nat (count_list as Enqueued)"
  "dropped_debug (fold count_admission as s) = dropped_debug s + of_nat (count_list as (Shed Debug))"
  "dropped_info (fold count_admission as s) = dropped_info s + of_nat (count_list as (Shed Info))"
  "dropped_critical (fold count_admission as s) = dropped_critical s + of_nat (count_list as (Shed WarnPlus))"
  "closed (fold count_admission as s) = closed s + of_nat (count_list as Closed)"
  by (induction as arbitrary: s)
    (auto simp: count_admission_def shed_def Let_def algebra_simps split: admission.splits level_class.splits)

lemma fold_count_accounts:
  "accounts_for_everything s \<Longrightarrow> accounts_for_everything (fold count_admission as s)"
  by (induction as arbitrary: s) (simp_all add: count_admission_accounts)

text \<open>
  Nothing vanishes silently: whatever the channel answers and whatever other threads do, after
  any sequence of submissions on a fresh queue the counters account for every record, and each
  counter is exactly the number of admissions of its kind (modulo the 64-bit counters).
\<close>

theorem submit_accounting:
  "case submit_all ops (channel c t) rs of (as, q) \<Rightarrow>
     accounts_for_everything (stats q)
     \<and> received (stats q) = of_nat (length rs)
     \<and> enqueued (stats q) = of_nat (count_list as Enqueued)
     \<and> dropped_debug (stats q) = of_nat (count_list as (Shed Debug))
     \<and> dropped_info (stats q) = of_nat (count_list as (Shed Info))
     \<and> dropped_critical (stats q) = of_nat (count_list as (Shed WarnPlus))
     \<and> closed (stats q) = of_nat (count_list as Closed)"
proof -
  obtain as q where run: "submit_all ops (channel c t) rs = (as, q)"
    by (metis surj_pair)
  have start: "stats (channel c t) = stats_default" "accounts_for_everything stats_default"
    by (simp_all add: channel_def accounts_for_everything_def stats_default_def stats_dropped_def)
  have "stats q = fold count_admission as stats_default" "length as = length rs"
    using submit_all_stats [OF run] start(1) by simp_all
  with start(2) show ?thesis
    by (simp add: run fold_count_admission fold_count_accounts)
      (simp add: stats_default_def)
qed

section \<open>Shedding order\<close>

text \<open>
  The application is never blocked for a record below WARN: the outcome of submitting one does
  not depend on the waiting send at all, it is admitted or shed at once under its own class, and a
  record at WARN or above is counted as a critical drop only after both sends were refused.
\<close>

theorem submit_never_waits_below_warn:
  assumes "record_class r \<noteq> WarnPlus"
  shows "submit (ops\<lparr>send_timeout := f\<rparr>) q r = submit ops q r
    \<and> fst (submit ops q r) \<in> {Enqueued, Shed (record_class r), Closed}
    \<and> (\<forall>w. record_class w = WarnPlus \<longrightarrow> fst (submit ops q w) = Shed WarnPlus \<longrightarrow>
         (\<exists>c c'. try_send ops (tx q) w = (SendFull, c)
            \<and> send_timeout ops c w (critical_timeout_ms q) = (TimeoutElapsed, c')))"
  using assms
  by (auto simp: submit_def Let_def split: prod.splits try_send_result.splits send_timeout_result.splits)

section \<open>First in, first out\<close>

lemma submit_sent:
  assumes laws: "channel_laws ops sent rcvd cap" and sub: "submit ops q r = (a, q')"
  shows "sent (tx q') = sent (tx q) @ (if a = Enqueued then [r] else [])"
  using sub channel_lawsD(3-8) [OF laws]
  by (fastforce simp: submit_def Let_def
      split: prod.splits try_send_result.splits send_timeout_result.splits if_splits)

lemma submit_all_sent:
  assumes laws: "channel_laws ops sent rcvd cap" and "submit_all ops q rs = (as, q')"
  shows "sent (tx q') = sent (tx q) @ map fst (filter (\<lambda>(r, a). a = Enqueued) (zip rs as))"
  using assms(2)
proof (induction rs arbitrary: q as)
  case Nil
  then show ?case by simp
next
  case (Cons r rs)
  obtain a q1 as' q2 where step: "submit ops q r = (a, q1)" "submit_all ops q1 rs = (as', q2)"
    by (metis surj_pair)
  then have "as = a # as'" "q' = q2"
    using Cons.prems by simp_all
  then show ?case
    using Cons.IH [of q1 as'] step submit_sent [OF laws step(1)] by simp
qed

lemma recv_more_rcvd:
  assumes laws: "channel_laws ops sent rcvd cap" and "recv_more ops n c = (rs, c')"
  shows "rcvd c' = rcvd c @ rs \<and> length rs \<le> n"
  using assms(2)
proof (induction n arbitrary: c rs)
  case 0
  then show ?case by simp
next
  case (Suc n)
  then show ?case
    using channel_lawsD(9-11) [OF laws, of c]
    by (fastforce split: prod.splits recv_result.splits)
qed

lemma recv_linger_rcvd:
  assumes laws: "channel_laws ops sent rcvd cap" and "recv_linger ops n c = (rs, c')"
  shows "rcvd c' = rcvd c @ rs \<and> length rs \<le> n"
  using assms(2)
proof (induction n arbitrary: c rs)
  case 0
  then show ?case by simp
next
  case (Suc n)
  obtain v d where v: "try_recv ops c = (v, d)" by fastforce
  show ?case
  proof (cases v)
    case (RecvOk r)
    then show ?thesis
      using Suc v channel_lawsD(9) [OF laws, of c] by (fastforce split: prod.splits)
  next
    case RecvDisconnected
    then show ?thesis
      using Suc.prems v channel_lawsD(11) [OF laws, of c] by simp
  next
    case RecvEmpty
    then have d: "rcvd d = rcvd c"
      using v channel_lawsD(10) [OF laws, of c] by simp
    obtain l e where l: "time_left ops d = (l, e)" by fastforce
    have e: "rcvd e = rcvd d"
      using channel_lawsD(15) [OF laws l] by simp
    show ?thesis
    proof (cases l)
      case None
      then show ?thesis using Suc.prems v RecvEmpty l e d by simp
    next
      case (Some left)
      then show ?thesis
        using Suc v RecvEmpty l e d channel_lawsD(12-14) [OF laws, of e left]
        by (fastforce split: prod.splits recv_result.splits)
    qed
  qed
qed

lemma next_batch_rcvd:
  assumes laws: "channel_laws ops sent rcvd cap" and "next_batch ops mx t c = (rs, c')"
  shows "rcvd c' = rcvd c @ rs \<and> length rs \<le> max 1 mx"
proof -
  obtain v d where v: "recv_timeout ops c t = (v, d)" by fastforce
  show ?thesis
  proof (cases v)
    case (RecvOk r)
    obtain ss e where more: "recv_more ops (mx - 1) d = (ss, e)" by fastforce
    with assms(2) v RecvOk have "rs = r # ss" "c' = e"
      by (simp_all add: next_batch_def)
    then show ?thesis
      using recv_more_rcvd [OF laws more] channel_lawsD(12) [OF laws, of c t r d] v RecvOk by auto
  qed (use assms(2) v channel_lawsD(13,14) [OF laws, of c t d] in \<open>simp_all add: next_batch_def\<close>)
qed

lemma next_batch_lingering_rcvd:
  assumes laws: "channel_laws ops sent rcvd cap" and "next_batch_lingering ops mx t c = (rs, c')"
  shows "rcvd c' = rcvd c @ rs \<and> length rs \<le> max 1 mx"
proof -
  obtain v d where v: "recv_timeout ops c t = (v, d)" by fastforce
  show ?thesis
  proof (cases v)
    case (RecvOk r)
    obtain ss e where more: "recv_linger ops (mx - 1) d = (ss, e)" by fastforce
    with assms(2) v RecvOk have "rs = r # ss" "c' = e"
      by (simp_all add: next_batch_lingering_def)
    then show ?thesis
      using recv_linger_rcvd [OF laws more] channel_lawsD(12) [OF laws, of c t r d] v RecvOk by auto
  qed (use assms(2) v channel_lawsD(13,14) [OF laws, of c t d] in \<open>simp_all add: next_batch_lingering_def\<close>)
qed

text \<open>The shutdown drain returns and takes everything accepted: a clean stop loses nothing.\<close>

lemma drain_returns:
  assumes laws: "channel_laws ops sent rcvd cap"
  shows "\<exists>rs c'. drain ops c = Some (rs, c') \<and> rcvd c' = rcvd c @ rs \<and> rcvd c' = sent c"
proof (induction "length (sent c) - length (rcvd c)" arbitrary: c rule: less_induct)
  case less
  obtain v d where v: "try_recv ops c = (v, d)" by fastforce
  show ?case
  proof (cases v)
    case (RecvOk r)
    then have d: "rcvd d = rcvd c @ [r]" "sent d = sent c"
      using v channel_lawsD(9) [OF laws, of c] by simp_all
    have "length (rcvd d) \<le> length (sent d)"
      using channel_lawsD(1) [OF laws, of d] by (rule prefix_length_le)
    then have "length (sent d) - length (rcvd d) < length (sent c) - length (rcvd c)"
      using d by simp
    from less [OF this] obtain rs c' where "drain ops d = Some (rs, c')" "rcvd c' = rcvd d @ rs" "rcvd c' = sent d"
      by blast
    then show ?thesis
      using v RecvOk d by (subst drain.simps) simp
  qed (use v channel_lawsD(10,11) [OF laws, of c d] in \<open>simp add: drain.simps [of ops c]\<close>)+
qed

text \<open>
  C13. First in, first out, end to end: with a channel that keeps its documented contract, what the
  writer takes in one batch (either flavour) extends the history of records handed out by exactly
  that batch, of at most the size asked for; the producer's submissions extend the accepted history
  by exactly the records answered \<open>Enqueued\<close>, in order; the handed-out history is always a prefix of
  the accepted one; and the shutdown drain returns with every accepted record handed out.
\<close>

theorem queue_fifo:
  assumes "channel_laws ops sent rcvd cap"
  shows "(submit_all ops q rs = (as, q') \<longrightarrow>
      sent (tx q') = sent (tx q) @ map fst (filter (\<lambda>(r, a). a = Enqueued) (zip rs as)))
    \<and> (next_batch ops mx t c = (bs, c') \<or> next_batch_lingering ops mx t c = (bs, c') \<longrightarrow>
      rcvd c' = rcvd c @ bs \<and> prefix (rcvd c') (sent c') \<and> length bs \<le> max 1 mx)
    \<and> (\<exists>ds d. drain ops c = Some (ds, d) \<and> sent c = rcvd c @ ds)"
proof (intro conjI impI)
  show "sent (tx q') = sent (tx q) @ map fst (filter (\<lambda>(r, a). a = Enqueued) (zip rs as))"
    if "submit_all ops q rs = (as, q')"
    using submit_all_sent [OF assms that] by blast
  show "rcvd c' = rcvd c @ bs" "prefix (rcvd c') (sent c')" "length bs \<le> max 1 mx"
    if "next_batch ops mx t c = (bs, c') \<or> next_batch_lingering ops mx t c = (bs, c')"
    using that next_batch_rcvd [OF assms, of mx t c bs c'] next_batch_lingering_rcvd [OF assms, of mx t c bs c']
      channel_lawsD(1) [OF assms, of c'] by blast+
  show "\<exists>ds d. drain ops c = Some (ds, d) \<and> sent c = rcvd c @ ds"
    using drain_returns [OF assms, of c] by metis
qed

section \<open>Concurrent producers\<close>

text \<open>
  Several threads submit at once. A thread's \<^verbatim>\<open>submit\<close> is a sequence of atomic steps: count the
  record received, ask the channel, possibly wait, and count the outcome. The channel's answers are
  unconstrained. The invariant says that the counters are off by exactly the submissions in flight.
\<close>

datatype producer = Idle | Offering log_record | Waiting log_record | Counting admission

record threads =
  pcs :: "nat \<Rightarrow> producer"
  shared :: ingest_stats

definition busy :: "threads \<Rightarrow> nat set" where
  "busy s = {i. pcs s i \<noteq> Idle}"

definition threads_init :: threads where
  "threads_init = \<lparr>pcs = (\<lambda>_. Idle), shared = stats_default\<rparr>"

inductive submit_step :: "threads \<Rightarrow> threads \<Rightarrow> bool" where
  receive: "pcs s i = Idle \<Longrightarrow> submit_step s
     (s\<lparr>pcs := (pcs s)(i := Offering r), shared := (shared s)\<lparr>received := received (shared s) + 1\<rparr>\<rparr>)"
| accepted: "pcs s i = Offering r \<Longrightarrow> submit_step s (s\<lparr>pcs := (pcs s)(i := Counting Enqueued)\<rparr>)"
| full_shed: "pcs s i = Offering r \<Longrightarrow> record_class r \<noteq> WarnPlus \<Longrightarrow>
     submit_step s (s\<lparr>pcs := (pcs s)(i := Counting (Shed (record_class r)))\<rparr>)"
| full_wait: "pcs s i = Offering r \<Longrightarrow> record_class r = WarnPlus \<Longrightarrow>
     submit_step s (s\<lparr>pcs := (pcs s)(i := Waiting r)\<rparr>)"
| gone: "pcs s i = Offering r \<or> pcs s i = Waiting r \<Longrightarrow> submit_step s (s\<lparr>pcs := (pcs s)(i := Counting Closed)\<rparr>)"
| wait_ok: "pcs s i = Waiting r \<Longrightarrow> submit_step s (s\<lparr>pcs := (pcs s)(i := Counting Enqueued)\<rparr>)"
| wait_timeout: "pcs s i = Waiting r \<Longrightarrow>
     submit_step s (s\<lparr>pcs := (pcs s)(i := Counting (Shed (record_class r)))\<rparr>)"
| count_enqueued: "pcs s i = Counting Enqueued \<Longrightarrow> submit_step s
     (s\<lparr>pcs := (pcs s)(i := Idle), shared := (shared s)\<lparr>enqueued := enqueued (shared s) + 1\<rparr>\<rparr>)"
| count_shed: "pcs s i = Counting (Shed class) \<Longrightarrow> submit_step s
     (s\<lparr>pcs := (pcs s)(i := Idle), shared := shed class (shared s)\<rparr>)"
| count_closed: "pcs s i = Counting Closed \<Longrightarrow> submit_step s
     (s\<lparr>pcs := (pcs s)(i := Idle), shared := (shared s)\<lparr>closed := closed (shared s) + 1\<rparr>\<rparr>)"

inductive submit_reachable :: "threads \<Rightarrow> bool" where
  start: "submit_reachable threads_init"
| step: "submit_reachable s \<Longrightarrow> submit_step s t \<Longrightarrow> submit_reachable t"

definition in_flight_inv :: "threads \<Rightarrow> bool" where
  "in_flight_inv s \<longleftrightarrow> finite (busy s) \<and>
     received (shared s) = enqueued (shared s) + stats_dropped (shared s) + of_nat (card (busy s))"

lemma busy_upd:
  "busy (s\<lparr>pcs := (pcs s)(i := p)\<rparr>) = (if p = Idle then busy s - {i} else insert i (busy s))"
  "busy (s\<lparr>pcs := (pcs s)(i := p), shared := x\<rparr>) = (if p = Idle then busy s - {i} else insert i (busy s))"
  by (auto simp: busy_def)

lemma busy_insert: "pcs s i \<noteq> Idle \<Longrightarrow> insert i (busy s) = busy s"
  by (auto simp: busy_def)

lemma card_busy_remove:
  "finite (busy s) \<Longrightarrow> i \<in> busy s \<Longrightarrow> (of_nat (card (busy s)) :: u64) = of_nat (card (busy s - {i})) + 1"
  by (metis One_nat_def Suc_eq_plus1 card.remove of_nat_Suc add.commute)

lemma submit_step_inv:
  assumes "submit_step s t" "in_flight_inv s"
  shows "in_flight_inv t"
  using assms
proof (induction rule: submit_step.induct)
  case (receive s i r)
  then have "i \<notin> busy s" by (simp add: busy_def)
  with receive.prems show ?case
    by (simp add: in_flight_inv_def busy_upd stats_dropped_def)
next
  case (count_enqueued s i)
  then have "i \<in> busy s" by (simp add: busy_def)
  with count_enqueued.prems show ?case
    by (simp add: in_flight_inv_def busy_upd stats_dropped_def card_busy_remove)
next
  case (count_shed s i cl)
  then have "i \<in> busy s" by (simp add: busy_def)
  with count_shed.prems show ?case
    by (cases cl) (simp_all add: in_flight_inv_def busy_upd stats_dropped_def card_busy_remove shed_def)
next
  case (count_closed s i)
  then have "i \<in> busy s" by (simp add: busy_def)
  with count_closed.prems show ?case
    by (simp add: in_flight_inv_def busy_upd stats_dropped_def card_busy_remove)
next
  case (gone s i r)
  then have "insert i (busy s) = busy s" by (auto simp: busy_def)
  with gone.prems show ?case
    by (simp add: in_flight_inv_def busy_upd)
qed (simp_all add: in_flight_inv_def busy_upd busy_insert)

lemma submit_reachable_inv: "submit_reachable s \<Longrightarrow> in_flight_inv s"
proof (induction rule: submit_reachable.induct)
  case start
  show ?case
    by (simp add: in_flight_inv_def threads_init_def busy_def stats_default_def stats_dropped_def)
next
  case (step s t)
  then show ?case by (blast intro: submit_step_inv)
qed

text \<open>
  C12. Accounting survives concurrency: in every interleaving of any number of submitting threads, the
  records received are those stored or counted lost plus the submissions still in flight, so
  whenever no submission is in flight the published invariant holds.
\<close>

theorem concurrent_accounting:
  assumes "submit_reachable s"
  shows "received (shared s) = enqueued (shared s) + stats_dropped (shared s) + of_nat (card (busy s))
    \<and> (busy s = {} \<longrightarrow> accounts_for_everything (shared s))"
  using submit_reachable_inv [OF assms] by (simp add: in_flight_inv_def accounts_for_everything_def)

section \<open>Witnesses\<close>

text \<open>
  A channel that keeps the contract: the state is the accepted history and how many of its last
  records are still queued. While a send waits, the consumer takes one record.
\<close>

definition queued :: "nat \<Rightarrow> log_record list \<times> nat \<Rightarrow> nat" where
  "queued cap c = min (min (snd c) cap) (length (fst c))"

definition list_channel :: "nat \<Rightarrow> (log_record list \<times> nat) channel_ops" where
  "list_channel cap = \<lparr>
     try_send = (\<lambda>c r. if queued cap c < cap then (SendOk, fst c @ [r], Suc (queued cap c)) else (SendFull, c)),
     send_timeout = (\<lambda>c r t. (TimeoutOk, fst c @ [r], queued cap c)),
     try_recv = (\<lambda>c. if 0 < queued cap c
        then (RecvOk (fst c ! (length (fst c) - queued cap c)), fst c, queued cap c - 1) else (RecvEmpty, c)),
     recv_timeout = (\<lambda>c t. if 0 < queued cap c
        then (RecvOk (fst c ! (length (fst c) - queued cap c)), fst c, queued cap c - 1) else (RecvEmpty, c)),
     time_left = (\<lambda>c. (None, c))\<rparr>"

definition list_rcvd :: "nat \<Rightarrow> log_record list \<times> nat \<Rightarrow> log_record list" where
  "list_rcvd cap c = take (length (fst c) - queued cap c) (fst c)"

lemma queued_le: "queued cap (s, k) \<le> length s"
  by (simp add: queued_def)

lemma list_channel_laws: "channel_laws (list_channel cap) fst (list_rcvd cap) cap"
proof -
  have pop: "list_rcvd cap (s, queued cap (s, k) - 1) = list_rcvd cap (s, k) @ [s ! (length s - queued cap (s, k))]"
    if "0 < queued cap (s, k)" for s k
  proof -
    have "queued cap (s, queued cap (s, k) - 1) = queued cap (s, k) - 1"
      by (auto simp: queued_def)
    moreover have "length s - (queued cap (s, k) - 1) = Suc (length s - queued cap (s, k))"
      "length s - queued cap (s, k) < length s"
      using that queued_le [of cap s k] by simp_all
    ultimately show ?thesis
      by (simp add: list_rcvd_def take_Suc_conv_app_nth)
  qed
  have wait: "prefix (list_rcvd cap (s, k)) (list_rcvd cap (s @ [r], queued cap (s, k)))" for s k r
  proof -
    have "queued cap (s @ [r], queued cap (s, k)) = queued cap (s, k)"
      by (auto simp: queued_def)
    moreover have "length s - queued cap (s, k) \<le> Suc (length s) - queued cap (s, k)"
      by simp
    ultimately show ?thesis
      unfolding list_rcvd_def fst_conv
      by (simp add: take_is_prefix) (metis append_prefixD prefix_def prefix_order.refl take_add take_append le_add_diff_inverse)
  qed
  have push: "list_rcvd cap (s @ [r], Suc (queued cap (s, k))) = list_rcvd cap (s, k)"
    if "queued cap (s, k) < cap" for s k r
  proof -
    have "queued cap (s @ [r], Suc (queued cap (s, k))) = Suc (queued cap (s, k))"
      using that by (auto simp: queued_def)
    then show ?thesis
      using queued_le [of cap s k] by (simp add: list_rcvd_def)
  qed
  have len: "length s \<le> length (list_rcvd cap (s, k)) + cap"
    "cap \<le> queued cap (s, k) \<Longrightarrow> length s = length (list_rcvd cap (s, k)) + cap"
    "prefix (list_rcvd cap (s, k)) s" for s k
    by (auto simp: list_rcvd_def queued_def take_is_prefix)
  have empty: "queued cap (s, k) = 0 \<Longrightarrow> list_rcvd cap (s, k) = s" for s k
    by (simp add: list_rcvd_def)
  show ?thesis
    unfolding channel_laws_def list_channel_def
    by (auto simp: pop [simplified] push wait len empty not_less)
qed

abbreviation demo_record :: "severity \<Rightarrow> log_record" where
  "demo_record sev \<equiv> log_record_new 7 0 sev ''x''"

theorem submit_never_waits_below_warn_witness:
  "record_class (demo_record DEBUG) \<noteq> WarnPlus
   \<and> fst (submit (list_channel 0) (channel ([], 0) 250) (demo_record DEBUG)) = Shed Debug
   \<and> submit (list_channel 0\<lparr>send_timeout := \<lambda>c r t. (TimeoutElapsed, c)\<rparr>) (channel ([], 0) 250) (demo_record DEBUG)
     = submit (list_channel 0) (channel ([], 0) 250) (demo_record DEBUG)"
proof -
  have c: "record_class (demo_record DEBUG) = Debug"
    by (simp add: severity_class_def DEBUG_def)
  then have n: "record_class (demo_record DEBUG) \<noteq> WarnPlus"
    by simp
  have "fst (submit (list_channel 0) (channel ([], 0) 250) (demo_record DEBUG)) = Shed Debug"
    unfolding submit_def Let_def c by (simp add: list_channel_def queued_def channel_def)
  then show ?thesis
    using n submit_never_waits_below_warn [OF n, of "\<lambda>c r t. (TimeoutElapsed, c)" "list_channel 0" "channel ([], 0) 250"]
    by blast
qed

theorem queue_fifo_witness:
  "\<exists>ds d. drain (list_channel 2) ([demo_record INFO, demo_record WARN], 1) = Some (ds, d)
     \<and> [demo_record INFO, demo_record WARN] = list_rcvd 2 ([demo_record INFO, demo_record WARN], 1) @ ds"
  using queue_fifo [OF list_channel_laws, where c = "([demo_record INFO, demo_record WARN], 1)"] by simp

theorem concurrent_accounting_witness:
  "\<exists>s. submit_reachable s \<and> busy s = {3} \<and> received (shared s) = 1
     \<and> received (shared s) = enqueued (shared s) + stats_dropped (shared s) + of_nat (card (busy s))"
proof -
  let ?s = "threads_init\<lparr>pcs := (pcs threads_init)(3 := Offering (demo_record WARN)),
    shared := (shared threads_init)\<lparr>received := received (shared threads_init) + 1\<rparr>\<rparr>"
  have r: "submit_reachable ?s"
    by (rule submit_reachable.step [OF submit_reachable.start])
      (rule submit_step.receive, simp add: threads_init_def)
  moreover have "busy ?s = {3}" "received (shared ?s) = 1"
    by (auto simp: busy_def threads_init_def stats_default_def)
  ultimately show ?thesis
    using concurrent_accounting [OF r] by blast
qed

end
