(* ===== verification/Framing.thy ===== *)
theory Framing
  imports Prelude
begin

text \<open>
  The frame both logs of the agent write, \<^verbatim>\<open>len:u32le crc32:u32le payload[len]\<close>, and the interface the
  readers of such a log rely on. The checksum is the \<^verbatim>\<open>crc32fast\<close> crate: an arbitrary function here.
\<close>

section \<open>Frames\<close>

definition frame :: "(bytes \<Rightarrow> u32) \<Rightarrow> bytes \<Rightarrow> bytes" where
  "frame crc p = u32_to_le (of_nat (length p)) @ u32_to_le (crc p) @ p"

lemma length_frame: "length (frame crc p) = 8 + length p"
  by (simp add: frame_def)

lemma frame_parts:
  "take 4 (frame crc p) = u32_to_le (of_nat (length p))"
  "drop 4 (take 8 (frame crc p)) = u32_to_le (crc p)"
  "drop 8 (frame crc p) = p"
  by (simp_all add: frame_def)

text \<open>\<^verbatim>\<open>read_full\<close> and \<^verbatim>\<open>read_exact\<close>: the buffer is filled, or the end of the file was met.\<close>

definition read_full :: "nat \<Rightarrow> bytes \<Rightarrow> (bytes \<times> bytes) option" where
  "read_full n bs = (if n \<le> length bs then Some (take n bs, drop n bs) else None)"

text \<open>Creating a segment file succeeds, does not create a file, or leaves one with \<open>n\<close> header bytes.\<close>

datatype create_outcome = Created | Open_failed | Header_failed nat

section \<open>The interface\<close>

text \<open>
  A codec writes one payload as one frame and reads one frame from the front of a byte sequence. The
  laws: a written frame is read back, a proper prefix of one is not taken for a frame, and whatever
  is taken for a frame is one.
\<close>

locale frame_codec =
  fixes wr :: "bytes \<Rightarrow> bytes"
    and rd :: "bytes \<Rightarrow> (bytes \<times> bytes) option"
    and fits :: "bytes \<Rightarrow> bool"
  assumes wr_length: "length (wr p) = 8 + length p"
    and rd_wr: "fits p \<Longrightarrow> rd (wr p @ rest) = Some (p, rest)"
    and rd_torn: "fits p \<Longrightarrow> k < length (wr p) \<Longrightarrow> rd (take k (wr p)) = None"
    and rd_sound: "rd bs = Some (p, rest) \<Longrightarrow> fits p \<and> bs = wr p @ rest"
begin

lemma rd_Nil: "rd [] = None"
proof (cases "rd []")
  case (Some v)
  then obtain p rest where "rd [] = Some (p, rest)" by (cases v) simp
  then have "[] = wr p @ rest" using rd_sound by blast
  then show ?thesis using wr_length [of p] by simp
qed

lemma rd_shorter: "rd bs = Some (p, rest) \<Longrightarrow> length bs = 8 + length p + length rest"
  using rd_sound [of bs p rest] wr_length [of p] by simp

text \<open>Cutting a sequence of frames anywhere leaves whole frames and a tail that is no frame.\<close>

lemma torn_split:
  assumes "list_all fits ps"
  shows "\<exists>j torn. j \<le> length ps \<and> rd torn = None
    \<and> take n (concat (map wr ps)) = concat (map wr (take j ps)) @ torn
    \<and> (length (concat (map wr ps)) \<le> n \<longrightarrow> j = length ps \<and> torn = [])"
  using assms
proof (induction ps arbitrary: n)
  case Nil
  show ?case using rd_Nil by auto
next
  case (Cons p ps)
  show ?case
  proof (cases "n < length (wr p)")
    case True
    then have "rd (take n (wr p)) = None"
      using Cons.prems rd_torn by simp
    with True show ?thesis
      by (intro exI [of _ 0] exI [of _ "take n (wr p)"]) simp
  next
    case False
    have fits: "list_all fits ps" using Cons.prems by simp
    from Cons.IH [OF fits, of "n - length (wr p)"] obtain j torn where "j \<le> length ps" "rd torn = None"
      "take (n - length (wr p)) (concat (map wr ps)) = concat (map wr (take j ps)) @ torn"
      "length (concat (map wr ps)) \<le> n - length (wr p) \<longrightarrow> j = length ps \<and> torn = []"
      by blast
    with False show ?thesis
      by (intro exI [of _ "Suc j"] exI [of _ torn]) auto
  qed
qed

end

end
