(* ===== verification/Wal.thy ===== *)
theory Wal
  imports Model Framing "HOL-Library.Multiset"
begin

text \<open>
  The write-ahead log (\<^verbatim>\<open>wal.rs\<close>): segments of checksummed frames, the group-commit writer, the split
  into a main log and a late spool, and recovery. Third-party code is a parameter (\<open>wal_env\<close>): the
  postcard encoder and decoder and the CRC. What the operating system answers to the writes, the
  sync and the file creation of a call is the argument \<open>wal_io\<close>; where a method makes several such
  calls the argument is a function, its answers in order. Sizes, record counts and clock readings are
  naturals; a read that fails with an I/O error is not modelled.

  An operation gives its result and the writer it leaves, on errors too. A segment file under write
  is two byte sequences: what the last \<^verbatim>\<open>fdatasync\<close> covered, and what was appended since. A crash keeps
  the first and any prefix of the second (or, for a power loss, anything in its place).
\<close>

section \<open>Segment files\<close>

definition MAGIC :: bytes where
  "MAGIC = [0x4C, 0x47, 0x4C, 0x53, 0x57, 0x41, 0x4C, 0x02]"

definition FRAME_HEADER_BYTES :: nat where "FRAME_HEADER_BYTES = 8"
definition HEADER_BYTES :: nat where "HEADER_BYTES = 24"
definition MAX_FRAME_BYTES :: nat where "MAX_FRAME_BYTES = 256 * 1024 * 1024"

datatype wal_error = Io | Encode | BadMagic

text \<open>Segment files of one directory, by id.\<close>

type_synonym seg_dir = "(nat \<times> bytes) list"

record wal_env =
  encode :: "log_record list \<Rightarrow> bytes option"
  decode :: "bytes \<Rightarrow> log_record list option"
  crc32 :: "bytes \<Rightarrow> u32"

text \<open>
  \<open>write_fails\<close> is \<open>Some k\<close> when the buffered writes of a frame fail with \<open>k\<close> of its bytes accepted.
\<close>

record wal_io =
  write_fails :: "nat option"
  sync_ok :: bool
  create :: create_outcome
  now_v7 :: "128 word"

text \<open>One iteration of the replay loop: header, plausible length, payload, checksum.\<close>

definition wal_read_frame :: "(bytes \<Rightarrow> u32) \<Rightarrow> bytes \<Rightarrow> (bytes \<times> bytes) option" where
  "wal_read_frame crc bs = (case read_full 8 bs of
     None \<Rightarrow> None
   | Some (header, r) \<Rightarrow>
       (let len = u32_from_le (take 4 header); c = u32_from_le (drop 4 header) in
        if len = 0 \<or> MAX_FRAME_BYTES < unat len then None
        else (case read_full (unat len) r of
            None \<Rightarrow> None
          | Some (payload, r') \<Rightarrow> if crc payload \<noteq> c then None else Some (payload, r'))))"

function replay_loop :: "wal_env \<Rightarrow> nat \<Rightarrow> bytes \<Rightarrow> nat \<times> log_record list list" where
  "replay_loop env good_len bs = (case wal_read_frame (crc32 env) bs of
     None \<Rightarrow> (good_len, [])
   | Some (payload, rest) \<Rightarrow>
       (case decode env payload of
          None \<Rightarrow> (good_len, [])
        | Some batch \<Rightarrow>
            (let (g, bss) = replay_loop env (good_len + FRAME_HEADER_BYTES + length payload) rest
             in (g, batch # bss))))"
  by pat_completeness auto
termination
  by (relation "measure (\<lambda>(env, good_len, bs). length bs)")
    (auto simp: wal_read_frame_def read_full_def Let_def split: if_splits)

declare replay_loop.simps [simp del]

record segment_outcome =
  batches :: nat
  records :: nat
  truncated_to :: "nat option"
  uuid :: bytes

text \<open>The result carries the visited batches and the file as the call leaves it.\<close>

definition replay_segment ::
  "wal_env \<Rightarrow> bool \<Rightarrow> bytes \<Rightarrow> wal_error + (segment_outcome \<times> log_record list list \<times> bytes)" where
  "replay_segment env truncate_damaged file = (
     if length file < 8 \<or> take 8 file \<noteq> MAGIC then Inl BadMagic
     else if length file < HEADER_BYTES then Inl BadMagic
     else (let (good_len, bss) = replay_loop env HEADER_BYTES (drop HEADER_BYTES file);
               damaged = good_len < length file
           in Inr (\<lparr>batches = length bss, records = sum_list (map length bss),
                    truncated_to = (if damaged then Some good_len else None),
                    uuid = take 16 (drop 8 file)\<rparr>,
                   bss,
                   if damaged \<and> truncate_damaged then take good_len file else file)))"

record recovery_report =
  segments_read :: nat
  rep_batches :: nat
  rep_records :: nat
  truncated :: "(nat \<times> nat) list"

text \<open>
  \<^verbatim>\<open>recover\<close> over the segments of a directory in ascending order: the report or the error that ended
  it, the batches visited until then, and the directory as it leaves it.
\<close>

fun recover_from :: "wal_env \<Rightarrow> bool \<Rightarrow> recovery_report \<Rightarrow> seg_dir
    \<Rightarrow> (wal_error + recovery_report) \<times> log_record list list \<times> seg_dir" where
  "recover_from env trunc report [] = (Inr report, [], [])"
| "recover_from env trunc report ((sid, file) # segs) =
     (case replay_segment env trunc file of
        Inl e \<Rightarrow> (Inl e, [], (sid, file) # segs)
      | Inr (outcome, bss, file') \<Rightarrow>
          (let report' = report\<lparr>segments_read := segments_read report + 1,
                     rep_batches := rep_batches report + batches outcome,
                     rep_records := rep_records report + records outcome,
                     truncated := (case truncated_to outcome of
                        None \<Rightarrow> truncated report | Some len \<Rightarrow> truncated report @ [(sid, len)])\<rparr>;
               (res, rest, segs') = recover_from env trunc report' segs
           in (res, bss @ rest, (sid, file') # segs')))"

definition empty_report :: recovery_report where
  "empty_report = \<lparr>segments_read = 0, rep_batches = 0, rep_records = 0, truncated = []\<rparr>"

definition recover :: "wal_env \<Rightarrow> bool \<Rightarrow> seg_dir
    \<Rightarrow> (wal_error + recovery_report) \<times> log_record list list \<times> seg_dir" where
  "recover env trunc dir = recover_from env trunc empty_report (sort_key fst dir)"

definition is_incomplete_header :: "bytes \<Rightarrow> bool" where
  "is_incomplete_header file = (
     let rd = min (length file) HEADER_BYTES; magic_seen = min rd (length MAGIC)
     in rd < HEADER_BYTES \<and> take magic_seen file = take magic_seen MAGIC)"

definition segment_uuid :: "bytes \<Rightarrow> wal_error + bytes" where
  "segment_uuid file =
     (if length file < HEADER_BYTES \<or> take 8 file \<noteq> MAGIC then Inl BadMagic else Inr (take 16 (drop 8 file)))"

text \<open>Segment names: \<^verbatim>\<open>{id:012}.wal\<close>, and the segments of a directory listing, ascending by id.\<close>

definition segment_name :: "nat \<Rightarrow> string" where
  "segment_name sid = pad_nat 12 sid @ ''.wal''"

definition segment_id :: "string \<Rightarrow> nat option" where
  "segment_id name = (case rsplit_once (CHR ''.'') name of
     Some (stem, ext) \<Rightarrow> if ext = ''wal'' \<and> stem \<noteq> [] then parse_unsigned u64_max stem else None
   | None \<Rightarrow> None)"

definition list_segments :: "(string \<times> bytes) list \<Rightarrow> seg_dir" where
  "list_segments entries = sort_key fst (List.map_filter
     (\<lambda>(name, file). map_option (\<lambda>sid. (sid, file)) (segment_id name)) entries)"

definition dir_bytes :: "(string \<times> bytes) list \<Rightarrow> nat" where
  "dir_bytes entries = sum_list (map (length \<circ> snd) (list_segments entries))"

section \<open>The writer\<close>

record wal_writer =
  segment_bytes :: nat
  fsync_interval :: nat
  fsync_bytes :: nat
  current_path :: nat
  current_id :: nat
  current_uuid :: "128 word"
  current_len :: nat
  roll_after :: "nat option"
  current_started :: nat
  unsynced_bytes :: nat
  last_sync :: nat
  synced_records :: nat
  reported_records :: nat
  records_written :: nat
  bytes_written :: nat
  syncs :: nat
  other_files :: seg_dir
  durable :: bytes
  pending :: bytes

text \<open>
  \<open>current_path\<close> is the id in the name of the file under write, which a failed roll leaves behind
  \<open>current_id\<close>; \<open>other_files\<close> is the rest of the directory. \<^verbatim>\<open>create_segment\<close> gives the synced header of
  the new file, or the error and the file it left.
\<close>

definition create_segment :: "wal_io \<Rightarrow> nat \<Rightarrow> (wal_error + bytes) \<times> seg_dir" where
  "create_segment io sid = (let header = MAGIC @ uuid_as_bytes (now_v7 io) in
     case create io of
       Created \<Rightarrow> (Inr header, [])
     | Open_failed \<Rightarrow> (Inl Io, [])
     | Header_failed n \<Rightarrow> (Inl Io, [(sid, take n header)]))"

definition wal_open :: "wal_io \<Rightarrow> nat \<Rightarrow> seg_dir \<Rightarrow> nat \<Rightarrow> nat \<Rightarrow> nat \<Rightarrow> (wal_error + wal_writer) \<times> seg_dir" where
  "wal_open io now dir seg_bytes interval fbytes = (
     let segs = sort_key fst dir;
         next_id = (if segs = [] then 1 else fst (last segs) + 1)
     in case create_segment io next_id of
          (Inl e, left) \<Rightarrow> (Inl e, segs @ left)
        | (Inr header, _) \<Rightarrow> (Inr \<lparr>segment_bytes = seg_bytes, fsync_interval = interval, fsync_bytes = fbytes,
            current_path = next_id, current_id = next_id, current_uuid = now_v7 io,
            current_len = HEADER_BYTES, roll_after = None,
            current_started = 0, unsynced_bytes = 0, last_sync = now, synced_records = 0,
            reported_records = 0, records_written = 0, bytes_written = 0, syncs = 0,
            other_files = segs, durable = header, pending = []\<rparr>, segs @ [(next_id, header)]))"

definition set_roll_after :: "nat \<Rightarrow> wal_writer \<Rightarrow> wal_writer" where
  "set_roll_after after w = w\<lparr>roll_after := Some after\<rparr>"

definition wal_sync :: "wal_io \<Rightarrow> nat \<Rightarrow> wal_writer \<Rightarrow> (wal_error + unit) \<times> wal_writer" where
  "wal_sync io now w = (if sync_ok io then
     (Inr (), w\<lparr>durable := durable w @ pending w, pending := [], unsynced_bytes := 0, last_sync := now,
            synced_records := records_written w, syncs := syncs w + 1\<rparr>)
   else (Inl Io, w))"

definition wal_roll :: "wal_io \<Rightarrow> nat \<Rightarrow> wal_writer \<Rightarrow> (wal_error + unit) \<times> wal_writer" where
  "wal_roll io now w = try_then (wal_sync io now w) (\<lambda>_ w1.
     let w2 = w1\<lparr>current_id := current_id w1 + 1\<rparr>
     in case create_segment io (current_id w2) of
          (Inl e, left) \<Rightarrow> (Inl e, w2\<lparr>other_files := other_files w2 @ left\<rparr>)
        | (Inr header, _) \<Rightarrow> (Inr (), w2\<lparr>other_files := other_files w2 @ [(current_path w2, durable w2)],
            durable := header, current_path := current_id w2, current_uuid := now_v7 io,
            current_len := HEADER_BYTES, current_started := 0\<rparr>))"

definition wal_append :: "wal_env \<Rightarrow> wal_io \<Rightarrow> nat \<Rightarrow> wal_writer \<Rightarrow> log_record list \<Rightarrow> (wal_error + unit) \<times> wal_writer" where
  "wal_append env io now w batch = (
     if batch = [] then (Inr (), w)
     else case encode env batch of
       None \<Rightarrow> (Inl Encode, w)
     | Some payload \<Rightarrow>
         if 2 ^ 32 \<le> length payload then (Inl Encode, w)
         else case write_fails io of
           Some k \<Rightarrow> (Inl Io, w\<lparr>pending := pending w @ take k (frame (crc32 env) payload)\<rparr>)
         | None \<Rightarrow>
             (let frame_bytes = FRAME_HEADER_BYTES + length payload;
                  w' = w\<lparr>pending := pending w @ frame (crc32 env) payload,
                         current_len := current_len w + frame_bytes,
                         unsynced_bytes := unsynced_bytes w + frame_bytes,
                         bytes_written := bytes_written w + frame_bytes,
                         records_written := records_written w + length batch\<rparr>
              in if segment_bytes w' \<le> current_len w' then wal_roll io now w' else (Inr (), w')))"

definition roll_if_due :: "wal_io \<Rightarrow> nat \<Rightarrow> nat \<Rightarrow> wal_writer \<Rightarrow> (wal_error + bool) \<times> wal_writer" where
  "roll_if_due io now now_unix_nanos w = (case roll_after w of
     None \<Rightarrow> (Inr False, w)
   | Some after \<Rightarrow>
       if current_started w \<noteq> 0 \<and> min after u64_max \<le> now_unix_nanos - current_started w
       then try_then (wal_roll io now w) (\<lambda>_ w'. (Inr True, w'))
       else (Inr False, w))"

definition append_at ::
  "wal_env \<Rightarrow> (nat \<Rightarrow> wal_io) \<Rightarrow> nat \<Rightarrow> wal_writer \<Rightarrow> log_record list \<Rightarrow> nat \<Rightarrow> (wal_error + unit) \<times> wal_writer" where
  "append_at env io now w batch now_unix_nanos = (
     if batch = [] then (Inr (), w)
     else try_then (roll_if_due (io 0) now now_unix_nanos w) (\<lambda>_ w1.
       wal_append env (io 1) now
         (if current_started w1 = 0 then w1\<lparr>current_started := max now_unix_nanos 1\<rparr> else w1) batch))"

definition wal_maybe_sync :: "wal_io \<Rightarrow> nat \<Rightarrow> wal_writer \<Rightarrow> (wal_error + bool) \<times> wal_writer" where
  "wal_maybe_sync io now w = try_then
     (if 0 < unsynced_bytes w
         \<and> (fsync_bytes w \<le> unsynced_bytes w \<or> fsync_interval w \<le> now - last_sync w)
      then wal_sync io now w else (Inr (), w))
     (\<lambda>_ w'. (Inr (reported_records w' < synced_records w'), w'\<lparr>reported_records := synced_records w'\<rparr>))"

text \<open>Dropping the writer syncs it, best effort; the directory is what it leaves behind.\<close>

definition wal_drop :: "wal_io \<Rightarrow> nat \<Rightarrow> wal_writer \<Rightarrow> wal_writer" where
  "wal_drop io now w = snd (wal_sync io now w)"

section \<open>The main log and the late spool\<close>

record split_config =
  cfg_segment_bytes :: nat
  cfg_fsync_interval :: nat
  cfg_fsync_bytes :: nat
  cfg_late_threshold :: nat
  cfg_late_roll :: nat
  cfg_late_segment_bytes :: nat

record split_wal =
  main_wal :: wal_writer
  late_wal :: wal_writer
  late_threshold_nanos :: nat
  late_records :: nat

definition split_open ::
  "(nat \<Rightarrow> wal_io) \<Rightarrow> nat \<Rightarrow> seg_dir \<Rightarrow> seg_dir \<Rightarrow> split_config \<Rightarrow> wal_error + split_wal" where
  "split_open io now dir late_dir c =
     (case fst (wal_open (io 0) now dir (cfg_segment_bytes c) (cfg_fsync_interval c) (cfg_fsync_bytes c)) of
        Inl e \<Rightarrow> Inl e
      | Inr m \<Rightarrow>
          (case fst (wal_open (io 1) now late_dir (cfg_late_segment_bytes c) (cfg_fsync_interval c) (cfg_fsync_bytes c)) of
             Inl e \<Rightarrow> Inl e
           | Inr l \<Rightarrow> Inr \<lparr>main_wal = m, late_wal = set_roll_after (cfg_late_roll c) l,
               late_threshold_nanos = min (cfg_late_threshold c) u64_max, late_records = 0\<rparr>))"

text \<open>A call on one of the two logs, within a method of the pair.\<close>

definition on_main :: "(wal_writer \<Rightarrow> (wal_error + 'a) \<times> wal_writer) \<Rightarrow> split_wal \<Rightarrow> (wal_error + 'a) \<times> split_wal" where
  "on_main f s = (case f (main_wal s) of (r, w) \<Rightarrow> (r, s\<lparr>main_wal := w\<rparr>))"

definition on_late :: "(wal_writer \<Rightarrow> (wal_error + 'a) \<times> wal_writer) \<Rightarrow> split_wal \<Rightarrow> (wal_error + 'a) \<times> split_wal" where
  "on_late f s = (case f (late_wal s) of (r, w) \<Rightarrow> (r, s\<lparr>late_wal := w\<rparr>))"

definition split_append ::
  "wal_env \<Rightarrow> (nat \<Rightarrow> wal_io) \<Rightarrow> nat \<Rightarrow> split_wal \<Rightarrow> log_record list \<Rightarrow> nat \<Rightarrow> (wal_error + unit) \<times> split_wal" where
  "split_append env io now s batch now_unix_nanos = (
     let cutoff = now_unix_nanos - late_threshold_nanos s;
         is_late = (\<lambda>r. timestamp_unix_nano r < cutoff)
     in if \<not> list_ex is_late batch
        then on_main (\<lambda>w. wal_append env (io 0) now w batch) s
        else (let late = filter is_late batch; on_time = filter (\<lambda>r. \<not> is_late r) batch;
                  s' = s\<lparr>late_records := late_records s + length late\<rparr>
              in try_then (on_main (\<lambda>w. wal_append env (io 0) now w on_time) s')
                   (\<lambda>_. on_late (\<lambda>w. append_at env (\<lambda>i. io (i + 1)) now w late now_unix_nanos))))"

definition split_sync :: "(nat \<Rightarrow> wal_io) \<Rightarrow> nat \<Rightarrow> split_wal \<Rightarrow> (wal_error + nat) \<times> split_wal" where
  "split_sync io now s = try_then
     (on_main (\<lambda>w. if 0 < unsynced_bytes w then wal_sync (io 0) now w else (Inr (), w)) s)
     (\<lambda>_ s1. try_then
       (on_late (\<lambda>w. if 0 < unsynced_bytes w then wal_sync (io 1) now w else (Inr (), w)) s1)
       (\<lambda>_ s2. (Inr (records_written (main_wal s2) + records_written (late_wal s2)), s2)))"

definition split_maybe_sync ::
  "(nat \<Rightarrow> wal_io) \<Rightarrow> nat \<Rightarrow> split_wal \<Rightarrow> nat \<Rightarrow> (wal_error + nat option) \<times> split_wal" where
  "split_maybe_sync io now s now_unix_nanos = try_then (on_late (roll_if_due (io 0) now now_unix_nanos) s)
     (\<lambda>_ s1. try_then (on_main (wal_maybe_sync (io 1) now) s1)
     (\<lambda>am s2. try_then (on_late (wal_maybe_sync (io 2) now) s2)
     (\<lambda>al s3. if \<not> (am \<or> al) then (Inr None, s3)
              else try_then (split_sync (\<lambda>i. io (i + 3)) now s3) (\<lambda>n s4. (Inr (Some n), s4)))))"

definition roll_main :: "wal_io \<Rightarrow> nat \<Rightarrow> split_wal \<Rightarrow> (wal_error + unit) \<times> split_wal" where
  "roll_main io now = on_main (wal_roll io now)"

definition active_segments :: "split_wal \<Rightarrow> nat \<times> nat" where
  "active_segments s = (current_id (main_wal s), current_id (late_wal s))"

definition split_records_written :: "split_wal \<Rightarrow> nat" where
  "split_records_written s = records_written (main_wal s) + records_written (late_wal s)"

section \<open>Frames of the log\<close>

lemmas wal_bounds = MAX_FRAME_BYTES_def HEADER_BYTES_def FRAME_HEADER_BYTES_def

definition wal_fits :: "bytes \<Rightarrow> bool" where
  "wal_fits p \<longleftrightarrow> p \<noteq> [] \<and> length p \<le> MAX_FRAME_BYTES"

lemma unat_of_length:
  assumes "length (p :: bytes) \<le> MAX_FRAME_BYTES"
  shows "unat (of_nat (length p) :: u32) = length p"
  using assms by (simp add: MAX_FRAME_BYTES_def unat_of_nat take_bit_eq_mod)

lemma wal_read_frame_frame:
  assumes "wal_fits p"
  shows "wal_read_frame crc (frame crc p @ rest) = Some (p, rest)"
proof -
  have len: "unat (of_nat (length p) :: u32) = length p" "0 < length p"
    using assms unat_of_length [of p] by (auto simp: wal_fits_def)
  then have "(of_nat (length p) :: u32) \<noteq> 0"
    by (metis less_irrefl unsigned_0)
  then show ?thesis
    using assms len by (simp add: wal_read_frame_def read_full_def length_frame frame_parts wal_fits_def Let_def)
qed

lemma wal_read_frame_torn:
  assumes "wal_fits p" and "k < length (frame crc p)"
  shows "wal_read_frame crc (take k (frame crc p)) = None"
proof (cases "8 \<le> k")
  case True
  have "unat (of_nat (length p) :: u32) = length p"
    using assms unat_of_length [of p] by (auto simp: wal_fits_def)
  then show ?thesis
    using True assms(2) by (auto simp: wal_read_frame_def read_full_def length_frame frame_parts Let_def)
next
  case False
  then show ?thesis using assms(2) by (simp add: wal_read_frame_def read_full_def)
qed

lemma wal_read_frame_sound:
  assumes "wal_read_frame crc bs = Some (p, rest)"
  shows "wal_fits p \<and> bs = frame crc p @ rest"
proof -
  define len where "len = u32_from_le (take 4 (take 8 bs))"
  have *: "8 \<le> length bs" "len \<noteq> 0" "unat len \<le> MAX_FRAME_BYTES" "unat len \<le> length (drop 8 bs)"
    "p = take (unat len) (drop 8 bs)" "rest = drop (unat len) (drop 8 bs)"
    "u32_from_le (drop 4 (take 8 bs)) = crc p"
    using assms by (auto simp: wal_read_frame_def read_full_def Let_def len_def split: if_splits)
  have lenp: "length p = unat len"
    using * by simp
  have 1: "u32_to_le len = take 4 (take 8 bs)"
    unfolding len_def using *(1) by (intro le_to_u32_roundtrip) simp
  have 2: "u32_to_le (crc p) = drop 4 (take 8 bs)"
    unfolding *(7) [symmetric] using *(1) by (intro le_to_u32_roundtrip) simp
  have "frame crc p @ rest = (take 4 (take 8 bs) @ drop 4 (take 8 bs)) @ p @ rest"
    by (simp add: frame_def lenp 1 2 del: take_take)
  also have "\<dots> = bs"
    by (simp only: append_take_drop_id *(5,6))
  finally show ?thesis
    using *(2,3) lenp by (auto simp: wal_fits_def unat_eq_zero)
qed

interpretation wal_frames: frame_codec "frame crc" "wal_read_frame crc" wal_fits for crc
  by unfold_locales
    (auto simp: length_frame wal_read_frame_frame wal_read_frame_torn dest: wal_read_frame_sound)

text \<open>What a batch needs to survive a replay: postcard gives it back, from a payload replay takes.\<close>

definition codec_ok :: "wal_env \<Rightarrow> log_record list \<Rightarrow> bool" where
  "codec_ok env b = (case encode env b of
     None \<Rightarrow> False | Some p \<Rightarrow> wal_fits p \<and> decode env p = Some b)"

definition payload_of :: "wal_env \<Rightarrow> log_record list \<Rightarrow> bytes" where
  "payload_of env b = (case encode env b of None \<Rightarrow> [] | Some p \<Rightarrow> p)"

definition frames :: "wal_env \<Rightarrow> log_record list list \<Rightarrow> bytes" where
  "frames env bss = concat (map (frame (crc32 env)) (map (payload_of env) bss))"

abbreviation nrec :: "log_record list list \<Rightarrow> nat" where
  "nrec bss \<equiv> sum_list (map length bss)"

lemma codec_okD:
  assumes "codec_ok env b"
  shows "wal_fits (payload_of env b)" "decode env (payload_of env b) = Some b"
  using assms by (auto simp: codec_ok_def payload_of_def split: option.splits)

lemma frames_simps [simp]:
  "frames env [] = []"
  "frames env (b # bss) = frame (crc32 env) (payload_of env b) @ frames env bss"
  "frames env (bss @ css) = frames env bss @ frames env css"
  by (simp_all add: frames_def)

section \<open>Replay\<close>

lemma replay_loop_frames:
  assumes "list_all (codec_ok env) bss"
  shows "replay_loop env g (frames env bss @ t) =
    (case replay_loop env (g + length (frames env bss)) t of (g', extra) \<Rightarrow> (g', bss @ extra))"
  using assms
proof (induction bss arbitrary: g)
  case Nil
  show ?case by (simp split: prod.split)
next
  case (Cons b bss)
  then have "wal_fits (payload_of env b)" "decode env (payload_of env b) = Some b"
    using codec_okD [of env b] by simp_all
  then show ?case
    using Cons
    by (subst replay_loop.simps)
      (simp add: wal_frames.rd_wr length_frame FRAME_HEADER_BYTES_def add.assoc split: prod.split)
qed

lemma replay_loop_stops: "wal_read_frame (crc32 env) t = None \<Longrightarrow> replay_loop env g t = (g, [])"
  by (subst replay_loop.simps) simp

lemma replay_loop_cut:
  assumes "replay_loop env g bs = (g', bss)"
  shows "g \<le> g' \<and> g' - g \<le> length bs \<and> replay_loop env g (take (g' - g) bs) = (g', bss)"
  using assms
proof (induction env g bs arbitrary: g' bss rule: replay_loop.induct)
  case (1 env g bs)
  have nil: ?case if "g' = g" "bss = []"
    using that replay_loop_stops [OF wal_frames.rd_Nil] by simp
  show ?case
  proof (cases "wal_read_frame (crc32 env) bs")
    case None
    then show ?thesis using "1.prems" replay_loop_stops nil by simp
  next
    case (Some v)
    then obtain p rest where rd: "wal_read_frame (crc32 env) bs = Some (p, rest)" by (cases v) simp
    have fits: "wal_fits p" and bs: "bs = frame (crc32 env) p @ rest"
      using wal_frames.rd_sound [OF rd] by simp_all
    show ?thesis
    proof (cases "decode env p")
      case None
      then show ?thesis using "1.prems" rd nil by (simp add: replay_loop.simps [of env g bs])
    next
      case dec: (Some b)
      define h where "h = g + FRAME_HEADER_BYTES + length p"
      obtain bss' where rec: "replay_loop env h rest = (g', bss')" and bss: "bss = b # bss'"
        using "1.prems" rd dec by (auto simp: replay_loop.simps [of env g bs] h_def split: prod.splits)
      from "1.IH" [OF rd refl dec] rec
      have ih: "h \<le> g'" "g' - h \<le> length rest" "replay_loop env h (take (g' - h) rest) = (g', bss')"
        unfolding h_def by blast+
      have len: "length (frame (crc32 env) p) = h - g" "g \<le> h"
        by (simp_all add: length_frame h_def FRAME_HEADER_BYTES_def)
      then have "take (g' - g) bs = frame (crc32 env) p @ take (g' - h) rest"
        using ih(1) by (simp add: bs)
      moreover have "replay_loop env g (frame (crc32 env) p @ take (g' - h) rest) = (g', bss)"
        using ih(3) dec wal_frames.rd_wr [OF fits]
        by (subst replay_loop.simps) (simp add: bss h_def)
      ultimately show ?thesis
        using ih len bs by simp
    qed
  qed
qed

definition segment_file :: "wal_env \<Rightarrow> 128 word \<Rightarrow> log_record list list \<Rightarrow> bytes" where
  "segment_file env u bss = MAGIC @ uuid_as_bytes u @ frames env bss"

lemma length_segment_file: "length (segment_file env u bss) = HEADER_BYTES + length (frames env bss)"
  by (simp add: segment_file_def MAGIC_def HEADER_BYTES_def)

lemma segment_file_parts:
  "take 8 (segment_file env u bss @ t) = MAGIC"
  "take 16 (drop 8 (segment_file env u bss @ t)) = uuid_as_bytes u"
  "drop HEADER_BYTES (segment_file env u bss @ t) = frames env bss @ t"
  by (simp_all add: segment_file_def MAGIC_def HEADER_BYTES_def)

text \<open>The batches a replay of a segment visits, if its header is good.\<close>

definition visited :: "wal_env \<Rightarrow> bytes \<Rightarrow> log_record list list option" where
  "visited env file = (case replay_segment env False file of
     Inl e \<Rightarrow> None | Inr (_, bss, _) \<Rightarrow> Some bss)"

lemma replay_segment_visited:
  "visited env file = None \<Longrightarrow> \<exists>e. replay_segment env tr file = Inl e"
  "visited env file = Some bss \<Longrightarrow> \<exists>o' file'. replay_segment env tr file = Inr (o', bss, file')"
  by (auto simp: visited_def replay_segment_def Let_def split: if_splits prod.splits)

lemma visited_segment_file:
  assumes "list_all (codec_ok env) bss"
  shows "visited env (segment_file env u bss @ t) =
    Some (bss @ snd (replay_loop env (HEADER_BYTES + length (frames env bss)) t))"
  using replay_loop_frames [OF assms, of HEADER_BYTES t]
  by (simp add: visited_def replay_segment_def segment_file_parts length_segment_file Let_def
      del: drop_append take_append split: prod.split)
    (simp add: HEADER_BYTES_def)

lemma replay_torn_segment:
  assumes "list_all (codec_ok env) bss" "wal_read_frame (crc32 env) t = None" "t \<noteq> []"
  shows "replay_segment env True (segment_file env u bss @ t) =
    Inr (\<lparr>batches = length bss, records = nrec bss, truncated_to = Some (length (segment_file env u bss)),
          uuid = uuid_as_bytes u\<rparr>, bss, segment_file env u bss)"
  using replay_loop_frames [OF assms(1), of HEADER_BYTES t] replay_loop_stops [OF assms(2)] assms(3)
  by (simp add: replay_segment_def segment_file_parts length_segment_file Let_def
      del: drop_append take_append)
    (simp add: HEADER_BYTES_def length_segment_file)

text \<open>
  A replay that truncates is stable: whatever bytes the segment held, the file it leaves is a
  prefix of the segment, and a second replay of it visits the same batches, finds no damage and
  leaves it as it is.
\<close>

theorem replay_truncation_stable:
  assumes "replay_segment env True file = Inr (outcome, bss, file')"
  shows "prefix file' file
    \<and> replay_segment env tr file' = Inr (outcome\<lparr>truncated_to := None\<rparr>, bss, file')"
proof -
  obtain g where g: "replay_loop env HEADER_BYTES (drop HEADER_BYTES file) = (g, bss)"
    and hdr: "HEADER_BYTES \<le> length file" "take 8 file = MAGIC"
    and f': "file' = (if g < length file then take g file else file)"
    and out: "outcome = \<lparr>batches = length bss, records = nrec bss,
        truncated_to = (if g < length file then Some g else None), uuid = take 16 (drop 8 file)\<rparr>"
    using assms by (auto simp: replay_segment_def Let_def split: if_splits prod.splits)
  from replay_loop_cut [OF g]
  have cut: "HEADER_BYTES \<le> g" "g \<le> length file"
    "replay_loop env HEADER_BYTES (take (g - HEADER_BYTES) (drop HEADER_BYTES file)) = (g, bss)"
    using hdr(1) by auto
  have "file' = take g file"
    using f' cut(2) by auto
  moreover have "take 8 (take g file) = MAGIC" "take 16 (drop 8 (take g file)) = take 16 (drop 8 file)"
    using cut(1) hdr(2) by (simp_all add: HEADER_BYTES_def min_def drop_take)
  ultimately show ?thesis
    using cut hdr(1) out
    by (auto simp: replay_segment_def take_is_prefix drop_take HEADER_BYTES_def min_def)
qed

section \<open>Recovery of a directory\<close>

lemma recover_from_iff:
  "(\<exists>rep' segs'. recover_from env tr rep segs = (Inr rep', vis, segs'))
    \<longleftrightarrow> (\<exists>css. list_all2 (\<lambda>seg bss. visited env (snd seg) = Some bss) segs css \<and> vis = concat css)"
proof (induction segs arbitrary: rep vis)
  case Nil
  show ?case by auto
next
  case (Cons seg segs)
  obtain sid f where seg: "seg = (sid, f)" by (cases seg)
  show ?case
  proof (cases "visited env f")
    case None
    then obtain e where "replay_segment env tr f = Inl e"
      using replay_segment_visited(1) by blast
    with None show ?thesis by (auto simp: list_all2_Cons1 seg)
  next
    case (Some bss)
    then obtain o' f' where "replay_segment env tr f = Inr (o', bss, f')"
      using replay_segment_visited(2) by blast
    then obtain rep' where
      "recover_from env tr rep (seg # segs) = (case recover_from env tr rep' segs of
         (res, rest, segs') \<Rightarrow> (res, bss @ rest, (sid, f') # segs'))"
      by (simp add: seg Let_def split: prod.split)
    then have "(\<exists>rep' segs'. recover_from env tr rep (seg # segs) = (Inr rep', vis, segs'))
      \<longleftrightarrow> (\<exists>vis'. vis = bss @ vis' \<and> (\<exists>r segs'. recover_from env tr rep' segs = (Inr r, vis', segs')))"
      by (auto split: prod.splits)
    also have "\<dots> \<longleftrightarrow> (\<exists>css. list_all2 (\<lambda>seg bss. visited env (snd seg) = Some bss) (seg # segs) css
        \<and> vis = concat css)"
      using Some by (auto simp: Cons.IH list_all2_Cons1 seg)
    finally show ?thesis .
  qed
qed

section \<open>Runs of the writer\<close>

text \<open>
  The directory as a writer that started in \<open>dir\<close> keeps it: the segments it found, the segments it
  closed with the batches \<open>css\<close>, and the segment under write with the synced batches \<open>ds\<close> and the
  batches \<open>ps\<close> appended since.
\<close>

definition wal_shape ::
  "wal_env \<Rightarrow> seg_dir \<Rightarrow> log_record list list list \<Rightarrow> log_record list list \<Rightarrow> log_record list list \<Rightarrow> wal_writer \<Rightarrow> bool" where
  "wal_shape env dir css ds ps w \<longleftrightarrow>
     (\<exists>new. other_files w = sort_key fst dir @ new
       \<and> list_all2 (\<lambda>seg bss. \<exists>u. snd seg = segment_file env u bss) new css)
     \<and> durable w = segment_file env (current_uuid w) ds
     \<and> pending w = frames env ps
     \<and> unsynced_bytes w = length (pending w)
     \<and> current_len w = length (durable w) + length (pending w)
     \<and> synced_records w = nrec (concat css @ ds)
     \<and> records_written w = nrec (concat css @ ds @ ps)
     \<and> reported_records w \<le> synced_records w
     \<and> current_path w = current_id w
     \<and> sorted (map fst (other_files w)) \<and> (\<forall>sid \<in> fst ` set (other_files w). sid < current_path w)"

inductive wal_reach :: "wal_env \<Rightarrow> seg_dir \<Rightarrow> log_record list list \<Rightarrow> wal_writer \<Rightarrow> bool" for env dir where
  reach_open: "wal_open io now dir seg_bytes interval fbytes = (Inr w, d) \<Longrightarrow> wal_reach env dir [] w"
| reach_roll_after: "wal_reach env dir bss w \<Longrightarrow> wal_reach env dir bss (set_roll_after after w)"
| reach_append: "wal_reach env dir bss w \<Longrightarrow> wal_append env io now w batch = (Inr (), w')
    \<Longrightarrow> wal_reach env dir (if batch = [] then bss else bss @ [batch]) w'"
| reach_append_at: "wal_reach env dir bss w \<Longrightarrow> append_at env ios now w batch nanos = (Inr (), w')
    \<Longrightarrow> wal_reach env dir (if batch = [] then bss else bss @ [batch]) w'"
| reach_roll_if_due: "wal_reach env dir bss w \<Longrightarrow> roll_if_due io now nanos w = (Inr due, w') \<Longrightarrow> wal_reach env dir bss w'"
| reach_sync: "wal_reach env dir bss w \<Longrightarrow> wal_sync io now w = (Inr (), w') \<Longrightarrow> wal_reach env dir bss w'"
| reach_roll: "wal_reach env dir bss w \<Longrightarrow> wal_roll io now w = (Inr (), w') \<Longrightarrow> wal_reach env dir bss w'"
| reach_maybe_sync: "wal_reach env dir bss w \<Longrightarrow> wal_maybe_sync io now w = (Inr adv, w') \<Longrightarrow> wal_reach env dir bss w'"

lemma create_segment_Inr:
  "create_segment io sid = (Inr header, left) \<longleftrightarrow>
     create io = Created \<and> header = segment_file env (now_v7 io) [] \<and> left = []"
  by (auto simp: create_segment_def segment_file_def Let_def split: create_outcome.splits)

lemma shape_open:
  assumes "wal_open io now dir seg_bytes interval fbytes = (Inr w, d)"
  shows "wal_shape env dir [] [] [] w"
proof -
  have *: "fst seg < fst (last (sort_key fst dir)) + 1" if "seg \<in> set dir" for seg
    using sorted_le_last [of fst "sort_key fst dir" seg] that by simp
  show ?thesis
    using assms * unfolding wal_open_def Let_def
    by (cases "create_segment io (if sort_key fst dir = [] then 1 else fst (last (sort_key fst dir)) + 1)")
      (auto simp: wal_shape_def create_segment_Inr [where env = env] length_segment_file split: sum.splits)
qed

lemma shape_sync:
  "wal_shape env dir css ds ps w \<Longrightarrow> wal_sync io now w = (Inr (), w') \<Longrightarrow> wal_shape env dir css (ds @ ps) [] w'"
  by (auto simp: wal_shape_def wal_sync_def segment_file_def split: if_splits; force)

lemma wal_roll_Inr:
  assumes "wal_roll io now w = (Inr (), w')"
  obtains w1 where "wal_sync io now w = (Inr (), w1)"
    "w' = w1\<lparr>current_id := current_id w1 + 1, other_files := other_files w1 @ [(current_path w1, durable w1)],
       durable := segment_file env (now_v7 io) [], current_path := current_id w1 + 1,
       current_uuid := now_v7 io, current_len := HEADER_BYTES, current_started := 0\<rparr>"
proof -
  obtain w1 where w1: "wal_sync io now w = (Inr (), w1)"
    using assms by (auto simp: wal_roll_def try_then_Inr)
  with assms that show thesis
    by (cases "create_segment io (current_id w1 + 1)")
      (auto simp: wal_roll_def Let_def create_segment_Inr [where env = env] split: sum.splits)
qed

lemma shape_roll:
  assumes "wal_shape env dir css ds ps w" "wal_roll io now w = (Inr (), w')"
  shows "wal_shape env dir (css @ [ds @ ps]) [] [] w'"
proof -
  obtain w1 where sync: "wal_sync io now w = (Inr (), w1)"
    and w': "w' = w1\<lparr>current_id := current_id w1 + 1, other_files := other_files w1 @ [(current_path w1, durable w1)],
       durable := segment_file env (now_v7 io) [], current_path := current_id w1 + 1,
       current_uuid := now_v7 io, current_len := HEADER_BYTES, current_started := 0\<rparr>"
    using wal_roll_Inr [OF assms(2)] by blast
  have sh: "wal_shape env dir css (ds @ ps) [] w1"
    using shape_sync [OF assms(1) sync] .
  obtain new where "other_files w1 = sort_key fst dir @ new"
     "list_all2 (\<lambda>seg bss. \<exists>u. snd seg = segment_file env u bss) new css"
    using sh by (auto simp: wal_shape_def)
  then have "other_files w' = sort_key fst dir @ (new @ [(current_path w1, durable w1)])
     \<and> list_all2 (\<lambda>seg bss. \<exists>u. snd seg = segment_file env u bss)
         (new @ [(current_path w1, durable w1)]) (css @ [ds @ ps])"
    using sh by (auto simp: wal_shape_def w' intro!: list_all2_appendI)
  then have files: "\<exists>new. other_files w' = sort_key fst dir @ new
     \<and> list_all2 (\<lambda>seg bss. \<exists>u. snd seg = segment_file env u bss) new (css @ [ds @ ps])"
    by blast
  show ?thesis
    unfolding wal_shape_def
    by (intro conjI files) (use sh in \<open>auto simp: wal_shape_def w' length_segment_file sorted_append\<close>)
qed

lemma shape_append:
  assumes "wal_shape env dir css ds ps w" "wal_append env io now w batch = (Inr (), w')" "batch \<noteq> []"
  shows "\<exists>css' ds' ps'. wal_shape env dir css' ds' ps' w' \<and> concat css' @ ds' @ ps' = concat css @ ds @ ps @ [batch]"
proof -
  obtain payload where p: "encode env batch = Some payload" "write_fails io = None"
    using assms(2,3) by (auto simp: wal_append_def split: option.splits if_splits)
  define w1 where "w1 = w\<lparr>pending := pending w @ frame (crc32 env) payload,
                         current_len := current_len w + (FRAME_HEADER_BYTES + length payload),
                         unsynced_bytes := unsynced_bytes w + (FRAME_HEADER_BYTES + length payload),
                         bytes_written := bytes_written w + (FRAME_HEADER_BYTES + length payload),
                         records_written := records_written w + length batch\<rparr>"
  have sh: "wal_shape env dir css ds (ps @ [batch]) w1"
    using assms(1) p by (auto simp: wal_shape_def w1_def payload_of_def length_frame FRAME_HEADER_BYTES_def)
  have "w' = w1 \<or> wal_roll io now w1 = (Inr (), w')"
    using assms(2,3) p by (auto simp: wal_append_def w1_def Let_def split: if_splits)
  then show ?thesis
  proof
    assume "w' = w1"
    with sh show ?thesis by (intro exI [of _ css] exI [of _ ds] exI [of _ "ps @ [batch]"]) simp
  next
    assume "wal_roll io now w1 = (Inr (), w')"
    from shape_roll [OF sh this] show ?thesis
      by (intro exI [of _ "css @ [ds @ ps @ [batch]]"] exI [of _ "[]"]) simp
  qed
qed

lemma shape_roll_if_due:
  assumes "wal_shape env dir css ds ps w" "roll_if_due io now nanos w = (Inr due, w')"
  shows "\<exists>css' ds' ps'. wal_shape env dir css' ds' ps' w' \<and> concat css' @ ds' @ ps' = concat css @ ds @ ps"
proof -
  have "w' = w \<or> wal_roll io now w = (Inr (), w')"
    using assms(2) by (auto simp: roll_if_due_def try_then_Inr split: option.splits if_splits)
  then show ?thesis
    using assms(1) shape_roll [OF assms(1)]
    by (metis (no_types, lifting) append_Nil2 append_self_conv2 concat.simps(1) concat.simps(2) concat_append)
qed

lemma shape_touch:
  "wal_shape env dir css ds ps (w\<lparr>current_started := t\<rparr>) = wal_shape env dir css ds ps w"
  "wal_shape env dir css ds ps (set_roll_after after w) = wal_shape env dir css ds ps w"
  by (simp_all add: wal_shape_def set_roll_after_def)

lemma reach_shape:
  assumes "wal_reach env dir bss w"
  shows "\<exists>css ds ps. wal_shape env dir css ds ps w \<and> bss = concat css @ ds @ ps"
  using assms
proof induction
  case (reach_open io now seg_bytes interval fbytes w d)
  from shape_open [OF this] show ?case by fastforce
next
  case (reach_roll_after bss w after)
  then show ?case by (simp add: shape_touch)
next
  case (reach_append bss w io now batch w')
  then obtain css ds ps where sh: "wal_shape env dir css ds ps w" "bss = concat css @ ds @ ps" by blast
  show ?case
  proof (cases "batch = []")
    case True
    then show ?thesis using reach_append sh by (auto simp: wal_append_def)
  next
    case False
    from shape_append [OF sh(1) reach_append.hyps(2) this] show ?thesis
      using False sh(2) by fastforce
  qed
next
  case (reach_append_at bss w ios now batch nanos w')
  then obtain css ds ps where sh: "wal_shape env dir css ds ps w" "bss = concat css @ ds @ ps" by blast
  show ?case
  proof (cases "batch = []")
    case True
    then show ?thesis using reach_append_at sh by (auto simp: append_at_def)
  next
    case False
    then obtain due w1 where due: "roll_if_due (ios 0) now nanos w = (Inr due, w1)"
      and app: "wal_append env (ios 1) now
        (if current_started w1 = 0 then w1\<lparr>current_started := max nanos 1\<rparr> else w1) batch = (Inr (), w')"
      using reach_append_at by (auto simp: append_at_def try_then_Inr)
    from shape_roll_if_due [OF sh(1) due] obtain css' ds' ps' where
      "wal_shape env dir css' ds' ps' w1" and eq: "concat css' @ ds' @ ps' = bss"
      using sh(2) by blast
    then have "wal_shape env dir css' ds' ps' (if current_started w1 = 0 then w1\<lparr>current_started := max nanos 1\<rparr> else w1)"
      by (simp add: shape_touch)
    from shape_append [OF this app False] show ?thesis
      using False eq by fastforce
  qed
next
  case (reach_roll_if_due bss w io now nanos due w')
  then show ?case using shape_roll_if_due by metis
next
  case (reach_sync bss w io now w')
  then show ?case using shape_sync by fastforce
next
  case (reach_roll bss w io now w')
  then obtain css ds ps where "wal_shape env dir css ds ps w" "bss = concat css @ ds @ ps" by blast
  with shape_roll [OF this(1) reach_roll.hyps(2)] show ?case
    by (intro exI [of _ "css @ [ds @ ps]"] exI [of _ "[]"]) simp
next
  case (reach_maybe_sync bss w io now adv w')
  then obtain css ds ps where sh: "wal_shape env dir css ds ps w" "bss = concat css @ ds @ ps" by blast
  obtain w1 where "w1 = w \<or> wal_sync io now w = (Inr (), w1)" and w': "w' = w1\<lparr>reported_records := synced_records w1\<rparr>"
    using reach_maybe_sync.hyps(2) by (auto simp: wal_maybe_sync_def try_then_Inr split: if_splits)
  then obtain ds' ps' where "wal_shape env dir css ds' ps' w1" "ds' @ ps' = ds @ ps"
    using sh(1) shape_sync [OF sh(1)] by (metis append_Nil2)
  moreover from this have "wal_shape env dir css ds' ps' w'"
    by (auto simp: w' wal_shape_def)
  ultimately show ?case using sh(2) by metis
qed

section \<open>Crashes\<close>

text \<open>What a crash leaves: the other segments, and the one under write with \<open>tail\<close> behind its synced bytes.\<close>

definition crash_dir :: "wal_writer \<Rightarrow> bytes \<Rightarrow> seg_dir" where
  "crash_dir w tail = other_files w @ [(current_path w, durable w @ tail)]"

lemma crash_dir_sorted: "wal_shape env dir css ds ps w \<Longrightarrow> sort_key fst (crash_dir w tail) = crash_dir w tail"
  by (intro sort_key_id_if_sorted)
    (auto simp: crash_dir_def wal_shape_def sorted_append intro: less_imp_le)

lemma crash_recover:
  assumes sh: "wal_shape env dir css ds ps w"
    and ok: "list_all (codec_ok env) (concat css @ ds)"
    and old: "recover env tr dir = (Inr r0, olds, dir0)"
  shows "\<exists>rep d g. recover env tr (crash_dir w tail) = (Inr rep, olds @ concat css @ ds @ snd (replay_loop env g tail), d)"
proof -
  let ?V = "\<lambda>seg bss. visited env (snd seg) = Some bss"
  obtain new where new: "other_files w = sort_key fst dir @ new"
     "list_all2 (\<lambda>seg bss. \<exists>u. snd seg = segment_file env u bss) new css"
    using sh by (auto simp: wal_shape_def)
  from old obtain oss where oss: "list_all2 ?V (sort_key fst dir) oss" "olds = concat oss"
    using recover_from_iff [of env tr empty_report "sort_key fst dir" olds] by (auto simp: recover_def)
  have "list_all2 ?V new css"
    using new(2) ok
  proof (induction rule: list_all2_induct)
    case (Cons seg segs bss css)
    then obtain u where "snd seg = segment_file env u bss @ []" by auto
    with Cons show ?case
      using visited_segment_file [of env bss u "[]"] replay_loop_stops [OF wal_frames.rd_Nil] by simp
  qed simp
  moreover have "?V (current_path w, durable w @ tail)
      (ds @ snd (replay_loop env (HEADER_BYTES + length (frames env ds)) tail))"
    using sh ok visited_segment_file by (simp add: wal_shape_def)
  ultimately have "list_all2 ?V (crash_dir w tail)
      (oss @ css @ [ds @ snd (replay_loop env (HEADER_BYTES + length (frames env ds)) tail)])"
    using oss(1) by (auto simp: crash_dir_def new(1) intro!: list_all2_appendI)
  then show ?thesis
    using recover_from_iff [of env tr empty_report "crash_dir w tail"] crash_dir_sorted [OF sh] oss(2)
    by (fastforce simp: recover_def)
qed


text \<open>
  C10. Power loss. Whatever bytes end up behind the synced part of the segment under write, recovery
  still succeeds and still starts with exactly the batches that \<^verbatim>\<open>synced_records\<close> counts.
\<close>

theorem power_loss_keeps_synced:
  assumes "wal_reach env dir bss w" and "list_all (codec_ok env) bss"
    and "recover env tr dir = (Inr r0, olds, dir0)"
  shows "\<exists>n rep extra d. recover env tr (crash_dir w garbage) = (Inr rep, olds @ take n bss @ extra, d)
    \<and> nrec (take n bss) = synced_records w"
proof -
  obtain css ds ps where sh: "wal_shape env dir css ds ps w" and bss: "bss = concat css @ ds @ ps"
    using reach_shape [OF assms(1)] by blast
  have "list_all (codec_ok env) (concat css @ ds)"
    using assms(2) bss by auto
  from crash_recover [OF sh this assms(3), of garbage]
  have "\<exists>rep extra d. recover env tr (crash_dir w garbage) = (Inr rep, olds @ (concat css @ ds) @ extra, d)"
    by auto
  moreover have "concat css @ ds = take (length (concat css @ ds)) bss"
    by (simp add: bss)
  moreover have "nrec (concat css @ ds) = synced_records w"
    using sh by (simp add: wal_shape_def)
  ultimately show ?thesis by metis
qed

section \<open>Both logs\<close>

text \<open>
  Runs of the pair, with the batches it was given and the parts of them that went to each log.
\<close>

definition nonempty :: "log_record list \<Rightarrow> log_record list list" where
  "nonempty b = (if b = [] then [] else [b])"

definition late_part :: "split_wal \<Rightarrow> nat \<Rightarrow> log_record list \<Rightarrow> log_record list" where
  "late_part s nanos = filter (\<lambda>r. timestamp_unix_nano r < nanos - late_threshold_nanos s)"

definition on_time_part :: "split_wal \<Rightarrow> nat \<Rightarrow> log_record list \<Rightarrow> log_record list" where
  "on_time_part s nanos = filter (\<lambda>r. \<not> timestamp_unix_nano r < nanos - late_threshold_nanos s)"

inductive split_reach :: "wal_env \<Rightarrow> seg_dir \<Rightarrow> seg_dir \<Rightarrow> log_record list list \<Rightarrow> log_record list list
    \<Rightarrow> log_record list list \<Rightarrow> split_wal \<Rightarrow> bool" for env dir ldir where
  split_reach_open: "split_open ios now dir ldir c = Inr s \<Longrightarrow> split_reach env dir ldir [] [] [] s"
| split_reach_append: "split_reach env dir ldir h bm bl s \<Longrightarrow> split_append env ios now s batch nanos = (Inr (), s')
    \<Longrightarrow> split_reach env dir ldir (h @ [batch]) (bm @ nonempty (on_time_part s nanos batch))
          (bl @ nonempty (late_part s nanos batch)) s'"
| split_reach_maybe_sync: "split_reach env dir ldir h bm bl s
    \<Longrightarrow> split_maybe_sync ios now s nanos = (Inr published, s') \<Longrightarrow> split_reach env dir ldir h bm bl s'"
| split_reach_sync: "split_reach env dir ldir h bm bl s
    \<Longrightarrow> split_sync ios now s = (Inr n, s') \<Longrightarrow> split_reach env dir ldir h bm bl s'"
| split_reach_roll: "split_reach env dir ldir h bm bl s
    \<Longrightarrow> roll_main io now s = (Inr (), s') \<Longrightarrow> split_reach env dir ldir h bm bl s'"

lemma on_main_Inr: "on_main f s = (Inr a, s') \<longleftrightarrow> (\<exists>w. f (main_wal s) = (Inr a, w) \<and> s' = s\<lparr>main_wal := w\<rparr>)"
  by (auto simp: on_main_def split: prod.splits)

lemma on_late_Inr: "on_late f s = (Inr a, s') \<longleftrightarrow> (\<exists>w. f (late_wal s) = (Inr a, w) \<and> s' = s\<lparr>late_wal := w\<rparr>)"
  by (auto simp: on_late_def split: prod.splits)

lemma reach_open_fst: "fst (wal_open io now dir seg_bytes interval fbytes) = Inr w \<Longrightarrow> wal_reach env dir [] w"
  by (cases "wal_open io now dir seg_bytes interval fbytes") (auto intro: reach_open)

definition both_reach :: "wal_env \<Rightarrow> seg_dir \<Rightarrow> seg_dir \<Rightarrow> log_record list list \<Rightarrow> log_record list list \<Rightarrow> split_wal \<Rightarrow> bool" where
  "both_reach env dir ldir bm bl s \<longleftrightarrow> wal_reach env dir bm (main_wal s) \<and> wal_reach env ldir bl (late_wal s)"

lemma both_split_sync:
  assumes "both_reach env dir ldir bm bl s" "split_sync ios now s = (Inr n, s')"
  shows "both_reach env dir ldir bm bl s'"
    and "unsynced_bytes (main_wal s') = 0" and "unsynced_bytes (late_wal s') = 0"
    and "n = split_records_written s'"
  using assms by (auto simp: both_reach_def split_sync_def try_then_Inr on_main_Inr on_late_Inr wal_sync_def
      split_records_written_def intro: reach_sync split: if_splits)

lemma both_split_maybe_sync:
  assumes "both_reach env dir ldir bm bl s" "split_maybe_sync ios now s nanos = (Inr published, s')"
  shows "both_reach env dir ldir bm bl s'"
    and "published = Some n \<Longrightarrow> unsynced_bytes (main_wal s') = 0 \<and> unsynced_bytes (late_wal s') = 0
      \<and> n = split_records_written s'"
proof -
  obtain s1 s2 s3 due am al where
    steps: "on_late (roll_if_due (ios 0) now nanos) s = (Inr due, s1)"
      "on_main (wal_maybe_sync (ios 1) now) s1 = (Inr am, s2)"
      "on_late (wal_maybe_sync (ios 2) now) s2 = (Inr al, s3)"
    and last: "(if \<not> (am \<or> al) then (Inr None, s3)
      else try_then (split_sync (\<lambda>i. ios (i + 3)) now s3) (\<lambda>n s4. (Inr (Some n), s4))) = (Inr published, s')"
    using assms(2) by (auto simp: split_maybe_sync_def try_then_Inr)
  have r3: "both_reach env dir ldir bm bl s3"
    using assms(1) steps
    by (auto simp: both_reach_def on_main_Inr on_late_Inr intro: reach_roll_if_due reach_maybe_sync)
  then show "both_reach env dir ldir bm bl s'"
    using last both_split_sync(1) by (auto simp: try_then_Inr split: if_splits)
  show "unsynced_bytes (main_wal s') = 0 \<and> unsynced_bytes (late_wal s') = 0 \<and> n = split_records_written s'"
    if "published = Some n"
    using last r3 that both_split_sync(2-4) by (auto simp: try_then_Inr split: if_splits)
qed

lemma both_split_append:
  assumes "both_reach env dir ldir bm bl s" "split_append env ios now s batch nanos = (Inr (), s')"
  shows "both_reach env dir ldir (bm @ nonempty (on_time_part s nanos batch)) (bl @ nonempty (late_part s nanos batch)) s'"
proof (cases "list_ex (\<lambda>r. timestamp_unix_nano r < nanos - late_threshold_nanos s) batch")
  case True
  then obtain wm wl where
    "wal_append env (ios 0) now (main_wal s) (on_time_part s nanos batch) = (Inr (), wm)"
    "append_at env (\<lambda>i. ios (i + 1)) now (late_wal s) (late_part s nanos batch) nanos = (Inr (), wl)"
    "main_wal s' = wm" "late_wal s' = wl"
    using assms(2)
    by (auto simp: split_append_def Let_def try_then_Inr on_main_Inr on_late_Inr on_time_part_def late_part_def)
  then show ?thesis
    using assms(1) reach_append [where bss = bm] reach_append_at [where bss = bl]
    by (fastforce simp: both_reach_def nonempty_def)
next
  case False
  then have "on_time_part s nanos batch = batch" "late_part s nanos batch = []"
    by (auto simp: on_time_part_def late_part_def filter_empty_conv list_ex_iff filter_id_conv)
  moreover obtain wm where "wal_append env (ios 0) now (main_wal s) batch = (Inr (), wm)"
    "main_wal s' = wm" "late_wal s' = late_wal s"
    using assms(2) False by (auto simp: split_append_def Let_def on_main_Inr)
  ultimately show ?thesis
    using assms(1) reach_append [where bss = bm] by (fastforce simp: both_reach_def nonempty_def)
qed

lemma split_reach_both:
  assumes "split_reach env dir ldir h bm bl s"
  shows "both_reach env dir ldir bm bl s" and "mset (concat bm) + mset (concat bl) = mset (concat h)"
proof -
  show "both_reach env dir ldir bm bl s"
    using assms
  proof induction
    case (split_reach_open ios now c s)
    then show ?case
      by (auto simp: split_open_def both_reach_def split: sum.splits
          intro!: reach_roll_after intro: reach_open_fst)
  next
    case (split_reach_roll h bm bl s io now s')
    then show ?case by (auto simp: both_reach_def roll_main_def on_main_Inr intro: reach_roll)
  qed (auto intro: both_split_append both_split_maybe_sync(1) both_split_sync(1))
  show "mset (concat bm) + mset (concat bl) = mset (concat h)"
    using assms
  proof induction
    case (split_reach_append h bm bl s ios now batch nanos s')
    have "mset (on_time_part s nanos batch) + mset (late_part s nanos batch) = mset batch"
      by (simp add: on_time_part_def late_part_def)
    then show ?case
      using split_reach_append by (auto simp: nonempty_def ac_simps)
  qed simp_all
qed

lemma reach_all_synced:
  assumes "wal_reach env dir bss w" "unsynced_bytes w = 0"
  shows "\<exists>css ds. wal_shape env dir css ds [] w \<and> bss = concat css @ ds"
proof -
  obtain css ds ps where sh: "wal_shape env dir css ds ps w" and bss: "bss = concat css @ ds @ ps"
    using reach_shape [OF assms(1)] by blast
  have "frames env ps = []"
    using sh assms(2) unfolding wal_shape_def by simp metis
  then have "ps = []"
    by (cases ps) (auto simp: frame_def u32_to_le_def)
  with sh bss show ?thesis by auto
qed

lemma synced_survives:
  assumes "wal_reach env dir bss w" "unsynced_bytes w = 0" "list_all (codec_ok env) bss"
    "recover env tr dir = (Inr r0, olds, dir0)"
  shows "\<exists>rep extra d. recover env tr (crash_dir w garbage) = (Inr rep, olds @ bss @ extra, d)"
    and "records_written w = nrec bss"
proof -
  obtain css ds where sh: "wal_shape env dir css ds [] w" and bss: "bss = concat css @ ds"
    using reach_all_synced [OF assms(1,2)] by blast
  then show "\<exists>rep extra d. recover env tr (crash_dir w garbage) = (Inr rep, olds @ bss @ extra, d)"
    using crash_recover [OF sh _ assms(4), of garbage] assms(3) by fastforce
  show "records_written w = nrec bss"
    using sh bss by (simp add: wal_shape_def)
qed

lemma nrec_concat: "nrec bss = length (concat bss)"
  by (simp add: length_concat)

text \<open>
  C3. What \<^verbatim>\<open>SplitWal::maybe_sync\<close> publishes is on disk. When it returns a count, that count is the
  number of records of all the batches given to the pair so far, both logs are synced, and after a
  crash that leaves any bytes behind them the two recoveries bring back, between them, every one of
  those records: each batch's on-time part from the main log and its late part from the spool.
\<close>

theorem published_count_is_durable:
  assumes "split_reach env dir ldir h bm bl s" and "split_maybe_sync ios now s nanos = (Inr (Some n), s')"
    and "list_all (codec_ok env) (bm @ bl)"
    and "recover env tr dir = (Inr r0, olds, dir0)" and "recover env tr ldir = (Inr r1, olds_l, dir1)"
  shows "n = length (concat h) \<and>
    (\<exists>rep extra d. recover env tr (crash_dir (main_wal s') garbage) = (Inr rep, olds @ bm @ extra, d)) \<and>
    (\<exists>rep extra d. recover env tr (crash_dir (late_wal s') garbage') = (Inr rep, olds_l @ bl @ extra, d)) \<and>
    mset (concat bm) + mset (concat bl) = mset (concat h)"
proof -
  have both: "both_reach env dir ldir bm bl s'"
    and unsynced: "unsynced_bytes (main_wal s') = 0" "unsynced_bytes (late_wal s') = 0"
    and n: "n = split_records_written s'"
    using both_split_maybe_sync [OF split_reach_both(1) [OF assms(1)] assms(2)] by auto
  have ok: "list_all (codec_ok env) bm" "list_all (codec_ok env) bl"
    using assms(3) by auto
  have m: "wal_reach env dir bm (main_wal s')" and l: "wal_reach env ldir bl (late_wal s')"
    using both by (auto simp: both_reach_def)
  have ms: "mset (concat bm) + mset (concat bl) = mset (concat h)"
    using split_reach_both(2) [OF assms(1)] .
  have "n = nrec bm + nrec bl"
    using synced_survives(2) [OF m unsynced(1) ok(1) assms(4)] synced_survives(2) [OF l unsynced(2) ok(2) assms(5)] n
    by (simp add: split_records_written_def)
  also have "\<dots> = size (mset (concat bm) + mset (concat bl))"
    by (simp add: nrec_concat)
  also have "\<dots> = length (concat h)"
    unfolding ms by simp
  finally show ?thesis
    using synced_survives(1) [OF m unsynced(1) ok(1) assms(4)] synced_survives(1) [OF l unsynced(2) ok(2) assms(5)] ms
    by blast
qed

text \<open>
  The append accepts what replay refuses: a batch whose payload is over 256 MiB and below 4 GiB is
  written and synced without an error and counted as synced, and recovery of the undamaged file
  does not give it back.
\<close>

theorem oversized_batch_is_lost:
  assumes "wal_open io now [] seg_bytes interval fbytes = (Inr w0, d)" and "batch \<noteq> []"
    and "encode env batch = Some payload" and "MAX_FRAME_BYTES < length payload" and "length payload < 2 ^ 32"
    and "write_fails io = None" and "sync_ok io" and "2 ^ 33 \<le> seg_bytes"
  shows "\<exists>w1 w2 rep d'. wal_append env io now w0 batch = (Inr (), w1) \<and> wal_sync io now w1 = (Inr (), w2)
    \<and> synced_records w2 = length batch \<and> recover env tr (crash_dir w2 []) = (Inr rep, [], d')"
proof -
  have sh: "wal_shape env [] [] [] [] w0" and seg: "segment_bytes w0 = seg_bytes" "current_len w0 = HEADER_BYTES"
    using shape_open [OF assms(1)] assms(1)
    by (auto simp: wal_open_def create_segment_Inr [where env = env] split: prod.splits sum.splits)
  define w1 where "w1 = snd (wal_append env io now w0 batch)"
  define w2 where "w2 = snd (wal_sync io now w1)"
  have app: "wal_append env io now w0 batch = (Inr (), w1)"
    using assms seg by (simp add: w1_def wal_append_def Let_def FRAME_HEADER_BYTES_def HEADER_BYTES_def)
  have w1: "pending w1 = frame (crc32 env) payload" "durable w1 = durable w0" "other_files w1 = []"
    "records_written w1 = length batch"
    using assms seg sh by (simp_all add: w1_def wal_append_def Let_def FRAME_HEADER_BYTES_def HEADER_BYTES_def wal_shape_def)
  have sync: "wal_sync io now w1 = (Inr (), w2)" and "synced_records w2 = length batch"
    using assms(7) w1 by (simp_all add: w2_def wal_sync_def)
  have dir: "crash_dir w2 [] = [(current_path w2, segment_file env (current_uuid w0) [] @ frame (crc32 env) payload)]"
    using assms(7) w1 sh by (simp add: crash_dir_def w2_def wal_sync_def wal_shape_def)
  have len: "unat (of_nat (length payload) :: u32) = length payload"
    using assms(5) by (simp add: unat_of_nat take_bit_eq_mod)
  then have "wal_read_frame crc (frame crc payload) = None" for crc
    using assms(4) by (simp add: wal_read_frame_def read_full_def length_frame frame_parts)
  then have "visited env (segment_file env (current_uuid w0) [] @ frame (crc32 env) payload) = Some []"
    using visited_segment_file [of env "[]"] replay_loop_stops by simp
  then have "\<exists>rep d'. recover env tr (crash_dir w2 []) = (Inr rep, [], d')"
    unfolding recover_def dir by (subst sort_key_id_if_sorted)
      (simp_all only: recover_from_iff, simp_all add: exI [of _ "[[]]"])
  with app sync \<open>synced_records w2 = length batch\<close> show ?thesis by blast
qed

section \<open>A concrete run\<close>

text \<open>A stand-in for postcard that knows one batch, a checksum, and an operating system that does as asked.\<close>

definition demo_batch :: "log_record list" where
  "demo_batch = [log_record_new 1 5 INFO ''up'', log_record_new 2 6 WARN ''slow'']"

definition demo_env :: wal_env where
  "demo_env = \<lparr>encode = (\<lambda>b. if b = demo_batch then Some [7, 9] else None),
     decode = (\<lambda>p. if p = [7, 9] then Some demo_batch else None), crc32 = (\<lambda>p. of_nat (length p))\<rparr>"

definition demo_io :: wal_io where
  "demo_io = \<lparr>write_fails = None, sync_ok = True, create = Created, now_v7 = 3\<rparr>"

text \<open>Segments of 40 bytes: the second append rolls, the third is not yet synced.\<close>

definition demo_open :: wal_writer where
  "demo_open = (case fst (wal_open demo_io 0 [] 40 10 1000) of Inr w \<Rightarrow> w)"

definition demo_wal :: "nat \<Rightarrow> wal_writer" where
  "demo_wal n = ((\<lambda>w. snd (wal_append demo_env demo_io 0 w demo_batch)) ^^ n) demo_open"

lemma demo_codec_ok: "codec_ok demo_env demo_batch"
  by (simp add: codec_ok_def demo_env_def wal_fits_def MAX_FRAME_BYTES_def)

lemma demo_append_ok: "\<exists>w'. wal_append demo_env demo_io 0 w demo_batch = (Inr (), w')"
  by (auto simp: wal_append_def demo_env_def demo_io_def wal_roll_def wal_sync_def create_segment_def Let_def)

lemma demo_reach: "wal_reach demo_env [] (replicate n demo_batch) (demo_wal n)"
proof (induction n)
  case 0
  show ?case
    by (auto simp: demo_wal_def demo_open_def wal_open_def create_segment_def demo_io_def
        intro!: reach_open [of demo_io 0 "[]" 40 10 1000])
next
  case (Suc n)
  obtain w' where w': "wal_append demo_env demo_io 0 (demo_wal n) demo_batch = (Inr (), w')"
    using demo_append_ok by blast
  moreover have "demo_batch \<noteq> []" by (simp add: demo_batch_def)
  ultimately show ?case
    using reach_append [OF Suc w'] by (simp add: demo_wal_def replicate_append_same)
qed

lemma demo_recover_empty: "recover demo_env True [] = (Inr empty_report, [], [])"
  by (simp add: recover_def)

lemma demo_ok: "list_all (codec_ok demo_env) (replicate n demo_batch)"
  using demo_codec_ok by (simp add: list_all_iff)


theorem power_loss_keeps_synced_witness:
  "\<exists>n rep extra d. recover demo_env True (crash_dir (demo_wal 3) [1, 0, 0])
      = (Inr rep, [] @ take n (replicate 3 demo_batch) @ extra, d)
    \<and> nrec (take n (replicate 3 demo_batch)) = synced_records (demo_wal 3)"
  by (rule power_loss_keeps_synced [OF demo_reach demo_ok demo_recover_empty])

definition demo_torn :: bytes where
  "demo_torn = segment_file demo_env 3 [demo_batch] @ [2, 0, 0]"

theorem replay_truncation_stable_witness:
  "\<exists>outcome file'. replay_segment demo_env True demo_torn = Inr (outcome, [demo_batch], file')
    \<and> truncated_to outcome = Some 34 \<and> prefix file' demo_torn
    \<and> replay_segment demo_env True file' = Inr (outcome\<lparr>truncated_to := None\<rparr>, [demo_batch], file')"
proof -
  define r where "r = \<lparr>batches = 1, records = 2, truncated_to = Some 34, uuid = uuid_as_bytes 3\<rparr>"
  have "wal_read_frame (crc32 demo_env) [2, 0, 0] = None"
    by (simp add: wal_read_frame_def read_full_def)
  moreover have "length (segment_file demo_env 3 [demo_batch]) = 34"
    by (simp add: length_segment_file HEADER_BYTES_def length_frame payload_of_def demo_env_def)
  ultimately have "replay_segment demo_env True demo_torn = Inr (r, [demo_batch], segment_file demo_env 3 [demo_batch])"
    using replay_torn_segment [of demo_env "[demo_batch]" "[2, 0, 0]" 3] demo_codec_ok
    by (simp add: demo_torn_def r_def demo_batch_def)
  from this replay_truncation_stable [OF this, of True] show ?thesis
    by (auto simp: r_def)
qed

definition demo_config :: split_config where
  "demo_config = \<lparr>cfg_segment_bytes = 1000, cfg_fsync_interval = 10, cfg_fsync_bytes = 1,
     cfg_late_threshold = 100, cfg_late_roll = 50, cfg_late_segment_bytes = 1000\<rparr>"

definition demo_split0 :: split_wal where
  "demo_split0 = (case split_open (\<lambda>_. demo_io) 0 [] [] demo_config of Inr s \<Rightarrow> s)"

definition demo_split1 :: split_wal where
  "demo_split1 = snd (split_append demo_env (\<lambda>_. demo_io) 0 demo_split0 demo_batch 50)"

definition demo_split2 :: split_wal where
  "demo_split2 = snd (split_maybe_sync (\<lambda>_. demo_io) 20 demo_split1 50)"

lemma demo_split_run:
  "split_open (\<lambda>_. demo_io) 0 [] [] demo_config = Inr demo_split0"
  "split_append demo_env (\<lambda>_. demo_io) 0 demo_split0 demo_batch 50 = (Inr (), demo_split1)"
  "split_maybe_sync (\<lambda>_. demo_io) 20 demo_split1 50 = (Inr (Some 2), demo_split2)"
  by (simp_all add: demo_split0_def demo_split1_def demo_split2_def split_open_def wal_open_def create_segment_def
      demo_io_def demo_config_def split_append_def wal_append_def demo_env_def on_main_def on_late_def Let_def
      split_maybe_sync_def roll_if_due_def wal_maybe_sync_def wal_sync_def split_sync_def set_roll_after_def
      wal_bounds demo_batch_def log_record_new_def)

theorem published_count_is_durable_witness:
  "2 = length (concat [demo_batch]) \<and>
    (\<exists>rep extra d. recover demo_env True (crash_dir (main_wal demo_split2) [1]) = (Inr rep, [] @ [demo_batch] @ extra, d)) \<and>
    (\<exists>rep extra d. recover demo_env True (crash_dir (late_wal demo_split2) []) = (Inr rep, [] @ [] @ extra, d)) \<and>
    mset (concat [demo_batch]) + mset (concat []) = mset (concat [demo_batch])"
proof -
  have parts: "on_time_part demo_split0 50 demo_batch = demo_batch" "late_part demo_split0 50 demo_batch = []"
    by (simp_all add: on_time_part_def late_part_def demo_split0_def split_open_def wal_open_def create_segment_def
        demo_io_def demo_config_def)
  have "demo_batch \<noteq> []"
    by (simp add: demo_batch_def)
  then have "split_reach demo_env [] [] [demo_batch] [demo_batch] [] demo_split1"
    using split_reach_append [OF split_reach_open [OF demo_split_run(1)] demo_split_run(2)]
    by (simp add: parts nonempty_def)
  from published_count_is_durable [OF this demo_split_run(3) _ demo_recover_empty demo_recover_empty]
  show ?thesis using demo_codec_ok by simp
qed

definition demo_big :: wal_env where
  "demo_big = demo_env\<lparr>encode := (\<lambda>b. Some (replicate (MAX_FRAME_BYTES + 1) 0))\<rparr>"

theorem oversized_batch_is_lost_witness:
  "\<exists>w0 w1 w2 rep d'. wal_append demo_big demo_io 0 w0 demo_batch = (Inr (), w1) \<and> wal_sync demo_io 0 w1 = (Inr (), w2)
    \<and> synced_records w2 = length demo_batch \<and> recover demo_big True (crash_dir w2 []) = (Inr rep, [], d')"
proof -
  obtain w0 d where "wal_open demo_io 0 [] (2 ^ 33) 10 1000 = (Inr w0, d)"
    by (simp add: wal_open_def create_segment_def demo_io_def)
  moreover have "demo_batch \<noteq> []" "encode demo_big demo_batch = Some (replicate (MAX_FRAME_BYTES + 1) 0)"
    "MAX_FRAME_BYTES + 1 < 2 ^ 32" "write_fails demo_io = None" "sync_ok demo_io"
    by (simp_all add: demo_batch_def demo_big_def demo_io_def MAX_FRAME_BYTES_def)
  ultimately show ?thesis
    using oversized_batch_is_lost [of demo_io 0 "2 ^ 33" 10 1000 w0 d demo_batch demo_big
        "replicate (MAX_FRAME_BYTES + 1) 0" True] by simp blast
qed

end
