(* ===== verification/Hec_Ack.thy ===== *)
theory Hec_Ack
  imports Prelude "HOL-Library.AList"
begin

text \<open>
  The HEC acknowledgement table (\<^verbatim>\<open>hec/ack.rs\<close>). A hash map is an association list, updated with
  \<open>AList.update\<close> and \<open>AList.delete\<close>; ids, batch sequences and record counts are naturals. Every method
  takes the table's lock, so the methods are the atomic steps, apart from the load of the published
  record count, which happens before the lock is taken: the methods get the loaded value as an
  argument, and the runs below allow it to be out of date.
\<close>

section \<open>The table\<close>

definition MAX_OUTSTANDING_PER_CHANNEL :: nat where "MAX_OUTSTANDING_PER_CHANNEL = 8192"

record ack_channel =
  next_id :: nat
  durable_floor :: nat
  pending_acks :: "(nat \<times> nat) list"

definition channel_default :: ack_channel where
  "channel_default = \<lparr>next_id = 0, durable_floor = 0, pending_acks = []\<rparr>"

type_synonym watermark_map = "(nat \<times> nat) list"

function retire_durable_prefix :: "ack_channel \<Rightarrow> watermark_map \<Rightarrow> nat \<Rightarrow> ack_channel \<times> watermark_map" where
  "retire_durable_prefix c watermarks synced = (
     if durable_floor c < next_id c then
       (case map_of (pending_acks c) (durable_floor c) of
          Some seq \<Rightarrow>
            (case map_of watermarks seq of
               Some w \<Rightarrow> if w \<le> synced
                 then retire_durable_prefix
                   (c\<lparr>pending_acks := AList.delete (durable_floor c) (pending_acks c),
                      durable_floor := durable_floor c + 1\<rparr>)
                   (AList.delete seq watermarks) synced
                 else (c, watermarks)
             | None \<Rightarrow> (c, watermarks))
        | None \<Rightarrow> retire_durable_prefix (c\<lparr>durable_floor := durable_floor c + 1\<rparr>) watermarks synced)
     else (c, watermarks))"
  by pat_completeness auto
termination
  by (relation "measure (\<lambda>(c, _, _). next_id c - durable_floor c)") auto

declare retire_durable_prefix.simps [simp del]

record ack_table =
  channels :: "(string \<times> ack_channel) list"
  watermarks :: watermark_map
  next_batch :: nat

definition ack_new :: ack_table where
  "ack_new = \<lparr>channels = [], watermarks = [], next_batch = 1\<rparr>"

definition next_batch_seq :: "ack_table \<Rightarrow> nat \<times> ack_table" where
  "next_batch_seq t = (next_batch t, t\<lparr>next_batch := next_batch t + 1\<rparr>)"

text \<open>\<^verbatim>\<open>entry(..).or_default()\<close>.\<close>

definition channel_of :: "ack_table \<Rightarrow> string \<Rightarrow> ack_channel" where
  "channel_of t ch = (case map_of (channels t) ch of Some c \<Rightarrow> c | None \<Rightarrow> channel_default)"

definition issue :: "nat \<Rightarrow> ack_table \<Rightarrow> string \<Rightarrow> nat \<Rightarrow> nat \<times> ack_table" where
  "issue synced t ch batch_seq = (
     let c = channel_of t ch; i = next_id c;
         c1 = c\<lparr>next_id := i + 1, pending_acks := AList.update i batch_seq (pending_acks c)\<rparr>;
         (c2, ws) = retire_durable_prefix c1 (watermarks t) synced
     in (i, t\<lparr>channels := AList.update ch c2 (channels t), watermarks := ws\<rparr>))"

definition has_capacity :: "ack_table \<Rightarrow> string \<Rightarrow> bool" where
  "has_capacity t ch = (case map_of (channels t) ch of
     None \<Rightarrow> True | Some c \<Rightarrow> length (pending_acks c) < MAX_OUTSTANDING_PER_CHANNEL)"

definition bind_batch :: "ack_table \<Rightarrow> nat \<Rightarrow> nat \<Rightarrow> ack_table" where
  "bind_batch t batch_seq records_submitted_total =
     t\<lparr>watermarks := AList.update batch_seq records_submitted_total (watermarks t)\<rparr>"

definition query :: "nat \<Rightarrow> ack_table \<Rightarrow> string \<Rightarrow> nat list \<Rightarrow> (nat \<times> bool) list" where
  "query synced t ch ids = (case map_of (channels t) ch of
     None \<Rightarrow> map (\<lambda>i. (i, False)) ids
   | Some c \<Rightarrow> map (\<lambda>i.
       if i < durable_floor c then (i, True)
       else (i, case Option.bind (map_of (pending_acks c) i) (map_of (watermarks t)) of
                  None \<Rightarrow> False | Some w \<Rightarrow> w \<le> synced)) ids)"

definition outstanding :: "ack_table \<Rightarrow> nat" where
  "outstanding t = sum_list (map (length \<circ> pending_acks \<circ> snd) (channels t))"

section \<open>Runs\<close>

text \<open>
  A run with its history. A batch sequence comes from \<^verbatim>\<open>next_batch_seq\<close> and is issued and bound at most
  once, in either order, by threads that need not agree on when; the published count only grows.
\<close>

datatype ack_event = Seq nat | Issued string nat nat | Bound nat nat | Published nat

fun published :: "ack_event list \<Rightarrow> nat" where
  "published [] = 0"
| "published (Published n # h) = max n (published h)"
| "published (_ # h) = published h"

inductive ack_reach :: "ack_event list \<Rightarrow> ack_table \<Rightarrow> bool" where
  start: "ack_reach [] ack_new"
| seq: "ack_reach h t \<Longrightarrow> next_batch_seq t = (s, t') \<Longrightarrow> ack_reach (h @ [Seq s]) t'"
| issue: "ack_reach h t \<Longrightarrow> Seq s \<in> set h \<Longrightarrow> (\<forall>ch' i'. Issued ch' i' s \<notin> set h) \<Longrightarrow> loaded \<le> published h
    \<Longrightarrow> issue loaded t ch s = (i, t') \<Longrightarrow> ack_reach (h @ [Issued ch i s]) t'"
| bind: "ack_reach h t \<Longrightarrow> Seq s \<in> set h \<Longrightarrow> (\<forall>w'. Bound s w' \<notin> set h)
    \<Longrightarrow> ack_reach (h @ [Bound s w]) (bind_batch t s w)"
| publish: "ack_reach h t \<Longrightarrow> ack_reach (h @ [Published n]) t"

text \<open>What the answer to a poll means: the batch of that id was bound to a count that is published.\<close>

definition durable_ack :: "ack_event list \<Rightarrow> nat \<Rightarrow> string \<Rightarrow> nat \<Rightarrow> bool" where
  "durable_ack h synced ch i \<longleftrightarrow> (\<exists>s w. Issued ch i s \<in> set h \<and> Bound s w \<in> set h \<and> w \<le> synced)"

section \<open>The invariant\<close>

text \<open>
  Over the events so far, the channel of every name and the watermarks: ids are handed out in order,
  the ids from the floor up are pending under the batch they were issued for, the ids below it are
  durable, and a bound batch keeps its watermark until its id is below the floor.
\<close>

definition channel_inv :: "ack_event set \<Rightarrow> nat \<Rightarrow> string \<Rightarrow> ack_channel \<Rightarrow> bool" where
  "channel_inv E syn ch c \<longleftrightarrow> durable_floor c \<le> next_id c
     \<and> distinct (map fst (pending_acks c))
     \<and> dom (map_of (pending_acks c)) = {durable_floor c..<next_id c}
     \<and> (\<forall>i s. Issued ch i s \<in> E \<longrightarrow> i < next_id c)
     \<and> (\<forall>i s. durable_floor c \<le> i \<longrightarrow> (Issued ch i s \<in> E \<longleftrightarrow> map_of (pending_acks c) i = Some s))
     \<and> (\<forall>i < durable_floor c. \<exists>s w. Issued ch i s \<in> E \<and> Bound s w \<in> E \<and> w \<le> syn)"

definition ack_inv :: "ack_event set \<Rightarrow> nat \<Rightarrow> (string \<Rightarrow> ack_channel) \<Rightarrow> (nat \<rightharpoonup> nat) \<Rightarrow> bool" where
  "ack_inv E syn C W \<longleftrightarrow> (\<forall>ch. channel_inv E syn ch (C ch))
     \<and> (\<forall>s w. W s = Some w \<longrightarrow> Bound s w \<in> E)
     \<and> (\<forall>s w. Bound s w \<in> E \<longrightarrow> W s = Some w \<or> (\<exists>ch i. Issued ch i s \<in> E \<and> i < durable_floor (C ch)))
     \<and> (\<forall>ch i ch' i' s. Issued ch i s \<in> E \<longrightarrow> Issued ch' i' s \<in> E \<longrightarrow> ch' = ch \<and> i' = i)"

lemma retire_step_inv:
  assumes inv: "ack_inv E syn C W" and c: "C ch = c" and lt: "durable_floor c < next_id c"
    and seq: "map_of (pending_acks c) (durable_floor c) = Some s" and w: "W s = Some w" "w \<le> syn"
  shows "ack_inv E syn (C(ch := c\<lparr>pending_acks := AList.delete (durable_floor c) (pending_acks c),
      durable_floor := durable_floor c + 1\<rparr>)) (W(s := None))"
proof -
  let ?c' = "c\<lparr>pending_acks := AList.delete (durable_floor c) (pending_acks c), durable_floor := durable_floor c + 1\<rparr>"
  have ci: "channel_inv E syn ch c"
    using inv c unfolding ack_inv_def by blast
  have iss: "Issued ch (durable_floor c) s \<in> E"
    using ci seq unfolding channel_inv_def by blast
  have bnd: "Bound s w \<in> E"
    using inv w unfolding ack_inv_def by blast
  have c': "channel_inv E syn ch ?c'"
    using ci lt iss bnd w(2)
    by (auto simp: channel_inv_def delete_conv' distinct_delete less_Suc_eq Suc_le_eq)
  have low: "\<exists>ch' i. Issued ch' i s' \<in> E \<and> i < durable_floor ((C(ch := ?c')) ch')"
    if "Issued ch' i s' \<in> E" "i < durable_floor (C ch')" for ch' i s'
    using that c by (intro exI [of _ ch'] exI [of _ i]) auto
  have self: "\<exists>ch' i. Issued ch' i s \<in> E \<and> i < durable_floor ((C(ch := ?c')) ch')"
    using iss by (intro exI [of _ ch] exI [of _ "durable_floor c"]) simp
  show ?thesis
    unfolding ack_inv_def
  proof (intro conjI allI impI)
    fix ch' show "channel_inv E syn ch' ((C(ch := ?c')) ch')"
      using inv c' by (auto simp: ack_inv_def)
  next
    fix s' w' assume "(W(s := None)) s' = Some w'"
    then show "Bound s' w' \<in> E" using inv by (auto simp: ack_inv_def split: if_splits)
  next
    fix s' w' assume "Bound s' w' \<in> E"
    then have old: "W s' = Some w' \<or> (\<exists>ch' i. Issued ch' i s' \<in> E \<and> i < durable_floor (C ch'))"
      using inv unfolding ack_inv_def by blast
    show "(W(s := None)) s' = Some w' \<or> (\<exists>ch' i. Issued ch' i s' \<in> E \<and> i < durable_floor ((C(ch := ?c')) ch'))"
    proof (cases "s' = s")
      case True
      then show ?thesis using self by metis
    next
      case False
      then have "(W(s := None)) s' = W s'" by simp
      then show ?thesis using old low by metis
    qed
  next
    fix ch1 i1 ch2 i2 s' assume "Issued ch1 i1 s' \<in> E" "Issued ch2 i2 s' \<in> E"
    then show "ch2 = ch1" "i2 = i1" using inv unfolding ack_inv_def by blast+
  qed
qed

lemma retire_inv:
  assumes "ack_inv E syn (C(ch := c)) (map_of ws)" "loaded \<le> syn"
    "retire_durable_prefix c ws loaded = (c', ws')"
  shows "ack_inv E syn (C(ch := c')) (map_of ws')"
  using assms
proof (induction c ws loaded rule: retire_durable_prefix.induct)
  case (1 c ws loaded)
  show ?case
  proof (cases "durable_floor c < next_id c")
    case lt: True
    have "channel_inv E syn ch c"
      using "1.prems"(1) by (auto simp: ack_inv_def dest: spec [of _ ch])
    with lt have "durable_floor c \<in> dom (map_of (pending_acks c))"
      unfolding channel_inv_def by simp
    then obtain s where s: "map_of (pending_acks c) (durable_floor c) = Some s"
      by blast
    show ?thesis
    proof (cases "map_of ws s")
      case None
      then show ?thesis using "1.prems" lt s by (auto simp: retire_durable_prefix.simps [of c])
    next
      case (Some w)
      show ?thesis
      proof (cases "w \<le> loaded")
        case True
        then have "w \<le> syn" using "1.prems"(2) by simp
        from retire_step_inv [OF "1.prems"(1) fun_upd_same lt s Some this]
        have "ack_inv E syn (C(ch := c\<lparr>pending_acks := AList.delete (durable_floor c) (pending_acks c),
              durable_floor := durable_floor c + 1\<rparr>)) (map_of (AList.delete s ws))"
          by (simp only: fun_upd_upd delete_conv')
        from "1.IH"(2) [OF lt s Some True this "1.prems"(2)] "1.prems"(3) show ?thesis
          using lt s Some True by (simp add: retire_durable_prefix.simps [of c])
      next
        case False
        then show ?thesis using "1.prems" lt s Some by (auto simp: retire_durable_prefix.simps [of c])
      qed
    qed
  next
    case False
    then show ?thesis using "1.prems" by (auto simp: retire_durable_prefix.simps [of c])
  qed
qed

lemma retire_grow:
  "retire_durable_prefix c ws loaded = (c', ws') \<Longrightarrow> next_id c' = next_id c \<and> durable_floor c \<le> durable_floor c'"
proof (induction c ws loaded rule: retire_durable_prefix.induct)
  case (1 c ws loaded)
  note eq = retire_durable_prefix.simps [of c ws loaded]
  show ?case
  proof (cases "durable_floor c < next_id c \<and> retire_durable_prefix c ws loaded \<noteq> (c, ws)")
    case True
    then have lt: "durable_floor c < next_id c" by simp
    show ?thesis
    proof (cases "map_of (pending_acks c) (durable_floor c)")
      case None
      then show ?thesis using "1.IH"(1) [OF lt None] "1.prems" lt eq by simp
    next
      case (Some s)
      then obtain w where "map_of ws s = Some w" "w \<le> loaded"
        using True lt eq by (auto split: option.splits if_splits)
      then show ?thesis using "1.IH"(2) [OF lt Some] "1.prems" lt eq Some by simp
    qed
  next
    case False
    then show ?thesis using "1.prems" eq by auto
  qed
qed

lemma channel_inv_mono:
  "channel_inv E syn ch c \<Longrightarrow> syn \<le> syn' \<Longrightarrow> E \<subseteq> E' \<Longrightarrow> (\<And>i s. Issued ch i s \<in> E' \<Longrightarrow> Issued ch i s \<in> E)
    \<Longrightarrow> channel_inv E' syn' ch c"
proof -
  assume inv: "channel_inv E syn ch c" and le: "syn \<le> syn'" "E \<subseteq> E'"
    and iss: "\<And>i s. Issued ch i s \<in> E' \<Longrightarrow> Issued ch i s \<in> E"
  then have iff: "Issued ch i s \<in> E' \<longleftrightarrow> Issued ch i s \<in> E" for i s
    by blast
  have "\<exists>s w. Issued ch i s \<in> E \<and> Bound s w \<in> E' \<and> w \<le> syn'" if "i < durable_floor c" for i
    using inv that le unfolding channel_inv_def by (meson le_trans subsetD)
  with inv show "channel_inv E' syn' ch c"
    unfolding channel_inv_def iff by blast
qed

lemma ack_inv_issue:
  assumes inv: "ack_inv E syn C W" and fresh: "\<forall>ch' i'. Issued ch' i' s \<notin> E"
  shows "ack_inv (insert (Issued ch (next_id (C ch)) s) E) syn
    (C(ch := (C ch)\<lparr>next_id := next_id (C ch) + 1,
       pending_acks := AList.update (next_id (C ch)) s (pending_acks (C ch))\<rparr>)) W"
    (is "ack_inv ?E syn (C(ch := ?c)) W")
proof -
  have old: "channel_inv E syn ch' (C ch')" for ch'
    using inv by (simp add: ack_inv_def)
  have "channel_inv ?E syn ch ?c"
    using old [of ch]
    by (auto simp: channel_inv_def update_conv' distinct_update less_Suc_eq le_less)
  moreover have "channel_inv ?E syn ch' (C ch')" if "ch' \<noteq> ch" for ch'
    by (rule channel_inv_mono [OF old]) (use that in auto)
  ultimately have chans: "channel_inv ?E syn ch' ((C(ch := ?c)) ch')" for ch'
    by auto
  have floor: "durable_floor ((C(ch := ?c)) ch') = durable_floor (C ch')" for ch'
    by simp
  have "W s' = Some w \<or> (\<exists>ch i. Issued ch i s' \<in> ?E \<and> i < durable_floor (C ch))" if "Bound s' w \<in> ?E" for s' w
  proof -
    have "Bound s' w \<in> E" using that by simp
    then show ?thesis using inv unfolding ack_inv_def by (meson insertCI)
  qed
  moreover have "Bound s' w \<in> ?E" if "W s' = Some w" for s' w
    using inv that unfolding ack_inv_def by simp
  moreover have "ch2 = ch1 \<and> i2 = i1" if "Issued ch1 i1 s' \<in> ?E" "Issued ch2 i2 s' \<in> ?E" for ch1 i1 ch2 i2 s'
    using that inv fresh unfolding ack_inv_def by (cases "s' = s") auto
  ultimately show ?thesis
    using chans unfolding ack_inv_def floor by blast
qed

lemma published_append [simp]: "published (h @ h') = max (published h) (published h')"
  by (induction h rule: published.induct) auto

lemma channel_of_update [simp]:
  "channel_of (t\<lparr>channels := AList.update ch c (channels t)\<rparr>) = (channel_of t)(ch := c)"
  by (auto simp: channel_of_def update_conv' fun_eq_iff)

lemma channel_of_touch [simp]:
  "channel_of (t\<lparr>watermarks := ws\<rparr>) = channel_of t" "channel_of (t\<lparr>next_batch := n\<rparr>) = channel_of t"
  by (auto simp: channel_of_def fun_eq_iff)

lemma ack_inv_same_issues:
  assumes "ack_inv E syn C W" "syn \<le> syn'" "E \<subseteq> E'" "\<And>ch i s. Issued ch i s \<in> E' \<longleftrightarrow> Issued ch i s \<in> E"
    "\<And>s w. Bound s w \<in> E' \<Longrightarrow> Bound s w \<in> E \<or> W' s = Some w"
    "\<And>s w. W' s = Some w \<Longrightarrow> Bound s w \<in> E'" "\<And>s w. W s = Some w \<Longrightarrow> W' s = Some w"
  shows "ack_inv E' syn' C W'"
proof -
  have "channel_inv E' syn' ch (C ch)" for ch
    by (rule channel_inv_mono [OF _ assms(2,3)]) (use assms(1,4) in \<open>auto simp: ack_inv_def\<close>)
  moreover have "W' s = Some w \<or> (\<exists>ch i. Issued ch i s \<in> E' \<and> i < durable_floor (C ch))" if "Bound s w \<in> E'" for s w
    using assms(1,3,5,7) that unfolding ack_inv_def by (meson subsetD)
  moreover have "ch' = ch \<and> i' = i" if "Issued ch i s \<in> E'" "Issued ch' i' s \<in> E'" for ch i ch' i' s
    using assms(1,4) that unfolding ack_inv_def by blast
  ultimately show ?thesis
    using assms(6) unfolding ack_inv_def by blast
qed

lemma ack_reach_inv:
  assumes "ack_reach h t"
  shows "ack_inv (set h) (published h) (channel_of t) (map_of (watermarks t))"
  using assms
proof induction
  case start
  show ?case
    by (simp add: ack_inv_def channel_inv_def ack_new_def channel_of_def channel_default_def)
next
  case (seq h t s t')
  then have t': "t' = t\<lparr>next_batch := next_batch t + 1\<rparr>"
    by (auto simp: next_batch_seq_def)
  have "ack_inv (set (h @ [Seq s])) (published (h @ [Seq s])) (channel_of t) (map_of (watermarks t))"
    by (rule ack_inv_same_issues [OF seq.IH]) (use seq.IH in \<open>auto simp: ack_inv_def\<close>)
  then show ?case
    by (simp add: t')
next
  case (issue h t s loaded ch i t')
  let ?c = "(channel_of t ch)\<lparr>next_id := next_id (channel_of t ch) + 1,
       pending_acks := AList.update (next_id (channel_of t ch)) s (pending_acks (channel_of t ch))\<rparr>"
  obtain c2 ws where ret: "retire_durable_prefix ?c (watermarks t) loaded = (c2, ws)"
    by (cases "retire_durable_prefix ?c (watermarks t) loaded")
  have t': "i = next_id (channel_of t ch)" "t' = t\<lparr>channels := AList.update ch c2 (channels t), watermarks := ws\<rparr>"
    using issue.hyps(5) ret by (auto simp: issue_def Let_def)
  from retire_inv [OF ack_inv_issue [OF issue.IH issue.hyps(3)] issue.hyps(4) ret]
  show ?case
    by (simp add: t' fun_upd_def)
next
  case (bind h t s w)
  have none: "map_of (watermarks t) s = None"
    using bind unfolding ack_inv_def by (metis option.exhaust)
  have "channel_of (bind_batch t s w) = channel_of t"
    by (simp add: bind_batch_def)
  then show ?case
    by (simp only:) (rule ack_inv_same_issues [OF bind.IH],
      use none bind.IH in \<open>auto simp: bind_batch_def update_conv' ack_inv_def split: if_splits\<close>)
next
  case (publish h t n)
  show ?case
    by (rule ack_inv_same_issues [OF publish.IH]) (use publish.IH in \<open>auto simp: ack_inv_def\<close>)
qed

section \<open>What a poll answers\<close>

lemma query_answer:
  assumes "ack_reach h t" "loaded \<le> published h" "(i, b) \<in> set (query loaded t ch ids)"
  shows "b \<longleftrightarrow> i < durable_floor (channel_of t ch) \<or> durable_ack h loaded ch i"
proof -
  let ?c = "channel_of t ch"
  have ci: "channel_inv (set h) (published h) ch ?c"
    and W: "\<And>s w. map_of (watermarks t) s = Some w \<Longrightarrow> Bound s w \<in> set h"
      "\<And>s w. Bound s w \<in> set h \<Longrightarrow> map_of (watermarks t) s = Some w
        \<or> (\<exists>ch i. Issued ch i s \<in> set h \<and> i < durable_floor (channel_of t ch))"
    and uniq: "\<And>ch i ch' i' s. Issued ch i s \<in> set h \<Longrightarrow> Issued ch' i' s \<in> set h \<Longrightarrow> ch' = ch \<and> i' = i"
    using ack_reach_inv [OF assms(1)] unfolding ack_inv_def by blast+
  have pend: "(Issued ch i s \<in> set h) = (map_of (pending_acks ?c) i = Some s)" if "durable_floor ?c \<le> i" for s
    using ci that unfolding channel_inv_def by blast
  have mark: "Bound s w \<in> set h \<longleftrightarrow> map_of (watermarks t) s = Some w"
    if "durable_floor ?c \<le> i" "Issued ch i s \<in> set h" for s w
    using W uniq that by (metis leD)
  have dur: "durable_ack h loaded ch i \<longleftrightarrow>
      (\<exists>s w. map_of (pending_acks ?c) i = Some s \<and> map_of (watermarks t) s = Some w \<and> w \<le> loaded)"
    if "durable_floor ?c \<le> i"
    unfolding durable_ack_def using pend mark that by metis
  show ?thesis
  proof (cases "map_of (channels t) ch")
    case None
    then have c: "?c = channel_default" by (simp add: channel_of_def)
    with None assms(3) dur show ?thesis
      by (auto simp: query_def channel_default_def)
  next
    case (Some c)
    then have "?c = c" by (simp add: channel_of_def)
    with Some assms(3) dur show ?thesis
      by (auto simp: query_def not_less split: if_splits option.splits bind_splits)
  qed
qed

lemma below_floor_durable:
  "ack_reach h t \<Longrightarrow> i < durable_floor (channel_of t ch) \<Longrightarrow> durable_ack h (published h) ch i"
  using ack_reach_inv [of h t] unfolding ack_inv_def channel_inv_def durable_ack_def by blast

lemma durable_ack_mono:
  "durable_ack h n ch i \<Longrightarrow> n \<le> m \<Longrightarrow> durable_ack (h @ h') m ch i"
  unfolding durable_ack_def by (auto intro: le_trans)

text \<open>
  C5. The ack endpoint tells the truth both ways. In every interleaving of issues, binds and
  published counts, a poll that loaded the count \<open>loaded\<close> answers \<open>True\<close> for an id only if the id was
  issued on that channel for a batch whose record count is covered by what is published, and it
  does answer \<open>True\<close> if that count is covered by the loaded value. Retiring entries changes no answer.
\<close>

theorem ack_query_sound_complete:
  assumes "ack_reach h t" and "loaded \<le> published h" and "(i, b) \<in> set (query loaded t ch ids)"
  shows "(b \<longrightarrow> durable_ack h (published h) ch i) \<and> (durable_ack h loaded ch i \<longrightarrow> b)"
  using query_answer [OF assms] below_floor_durable [OF assms(1)] durable_ack_mono [of h loaded ch i _ "[]"] assms(2)
  by auto

text \<open>
  C16. An acknowledgement is never retracted: an id that was answered \<open>True\<close> is answered \<open>True\<close> by every
  later poll, whatever was issued, bound, published and retired in between.
\<close>

theorem ack_true_is_stable:
  assumes "ack_reach h t" and "loaded \<le> published h" and "(i, True) \<in> set (query loaded t ch ids)"
    and "ack_reach (h @ h') t'" and "published h \<le> loaded'" and "loaded' \<le> published (h @ h')"
    and "(i, b) \<in> set (query loaded' t' ch ids')"
  shows b
proof -
  have "durable_ack h (published h) ch i"
    using query_answer [OF assms(1-3)] below_floor_durable [OF assms(1)] durable_ack_mono [of h loaded ch i _ "[]"] assms(2)
    by auto
  then have "durable_ack (h @ h') loaded' ch i"
    using durable_ack_mono assms(5) by blast
  then show b
    using query_answer [OF assms(4,6,7)] by blast
qed

text \<open>
  The number of outstanding acks of a channel is exactly the ids issued and not yet retired, and
  a channel that was admitted by the capacity check has at most the limit outstanding after the
  issue that follows.
\<close>

theorem outstanding_is_bounded:
  assumes "ack_reach h t" and "has_capacity t ch" and "Seq s \<in> set h" and "\<forall>ch' i'. Issued ch' i' s \<notin> set h"
    and "loaded \<le> published h" and "issue loaded t ch s = (i, t')"
  shows "i = next_id (channel_of t ch)
    \<and> length (pending_acks (channel_of t' ch)) = next_id (channel_of t' ch) - durable_floor (channel_of t' ch)
    \<and> length (pending_acks (channel_of t' ch)) \<le> MAX_OUTSTANDING_PER_CHANNEL"
proof -
  have len: "length (pending_acks (channel_of u ch)) = next_id (channel_of u ch) - durable_floor (channel_of u ch)"
    if "ack_reach g u" for g u
  proof -
    have ci: "channel_inv (set g) (published g) ch (channel_of u ch)"
      using ack_reach_inv [OF that] by (simp add: ack_inv_def)
    then have "card (dom (map_of (pending_acks (channel_of u ch)))) = length (pending_acks (channel_of u ch))"
      by (metis channel_inv_def distinct_card dom_map_of_conv_image_fst length_map list.set_map)
    with ci show ?thesis by (simp add: channel_inv_def)
  qed
  have "length (pending_acks (channel_of t ch)) < MAX_OUTSTANDING_PER_CHANNEL"
    using assms(2) by (auto simp: has_capacity_def channel_of_def channel_default_def
        MAX_OUTSTANDING_PER_CHANNEL_def split: option.splits)
  moreover have "i = next_id (channel_of t ch)" "next_id (channel_of t' ch) = next_id (channel_of t ch) + 1"
    "durable_floor (channel_of t ch) \<le> durable_floor (channel_of t' ch)"
    using assms(6) by (auto simp: issue_def Let_def split: prod.splits dest!: retire_grow)
  ultimately show ?thesis
    using len [OF assms(1)] len [OF ack_reach.issue [OF assms(1,3-6)]] by auto
qed

text \<open>
  A batch that is bound but never issued keeps its watermark for good: in every later state the
  entry is there. The record path binds every batch, also those posted without a channel, for which
  no id is ever issued.
\<close>

theorem unissued_watermark_stays:
  assumes "ack_reach h t" and "Bound s w \<in> set h" and "\<forall>ch i. Issued ch i s \<notin> set h"
  shows "map_of (watermarks t) s = Some w"
  using ack_reach_inv [OF assms(1)] assms(2,3) unfolding ack_inv_def by blast

section \<open>A concrete run\<close>

text \<open>Two batches on channel \<open>c\<close>: the first is issued, bound and published, then the second is issued.\<close>

definition demo_t1 :: ack_table where "demo_t1 = snd (next_batch_seq (snd (next_batch_seq ack_new)))"
definition demo_t2 :: ack_table where "demo_t2 = bind_batch (snd (issue 0 demo_t1 ''c'' 1)) 1 3"
definition demo_t3 :: ack_table where "demo_t3 = snd (issue 3 demo_t2 ''c'' 2)"

definition demo_h2 :: "ack_event list" where
  "demo_h2 = [] @ [Seq 1] @ [Seq 2] @ [Issued ''c'' 0 1] @ [Bound 1 3] @ [Published 3]"

lemma demo_steps:
  "next_batch_seq ack_new = (1, ack_new\<lparr>next_batch := 2\<rparr>)"
  "next_batch_seq (ack_new\<lparr>next_batch := 2\<rparr>) = (2, demo_t1)"
  "issue 0 demo_t1 ''c'' 1 = (0, snd (issue 0 demo_t1 ''c'' 1))"
  "issue 3 demo_t2 ''c'' 2 = (1, demo_t3)"
  by code_simp+

lemma demo_reach2: "ack_reach demo_h2 demo_t2"
  unfolding demo_h2_def demo_t2_def append_assoc [symmetric]
  by (intro ack_reach.publish ack_reach.bind ack_reach.issue [OF _ _ _ _ demo_steps(3)]
      ack_reach.seq [OF _ demo_steps(2)] ack_reach.seq [OF _ demo_steps(1)] ack_reach.start) simp_all

lemma demo_reach3: "ack_reach (demo_h2 @ [Issued ''c'' 1 2]) demo_t3"
  by (rule ack_reach.issue [OF demo_reach2 _ _ _ demo_steps(4)]) (simp_all add: demo_h2_def)

lemma demo_queries:
  "query 3 demo_t2 ''c'' [0, 1] = [(0, True), (1, False)]"
  "query 3 demo_t3 ''c'' [0, 1] = [(0, True), (1, False)]"
  by code_simp+

theorem ack_query_sound_complete_witness:
  "query 3 demo_t2 ''c'' [0, 1] = [(0, True), (1, False)] \<and> durable_ack demo_h2 3 ''c'' 0 \<and> \<not> durable_ack demo_h2 3 ''c'' 1"
  using ack_query_sound_complete [OF demo_reach2, of 3 0 True "''c''" "[0, 1]"]
    ack_query_sound_complete [OF demo_reach2, of 3 1 False "''c''" "[0, 1]"] demo_queries
  by (simp add: demo_h2_def)

theorem ack_true_is_stable_witness:
  "query 3 demo_t3 ''c'' [0] = [(0, True)] \<and> durable_floor (channel_of demo_t3 ''c'') = 1"
proof -
  have "b" if "(0, b) \<in> set (query 3 demo_t3 ''c'' [0])" for b
    using ack_true_is_stable [OF demo_reach2, of 3 0 "''c''" "[0, 1]" "[Issued ''c'' 1 2]" demo_t3 3 b "[0]"]
      demo_reach3 demo_queries(1) that by (simp add: demo_h2_def)
  moreover have "query 3 demo_t3 ''c'' [0] = [(0, snd (hd (query 3 demo_t3 ''c'' [0])))]"
    by code_simp
  moreover have "durable_floor (channel_of demo_t3 ''c'') = 1"
    by code_simp
  ultimately show ?thesis
    by (metis list.set_intros(1))
qed

theorem outstanding_is_bounded_witness:
  "length (pending_acks (channel_of demo_t3 ''c'')) \<le> MAX_OUTSTANDING_PER_CHANNEL \<and> has_capacity demo_t2 ''c''"
proof -
  have "has_capacity demo_t2 ''c''" by code_simp
  then show ?thesis
    using outstanding_is_bounded [OF demo_reach2 _ _ _ _ demo_steps(4)] by (simp add: demo_h2_def)
qed

theorem unissued_watermark_stays_witness:
  "map_of (watermarks (bind_batch demo_t1 2 5)) 2 = Some 5"
proof -
  have "ack_reach (([] @ [Seq 1] @ [Seq 2]) @ [Bound 2 5]) (bind_batch demo_t1 2 5)"
    unfolding append_assoc [symmetric]
    by (intro ack_reach.bind ack_reach.seq [OF _ demo_steps(2)] ack_reach.seq [OF _ demo_steps(1)] ack_reach.start) simp_all
  from unissued_watermark_stays [OF this, of 2 5] show ?thesis
    by simp
qed

end
