(* ===== verification/Dedupe.thy ===== *)
theory Dedupe
  imports Prelude
begin

text \<open>
  The window of recently accepted event ids of the peer endpoint (\<^verbatim>\<open>peer.rs\<close>, \<^verbatim>\<open>DedupeWindow\<close>) and
  the id log that makes it survive a restart. The file is its bytes; every call takes the lock, so
  the methods are the atomic steps. The answers of the operating system to a write, a sync and the
  steps of a compaction are arguments. After a rename whose new file could not be reopened, the
  process goes on writing to the unlinked old file: \<open>log_attached\<close> says whether the handle still is
  the file under the path.
\<close>

section \<open>Ids as bytes\<close>

type_synonym uuid = "128 word"

definition uuid_from_bytes :: "bytes \<Rightarrow> uuid" where
  "uuid_from_bytes bs = word_rcat bs"

definition ids_bytes :: "uuid list \<Rightarrow> bytes" where
  "ids_bytes ids = concat (map uuid_as_bytes ids)"

text \<open>\<^verbatim>\<open>chunks_exact(16)\<close>, each read as an id.\<close>

function file_ids :: "bytes \<Rightarrow> uuid list" where
  "file_ids bs = (if length bs < 16 then [] else uuid_from_bytes (take 16 bs) # file_ids (drop 16 bs))"
  by pat_completeness auto
termination
  by (relation "measure length") auto

declare file_ids.simps [simp del]

lemma horner_bytes:
  "horner_sum uint 256 (map (\<lambda>i. ucast (drop_bit (8 * i) (u :: uuid)) :: byte) [0..<n]) = take_bit (8 * n) (uint u)"
proof (induction n)
  case (Suc n)
  have "uint (ucast (drop_bit (8 * n) u) :: byte) = take_bit 8 (drop_bit (8 * n) (uint u))"
  proof -
    have "take_bit 128 (uint u) = uint u"
      using uint_lt2p [of u] by (simp add: take_bit_int_eq_self_iff)
    then show ?thesis
      by (simp add: unsigned_ucast_eq unsigned_drop_bit_eq)
  qed
  moreover have "take_bit (8 * Suc n) (uint u)
      = take_bit (8 * n) (uint u) + 2 ^ (8 * n) * take_bit 8 (drop_bit (8 * n) (uint u))"
  proof -
    have "(2 :: int) ^ (8 * Suc n) = 2 ^ (8 * n) * 256"
      by (simp add: power_add)
    then show ?thesis
      unfolding take_bit_eq_mod drop_bit_eq_div using zmod_zmult2_eq [of 256 "uint u" "2 ^ (8 * n)"] by simp
  qed
  ultimately show ?case
    using Suc.IH by (simp add: horner_sum_append power_mult)
qed simp

lemma uuid_bytes_roundtrip [simp]: "uuid_from_bytes (uuid_as_bytes u) = u"
proof -
  have u: "take_bit 128 (uint u) = uint u"
    using uint_lt2p [of u] by (simp add: take_bit_int_eq_self_iff)
  have "rev (uuid_as_bytes u) = map (\<lambda>i. ucast (drop_bit (8 * i) u) :: byte) [0..<16]"
    by (simp add: uuid_as_bytes_def upt_rec)
  then show ?thesis
    using horner_bytes [of u 16] by (simp add: uuid_from_bytes_def word_rcat_def u)
qed

lemma file_ids_short: "length bs < 16 \<Longrightarrow> file_ids bs = []"
  by (subst file_ids.simps) simp

lemma file_ids_bytes: "file_ids (ids_bytes ids @ rest) = ids @ file_ids rest"
proof (induction ids)
  case (Cons u ids)
  then show ?case
    by (subst file_ids.simps) (simp add: ids_bytes_def)
qed (simp add: ids_bytes_def)

lemma length_ids_bytes [simp]: "length (ids_bytes ids) = 16 * length ids"
  by (induction ids) (simp_all add: ids_bytes_def)

lemma ids_bytes_append [simp]: "ids_bytes (xs @ ys) = ids_bytes xs @ ids_bytes ys"
  by (simp add: ids_bytes_def)

section \<open>The window\<close>

record id_log =
  log_bytes :: bytes
  log_attached :: bool
  log_ids :: nat

record dedupe_window =
  win_capacity :: nat
  win_set :: "uuid set"
  win_order :: "uuid list"
  win_log :: "id_log option"

text \<open>A compaction either fails before the rename, or after it when the new file is reopened.\<close>

datatype compact_answer = CompactOk | BeforeRename | AfterRename

record id_io =
  id_write_fails :: "nat option"
  id_sync_ok :: bool
  id_compact :: compact_answer

definition dedupe_new :: "nat \<Rightarrow> dedupe_window" where
  "dedupe_new capacity = \<lparr>win_capacity = max capacity 1, win_set = {}, win_order = [], win_log = None\<rparr>"

fun forget_oldest :: "nat \<Rightarrow> uuid list \<Rightarrow> uuid set \<Rightarrow> uuid list \<times> uuid set" where
  "forget_oldest capacity [] s = ([], s)"
| "forget_oldest capacity (old # order) s =
     (if capacity < length (old # order) then forget_oldest capacity order (s - {old}) else (old # order, s))"

definition remember :: "uuid \<Rightarrow> dedupe_window \<Rightarrow> bool \<times> dedupe_window" where
  "remember i w =
     (if i \<in> win_set w then (False, w)
      else (let (order, s) = forget_oldest (win_capacity w) (win_order w @ [i]) (insert i (win_set w))
            in (True, w\<lparr>win_order := order, win_set := s\<rparr>)))"

definition dedupe_open :: "nat \<Rightarrow> bytes option \<Rightarrow> bool \<Rightarrow> dedupe_window option" where
  "dedupe_open capacity content set_len_ok = (case content of
     None \<Rightarrow> None
   | Some bs \<Rightarrow>
       let whole = length bs div 16 * 16; ids = whole div 16; w = dedupe_new capacity
       in if whole \<noteq> length bs \<and> \<not> set_len_ok then None
          else Some ((fold (\<lambda>i w. snd (remember i w)) (drop (ids - win_capacity w) (file_ids (take whole bs))) w)
            \<lparr>win_log := Some \<lparr>log_bytes = take whole bs, log_attached = True, log_ids = ids\<rparr>\<rparr>))"

definition win_contains :: "dedupe_window \<Rightarrow> uuid \<Rightarrow> bool" where
  "win_contains w i \<longleftrightarrow> i \<in> win_set w"

definition win_len :: "dedupe_window \<Rightarrow> nat" where
  "win_len w = length (win_order w)"

definition log_write :: "bytes \<Rightarrow> id_log \<Rightarrow> id_log" where
  "log_write bs l = (if log_attached l then l\<lparr>log_bytes := log_bytes l @ bs\<rparr> else l)"

definition log_compact :: "compact_answer \<Rightarrow> uuid list \<Rightarrow> id_log \<Rightarrow> (unit + unit) \<times> id_log" where
  "log_compact answer window l = (case answer of
     BeforeRename \<Rightarrow> (Inl (), l)
   | AfterRename \<Rightarrow> (Inl (), l\<lparr>log_bytes := ids_bytes window, log_attached := False\<rparr>)
   | CompactOk \<Rightarrow> (Inr (), l\<lparr>log_bytes := ids_bytes window, log_attached := True, log_ids := length window\<rparr>))"

fun remember_all :: "uuid list \<Rightarrow> dedupe_window \<Rightarrow> bytes \<times> dedupe_window" where
  "remember_all [] w = ([], w)"
| "remember_all (i # ids) w =
     (let (new, w1) = remember i w; (fresh, w2) = remember_all ids w1
      in ((if new \<and> win_log w1 \<noteq> None then uuid_as_bytes i @ fresh else fresh), w2))"

definition insert_all :: "id_io \<Rightarrow> uuid list \<Rightarrow> dedupe_window \<Rightarrow> (unit + unit) \<times> dedupe_window" where
  "insert_all io ids w = (let (fresh, w1) = remember_all ids w in
     case win_log w1 of
       None \<Rightarrow> (Inr (), w1)
     | Some l \<Rightarrow>
         if fresh = [] then (Inr (), w1)
         else case id_write_fails io of
           Some k \<Rightarrow> (Inl (), w1\<lparr>win_log := Some (log_write (take k fresh) l)\<rparr>)
         | None \<Rightarrow>
             let l1 = log_write fresh l
             in if \<not> id_sync_ok io then (Inl (), w1\<lparr>win_log := Some l1\<rparr>)
                else let l2 = l1\<lparr>log_ids := log_ids l1 + length fresh div 16\<rparr>
                     in if min (win_capacity w1 * 2) u64_max < log_ids l2
                        then (case log_compact (id_compact io) (win_order w1) l2 of
                          (res, l3) \<Rightarrow> (res, w1\<lparr>win_log := Some l3\<rparr>))
                        else (Inr (), w1\<lparr>win_log := Some l2\<rparr>))"

section \<open>The window is the end of the log\<close>

definition last_n :: "nat \<Rightarrow> 'a list \<Rightarrow> 'a list" where
  "last_n n xs = drop (length xs - n) xs"

lemma last_n_append1: "0 < n \<Longrightarrow> last_n n (xs @ [x]) = last_n n (last_n n xs @ [x])"
  by (cases "length xs \<le> n") (auto simp: last_n_def Suc_diff_le)

lemma set_last_n: "set (last_n n xs) \<subseteq> set xs"
  by (simp add: last_n_def set_drop_subset)

lemma set_last_n_append1: "0 < n \<Longrightarrow> set (last_n n (xs @ [x])) \<subseteq> insert x (set (last_n n xs))"
  using set_last_n [of n "last_n n xs @ [x]"] last_n_append1 [of n xs x] by simp

lemma length_last_n [simp]: "length (last_n n xs) = min n (length xs)"
  by (simp add: last_n_def)

lemma last_n_all: "length xs \<le> n \<Longrightarrow> last_n n xs = xs"
  by (simp add: last_n_def)

lemma forget_oldest_eq:
  "distinct order \<Longrightarrow> s = set order \<Longrightarrow> forget_oldest n order s = (last_n n order, set (last_n n order))"
proof (induction n order s rule: forget_oldest.induct)
  case (2 n old order s)
  then show ?case
    by (auto simp: last_n_def Suc_diff_le not_less)
qed (simp add: last_n_def)

definition win_over :: "nat \<Rightarrow> uuid list \<Rightarrow> dedupe_window \<Rightarrow> bool" where
  "win_over capacity ids w \<longleftrightarrow> 0 < capacity \<and> win_capacity w = capacity \<and> win_order w = last_n capacity ids
     \<and> distinct (last_n capacity ids) \<and> win_set w = set (last_n capacity ids)"

lemma remember_over:
  assumes "win_over n L w" "remember i w = (new, w')"
  shows "win_over n (if new then L @ [i] else L) w'" "win_log w' = win_log w"
    "new \<longleftrightarrow> \<not> win_contains w i" "win_contains w' i"
proof -
  let ?O = "last_n n L"
  have inv: "0 < n" "win_capacity w = n" "win_order w = ?O" "distinct ?O" "win_set w = set ?O"
    using assms(1) by (simp_all add: win_over_def)
  have "win_over n (if new then L @ [i] else L) w' \<and> win_log w' = win_log w
    \<and> new = (\<not> win_contains w i) \<and> win_contains w' i"
  proof (cases "i \<in> set ?O")
    case True
    then show ?thesis
      using assms inv by (simp add: remember_def win_contains_def)
  next
    case False
    then have d: "distinct (?O @ [i])" "insert i (set ?O) = set (?O @ [i])"
      using inv by simp_all
    have new: "new" "w' = w\<lparr>win_order := last_n n (?O @ [i]), win_set := set (last_n n (?O @ [i]))\<rparr>"
      using assms(2) False unfolding remember_def inv(2,3,5) d(2) forget_oldest_eq [OF d(1) refl] by auto
    have "distinct (last_n n (?O @ [i]))"
      unfolding last_n_def [of n "_ @ [i]"] by (rule distinct_drop [OF d(1)])
    moreover have "i \<in> set (last_n n (?O @ [i]))"
      using inv(1) by (simp add: last_n_def)
    ultimately show ?thesis
      using new inv False last_n_append1 [OF inv(1), of L i] by (simp add: win_over_def win_contains_def)
  qed
  then show "win_over n (if new then L @ [i] else L) w'" "win_log w' = win_log w"
    "new \<longleftrightarrow> \<not> win_contains w i" "win_contains w' i"
    by blast+
qed

text \<open>The ids a batch adds to the log, and what the log looks like when only some of them get there.\<close>

lemma remember_all_over:
  assumes "win_over n L w" "remember_all ids w = (fresh, w')"
  obtains F where "win_log w \<noteq> None \<longrightarrow> fresh = ids_bytes F" "win_over n (L @ F) w'" "win_log w' = win_log w"
    "set F \<subseteq> set ids" "length F \<le> length ids" "\<forall>j. distinct (last_n n (L @ take j F))"
    "\<forall>i \<in> set ids. i \<notin> win_set w \<longrightarrow> i \<in> set F"
proof -
  have "\<exists>F. (win_log w \<noteq> None \<longrightarrow> fresh = ids_bytes F) \<and> win_over n (L @ F) w' \<and> win_log w' = win_log w
    \<and> set F \<subseteq> set ids \<and> length F \<le> length ids
    \<and> (\<forall>j. distinct (last_n n (L @ take j F))) \<and> (\<forall>i \<in> set ids. i \<notin> win_set w \<longrightarrow> i \<in> set F)"
    using assms
  proof (induction ids arbitrary: L w fresh)
    case Nil
    then show ?case
      by (intro exI [of _ "[]"]) (simp add: ids_bytes_def win_over_def)
  next
    case (Cons i ids)
    obtain new w1 fresh1 where step: "remember i w = (new, w1)" "remember_all ids w1 = (fresh1, w')"
      using Cons.prems(2) by (auto split: prod.splits)
    note r = remember_over [OF Cons.prems(1) step(1)]
    let ?L = "if new then L @ [i] else L"
    obtain F where F: "win_log w1 \<noteq> None \<longrightarrow> fresh1 = ids_bytes F" "win_over n (?L @ F) w'" "win_log w' = win_log w1"
      "set F \<subseteq> set ids" "length F \<le> length ids" "\<forall>j. distinct (last_n n (?L @ take j F))"
      "\<forall>i \<in> set ids. i \<notin> win_set w1 \<longrightarrow> i \<in> set F"
      using Cons.IH [OF r(1) step(2)] by auto
    have keep: "k \<in> insert i (win_set w)" if "k \<in> win_set w1" for k
      using r(1) Cons.prems(1) that set_last_n_append1 [of n L i] by (auto simp: win_over_def split: if_splits)
    let ?F = "(if new then [i] else []) @ F"
    have "win_log w \<noteq> None \<longrightarrow> fresh = ids_bytes ?F"
      using Cons.prems(2) step r(2) F(1) by (auto simp: ids_bytes_def split: if_splits)
    moreover have "win_over n (L @ ?F) w'" "win_log w' = win_log w" "set ?F \<subseteq> set (i # ids)"
      using F(2,3,4) r(2) by (auto split: if_splits)
    moreover have "length ?F \<le> length (i # ids)"
      using F(5) by simp
    moreover have "distinct (last_n n (L @ take j ?F))" for j
      using F(6) Cons.prems(1) by (cases j) (auto simp: win_over_def split: if_splits)
    moreover have "\<forall>k \<in> set (i # ids). k \<notin> win_set w \<longrightarrow> k \<in> set ?F"
      using F(7) keep r(3) by (auto simp: win_contains_def)
    ultimately show ?case by blast
  qed
  then show thesis using that by blast
qed

lemma remember_all_window:
  assumes "win_over n L w" "remember_all ids w = (fresh, w')"
  shows "\<exists>F. win_over n (L @ F) w' \<and> length F \<le> length ids \<and> (\<forall>i \<in> set ids. i \<notin> win_set w \<longrightarrow> i \<in> set F)"
  using remember_all_over [OF assms] by metis

section \<open>Restarts\<close>

lemma fold_remember_distinct:
  assumes "win_over n P w" "distinct (P @ xs)" "length (P @ xs) \<le> n"
  shows "win_over n (P @ xs) (fold (\<lambda>i w. snd (remember i w)) xs w) \<and>
    win_log (fold (\<lambda>i w. snd (remember i w)) xs w) = win_log w"
  using assms
proof (induction xs arbitrary: P w)
  case (Cons i xs)
  obtain new w1 where step: "remember i w = (new, w1)"
    by (metis surj_pair)
  note r = remember_over [OF Cons.prems(1) step]
  have "new"
    using r(3) Cons.prems set_last_n [of n P] by (auto simp: win_contains_def win_over_def)
  then show ?case
    using Cons.IH [of "P @ [i]" w1] Cons.prems(2,3) r(1,2) step by simp
qed simp

definition win_saved :: "nat \<Rightarrow> uuid list \<Rightarrow> dedupe_window \<Rightarrow> bool" where
  "win_saved n L w \<longleftrightarrow> win_over n L w
     \<and> win_log w = Some \<lparr>log_bytes = ids_bytes L, log_attached = True, log_ids = length L\<rparr>"

text \<open>A saved window is determined by the ids of its log.\<close>

lemma win_saved_unique: "win_saved n L w \<Longrightarrow> win_saved n L w' \<Longrightarrow> w' = w"
  by (simp add: win_saved_def win_over_def)

lemma open_saved:
  assumes "distinct (last_n (max cap 1) L)" "length torn < 16" "ok \<or> torn = []"
  shows "\<exists>w. dedupe_open cap (Some (ids_bytes L @ torn)) ok = Some w \<and> win_saved (max cap 1) L w"
proof -
  let ?n = "max cap 1"
  have whole: "length (ids_bytes L @ torn) div 16 = length L"
    using assms(2) by simp
  have start: "win_over ?n [] (dedupe_new cap)"
    by (simp add: win_over_def dedupe_new_def last_n_def)
  define w where "w = fold (\<lambda>i w. snd (remember i w)) (last_n ?n L) (dedupe_new cap)"
  have ids: "file_ids (ids_bytes L) = L"
    using file_ids_bytes [of L "[]"] file_ids_short [of "[]"] by simp
  have "win_over ?n (last_n ?n L) w"
    using fold_remember_distinct [OF start, of "last_n ?n L"] assms(1) by (simp add: w_def)
  then have "win_over ?n L w"
    by (simp add: win_over_def last_n_all)
  then have "win_saved ?n L (w\<lparr>win_log := Some \<lparr>log_bytes = ids_bytes L, log_attached = True, log_ids = length L\<rparr>\<rparr>)"
    by (simp add: win_saved_def win_over_def)
  moreover have "dedupe_open cap (Some (ids_bytes L @ torn)) ok
      = Some (w\<lparr>win_log := Some \<lparr>log_bytes = ids_bytes L, log_attached = True, log_ids = length L\<rparr>\<rparr>)"
    using assms(3) whole ids by (auto simp: dedupe_open_def Let_def w_def last_n_def dedupe_new_def)
  ultimately show ?thesis by blast
qed

text \<open>
  Runs of one window over its file, always with the same capacity: batches that were saved, clean
  restarts, and kills in the middle of an append, which leave any part of the batch's bytes.
\<close>

inductive win_reach :: "nat \<Rightarrow> dedupe_window \<Rightarrow> bool" for cap where
  win_start: "dedupe_open cap (Some []) ok = Some w \<Longrightarrow> win_reach cap w"
| win_insert: "win_reach cap w \<Longrightarrow> insert_all io ids w = (Inr (), w') \<Longrightarrow> win_reach cap w'"
| win_restart: "win_reach cap w \<Longrightarrow> win_log w = Some l \<Longrightarrow> dedupe_open cap (Some (log_bytes l)) ok = Some w'
    \<Longrightarrow> win_reach cap w'"
| win_torn: "win_reach cap w \<Longrightarrow> id_write_fails io = Some k \<Longrightarrow> insert_all io ids w = (Inl (), w')
    \<Longrightarrow> win_log w' = Some l \<Longrightarrow> dedupe_open cap (Some (log_bytes l)) ok = Some w'' \<Longrightarrow> win_reach cap w''"

lemma insert_saved:
  assumes "win_saved n L w" "insert_all io ids w = (Inr (), w')"
  shows "\<exists>F L'. win_saved n L' w' \<and> last_n n L' = last_n n (L @ F) \<and> length F \<le> length ids
    \<and> (\<forall>i \<in> set ids. i \<notin> win_set w \<longrightarrow> i \<in> set F) \<and> (F \<noteq> [] \<longrightarrow> length L' \<le> 2 * n)"
proof -
  obtain fresh w1 where all: "remember_all ids w = (fresh, w1)"
    by (metis surj_pair)
  obtain F where F: "fresh = ids_bytes F" "win_over n (L @ F) w1" "win_log w1 = win_log w" "length F \<le> length ids"
    "\<forall>i \<in> set ids. i \<notin> win_set w \<longrightarrow> i \<in> set F"
    using remember_all_over [OF _ all, of n L] assms(1) unfolding win_saved_def by auto
  have eq: "fresh = [] \<longleftrightarrow> F = []" "length fresh div 16 = length F"
    unfolding F(1) by (auto simp flip: length_0_conv)
  have n: "win_order w1 = last_n n (L @ F)" "win_capacity w1 = n" "0 < n"
    using F(2) by (simp_all add: win_over_def)
  consider (same) "F = []" "w' = w1"
    | (grown) "F \<noteq> []" "length (L @ F) \<le> 2 * n"
        "w' = w1\<lparr>win_log := Some \<lparr>log_bytes = ids_bytes (L @ F), log_attached = True, log_ids = length (L @ F)\<rparr>\<rparr>"
    | (compacted) "F \<noteq> []"
        "w' = w1\<lparr>win_log := Some \<lparr>log_bytes = ids_bytes (win_order w1), log_attached = True, log_ids = length (win_order w1)\<rparr>\<rparr>"
    using assms eq F(1,3) n(2)
    by (auto simp: insert_all_def all win_saved_def log_write_def log_compact_def Let_def
        split: if_splits option.splits compact_answer.splits)
  then show ?thesis
  proof cases
    case same
    show ?thesis
      by (rule exI [of _ "[]"], rule exI [of _ L]) (use assms(1) F same in \<open>simp add: win_saved_def\<close>)
  next
    case grown
    show ?thesis
      by (rule exI [of _ F], rule exI [of _ "L @ F"]) (use F grown in \<open>simp add: win_saved_def win_over_def\<close>)
  next
    case compacted
    then have saved: "win_saved n (last_n n (L @ F)) w'"
      using F(2) n by (simp add: win_saved_def win_over_def last_n_all)
    show ?thesis
      by (rule exI [of _ F], rule exI [of _ "last_n n (L @ F)"]) (use F n(3) compacted saved in \<open>simp add: last_n_all\<close>)
  qed
qed

lemma win_reach_saved: "win_reach cap w \<Longrightarrow> \<exists>L. win_saved (max cap 1) L w"
proof (induction rule: win_reach.induct)
  case (win_start ok w)
  then show ?case
    using open_saved [of cap "[]" "[]" ok] by (auto simp: last_n_def ids_bytes_def)
next
  case (win_insert w io ids w')
  then show ?case using insert_saved by blast
next
  case (win_restart w l ok w')
  then obtain L where "win_saved (max cap 1) L w" by blast
  then show ?case
    using win_restart.hyps open_saved [of cap L "[]" ok] by (auto simp: win_saved_def win_over_def)
next
  case (win_torn w io k ids w' l ok w'')
  then obtain L where L: "win_saved (max cap 1) L w" by blast
  obtain fresh w1 where all: "remember_all ids w = (fresh, w1)"
    by (metis surj_pair)
  obtain F where F: "fresh = ids_bytes F" "win_log w1 = win_log w" "\<forall>j. distinct (last_n (max cap 1) (L @ take j F))"
    using remember_all_over [OF _ all, of "max cap 1" L] L unfolding win_saved_def by auto
  have "log_bytes l = ids_bytes L @ take k (ids_bytes F)"
    using win_torn.hyps L F(1,2)
    by (auto simp: insert_all_def all win_saved_def log_write_def Let_def split: if_splits)
  moreover have "take k (ids_bytes F) = ids_bytes (take (k div 16) F) @ take (k mod 16) (ids_bytes (drop (k div 16) F))"
  proof -
    let ?A = "ids_bytes (take (k div 16) F)" and ?B = "ids_bytes (drop (k div 16) F)"
    have "ids_bytes F = ?A @ ?B"
      by (metis append_take_drop_id ids_bytes_append)
    moreover have "take k ?A = ?A"
    proof (rule take_all)
      have "length ?A \<le> 16 * (k div 16)" by simp
      also have "\<dots> \<le> k" by (rule times_div_less_eq_dividend)
      finally show "length ?A \<le> k" .
    qed
    moreover have "take (k - length ?A) ?B = take (k mod 16) ?B"
    proof (cases "k div 16 \<le> length F")
      case True
      then have "k - length ?A = k mod 16"
        by (simp add: min_def minus_mult_div_eq_mod)
      then show ?thesis by (simp only:)
    qed (simp add: ids_bytes_def)
    ultimately show ?thesis
      by simp
  qed
  ultimately obtain torn where t: "log_bytes l = ids_bytes (L @ take (k div 16) F) @ torn" "length torn < 16"
    by (metis append.assoc ids_bytes_append length_take min.strict_coboundedI2 mod_less_divisor zero_less_numeral)
  show ?case
  proof (cases "ok \<or> torn = []")
    case True
    then show ?thesis
      using open_saved [of cap "L @ take (k div 16) F" torn ok] F(3) t win_torn.hyps by auto
  next
    case False
    then show ?thesis
      using win_torn.hyps t by (simp add: dedupe_open_def Let_def)
  qed
qed


text \<open>
  A partial write spoils the log for what follows. A batch whose write stops inside an id leaves
  its bytes in the file, and the process goes on: the next batch is appended behind them and saved
  without an error, but a restart reads the file in steps of sixteen bytes from the front and does
  not find its ids.
\<close>

theorem partial_write_garbles_log:
  "\<exists>w0 w1 w2 l w3. dedupe_open 4 (Some []) True = Some w0
    \<and> insert_all \<lparr>id_write_fails = Some 8, id_sync_ok = True, id_compact = CompactOk\<rparr> [1] w0 = (Inl (), w1)
    \<and> insert_all \<lparr>id_write_fails = None, id_sync_ok = True, id_compact = CompactOk\<rparr> [2] w1 = (Inr (), w2)
    \<and> win_log w2 = Some l \<and> win_contains w2 2
    \<and> dedupe_open 4 (Some (log_bytes l)) True = Some w3 \<and> \<not> win_contains w3 2"
proof -
  let ?w = "\<lambda>s l. \<lparr>win_capacity = 4, win_set = set s, win_order = s, win_log = Some l\<rparr>"
  let ?l = "\<lambda>bs n. \<lparr>log_bytes = bs, log_attached = True, log_ids = n\<rparr>"
  let ?one = "take 8 (uuid_as_bytes 1)" and ?two = "uuid_as_bytes 2"
  have open0: "dedupe_open 4 (Some []) True = Some (?w [] (?l [] 0))"
    by (simp add: dedupe_open_def Let_def file_ids_short dedupe_new_def)
  have ins1: "insert_all \<lparr>id_write_fails = Some 8, id_sync_ok = True, id_compact = CompactOk\<rparr> [1] (?w [] (?l [] 0))
      = (Inl (), ?w [1] (?l ?one 0))"
    by (simp add: insert_all_def remember_def log_write_def)
      (metis length_uuid_as_bytes list.size(3) zero_neq_numeral)
  have ins2: "insert_all \<lparr>id_write_fails = None, id_sync_ok = True, id_compact = CompactOk\<rparr> [2] (?w [1] (?l ?one 0))
      = (Inr (), ?w [1, 2] (?l (?one @ ?two) 1))"
    by (simp add: insert_all_def remember_def log_write_def insert_commute)
      (metis length_uuid_as_bytes list.size(3) zero_neq_numeral)
  have zero: "uuid_from_bytes (take 16 (?one @ ?two)) = 0"
    by code_simp
  have "file_ids (take 16 (?one @ ?two)) = [0]"
    by (subst file_ids.simps) (use zero in \<open>simp add: file_ids_short\<close>)
  then obtain w3 where "dedupe_open 4 (Some (?one @ ?two)) True = Some w3" "win_set w3 = {0}"
    by (simp add: dedupe_open_def Let_def dedupe_new_def remember_def)
  then show ?thesis
    using open0 ins1 ins2 by (intro exI conjI) (auto simp: win_contains_def)
qed

section \<open>A concrete run\<close>

definition demo_id_io :: id_io where
  "demo_id_io = \<lparr>id_write_fails = None, id_sync_ok = True, id_compact = CompactOk\<rparr>"

definition demo_win :: dedupe_window where
  "demo_win = the (dedupe_open 2 (Some []) True)"


end
