(* ===== verification/Wal_Acks.thy ===== *)
theory Wal_Acks
  imports Dedupe "HOL-Library.AList"
begin

text \<open>
  How a peer request learns that the write-ahead log has its batch (\<^verbatim>\<open>peer.rs\<close>, \<^verbatim>\<open>WalAcks\<close>): a ticket
  per batch, bound by the record path to a record count, and answered once the synced count the WAL
  writer publishes covers it. Tickets whose request gave up are kept for a while with the ids of
  their batch. The ticket map is an association list. Every method takes the lock; \<^verbatim>\<open>wait\<close> holds it
  for one turn of its loop and releases it while it sleeps, so a turn is the atomic step. The synced
  count is loaded without the lock and may be out of date.
\<close>

section \<open>Tickets\<close>

definition MAX_ABANDONED :: nat where "MAX_ABANDONED = 1024"

record ticket_state =
  tk_watermark :: "nat option"
  tk_abandoned :: "uuid list option"

type_synonym ticket_map = "(nat \<times> ticket_state) list"

record wal_acks =
  wa_bound :: nat
  wa_next :: nat
  wa_tickets :: ticket_map
  wa_abandoned :: "nat list"
  wa_closed :: bool

datatype wal_wait = Synced nat | TimedOut nat | WaitClosed

definition wa_new :: "nat \<Rightarrow> wal_acks" where
  "wa_new bound = \<lparr>wa_bound = bound, wa_next = 1, wa_tickets = [], wa_abandoned = [], wa_closed = False\<rparr>"

definition wa_issue :: "wal_acks \<Rightarrow> nat \<times> wal_acks" where
  "wa_issue t = (wa_next t, t\<lparr>wa_next := wa_next t + 1,
     wa_tickets := AList.update (wa_next t) \<lparr>tk_watermark = None, tk_abandoned = None\<rparr> (wa_tickets t)\<rparr>)"

definition wa_forget :: "nat \<Rightarrow> wal_acks \<Rightarrow> wal_acks" where
  "wa_forget tk t = t\<lparr>wa_tickets := AList.delete tk (wa_tickets t)\<rparr>"

definition wa_bind :: "nat \<Rightarrow> nat \<Rightarrow> wal_acks \<Rightarrow> wal_acks" where
  "wa_bind tk records_submitted_total t = (case map_of (wa_tickets t) tk of
     None \<Rightarrow> t
   | Some s \<Rightarrow> t\<lparr>wa_tickets := AList.update tk (s\<lparr>tk_watermark := Some records_submitted_total\<rparr>) (wa_tickets t)\<rparr>)"

definition wa_close :: "wal_acks \<Rightarrow> wal_acks" where
  "wa_close t = t\<lparr>wa_closed := True\<rparr>"

definition tk_durable :: "nat \<Rightarrow> ticket_state \<Rightarrow> bool" where
  "tk_durable synced s \<longleftrightarrow> (case tk_watermark s of None \<Rightarrow> False | Some w \<Rightarrow> w \<le> synced)"

definition ticket_durable :: "nat \<Rightarrow> ticket_map \<Rightarrow> nat \<Rightarrow> bool" where
  "ticket_durable synced ts tk \<longleftrightarrow> (case map_of ts tk of None \<Rightarrow> False | Some s \<Rightarrow> tk_durable synced s)"

text \<open>One turn of \<^verbatim>\<open>wait\<close>: \<open>None\<close> when it goes to sleep again.\<close>

definition wait_turn :: "nat \<Rightarrow> nat \<Rightarrow> nat \<Rightarrow> nat \<Rightarrow> wal_acks \<Rightarrow> wal_wait option \<times> wal_acks" where
  "wait_turn synced started now tk t = (
     if wa_closed t then (Some WaitClosed, wa_forget tk t)
     else if ticket_durable synced (wa_tickets t) tk then (Some (Synced (now - started)), wa_forget tk t)
     else if started + wa_bound t \<le> now then (Some (TimedOut (now - started)), t)
     else (None, t))"

fun evict_abandoned :: "nat list \<Rightarrow> ticket_map \<Rightarrow> nat list \<times> ticket_map" where
  "evict_abandoned [] ts = ([], ts)"
| "evict_abandoned (old # q) ts =
     (if MAX_ABANDONED < length (old # q) then evict_abandoned q (AList.delete old ts) else (old # q, ts))"

definition wa_abandon :: "nat \<Rightarrow> uuid list \<Rightarrow> wal_acks \<Rightarrow> wal_acks" where
  "wa_abandon tk ids t = (case map_of (wa_tickets t) tk of
     None \<Rightarrow> t
   | Some s \<Rightarrow>
       let (q, ts) = evict_abandoned (wa_abandoned t @ [tk])
             (AList.update tk (s\<lparr>tk_abandoned := Some ids\<rparr>) (wa_tickets t))
       in t\<lparr>wa_abandoned := q, wa_tickets := ts\<rparr>)"

fun settle_queue :: "nat \<Rightarrow> nat list \<Rightarrow> ticket_map \<Rightarrow> nat list \<times> uuid list \<times> ticket_map" where
  "settle_queue synced [] ts = ([], [], ts)"
| "settle_queue synced (tk # q) ts =
     (if \<not> ticket_durable synced ts tk
      then (let (keep, ids, ts') = settle_queue synced q ts in (tk # keep, ids, ts'))
      else (let (keep, ids, ts') = settle_queue synced q (AList.delete tk ts)
            in (keep, (case map_of ts tk of None \<Rightarrow> [] | Some s \<Rightarrow> case_option [] id (tk_abandoned s)) @ ids, ts')))"

definition wa_settle :: "nat \<Rightarrow> wal_acks \<Rightarrow> uuid list \<times> wal_acks" where
  "wa_settle synced t =
     (if wa_abandoned t = [] then ([], t)
      else (let (keep, ids, ts) = settle_queue synced (wa_abandoned t) (wa_tickets t)
            in (ids, t\<lparr>wa_abandoned := keep, wa_tickets := ts\<rparr>)))"

definition wa_outstanding :: "wal_acks \<Rightarrow> nat" where
  "wa_outstanding t = length (wa_tickets t)"

section \<open>Runs\<close>

text \<open>
  A run with its history: what was issued, bound, published and given up, and what was answered.
  Which thread does what is left open.
\<close>

datatype wa_event = TIssued nat | TBound nat nat | TPublished nat | TAbandoned nat "uuid list"
  | TSynced nat | TSettled "uuid list"

fun wa_published :: "wa_event list \<Rightarrow> nat" where
  "wa_published [] = 0"
| "wa_published (TPublished n # h) = max n (wa_published h)"
| "wa_published (_ # h) = wa_published h"

lemma wa_published_append [simp]: "wa_published (h @ h') = max (wa_published h) (wa_published h')"
  by (induction h rule: wa_published.induct) auto

inductive wa_reach :: "wa_event list \<Rightarrow> wal_acks \<Rightarrow> bool" where
  wa_start: "wa_reach [] (wa_new bound)"
| wa_issued: "wa_reach h t \<Longrightarrow> wa_issue t = (tk, t') \<Longrightarrow> wa_reach (h @ [TIssued tk]) t'"
| wa_forgotten: "wa_reach h t \<Longrightarrow> wa_reach h (wa_forget tk t)"
| wa_bound_to: "wa_reach h t \<Longrightarrow> wa_reach (h @ [TBound tk w]) (wa_bind tk w t)"
| wa_publish: "wa_reach h t \<Longrightarrow> wa_reach (h @ [TPublished n]) t"
| wa_stop: "wa_reach h t \<Longrightarrow> wa_reach h (wa_close t)"
| wa_wait: "wa_reach h t \<Longrightarrow> loaded \<le> wa_published h \<Longrightarrow> wait_turn loaded started now tk t = (answer, t')
    \<Longrightarrow> wa_reach (h @ (case answer of Some (Synced d) \<Rightarrow> [TSynced tk] | _ \<Rightarrow> [])) t'"
| wa_give_up: "wa_reach h t \<Longrightarrow> wa_reach (h @ [TAbandoned tk ids]) (wa_abandon tk ids t)"
| wa_settled: "wa_reach h t \<Longrightarrow> loaded \<le> wa_published h \<Longrightarrow> wa_settle loaded t = (ids, t')
    \<Longrightarrow> wa_reach (h @ [TSettled ids]) t'"

text \<open>What the map says of a ticket did happen.\<close>

definition tickets_true :: "wa_event set \<Rightarrow> (nat \<rightharpoonup> ticket_state) \<Rightarrow> bool" where
  "tickets_true E m \<longleftrightarrow> (\<forall>tk s. m tk = Some s \<longrightarrow>
     (\<forall>w. tk_watermark s = Some w \<longrightarrow> TBound tk w \<in> E) \<and> (\<forall>ids. tk_abandoned s = Some ids \<longrightarrow> TAbandoned tk ids \<in> E))"

definition tk_covered :: "wa_event set \<Rightarrow> nat \<Rightarrow> nat \<Rightarrow> bool" where
  "tk_covered E synced tk \<longleftrightarrow> (\<exists>w. TBound tk w \<in> E \<and> w \<le> synced)"

definition answers_true :: "wa_event set \<Rightarrow> nat \<Rightarrow> bool" where
  "answers_true E synced \<longleftrightarrow> (\<forall>tk. TSynced tk \<in> E \<longrightarrow> tk_covered E synced tk)
     \<and> (\<forall>ids i. TSettled ids \<in> E \<longrightarrow> i \<in> set ids \<longrightarrow>
          (\<exists>tk given. TAbandoned tk given \<in> E \<and> i \<in> set given \<and> tk_covered E synced tk))"

lemma set_subset_append: "set h \<subseteq> set (h @ h')"
  by simp

lemma tickets_true_mono: "tickets_true E m \<Longrightarrow> E \<subseteq> E' \<Longrightarrow> m' \<subseteq>\<^sub>m m \<Longrightarrow> tickets_true E' m'"
  unfolding tickets_true_def map_le_def by (metis domI subsetD)

lemma tk_covered_mono: "tk_covered E n tk \<Longrightarrow> E \<subseteq> E' \<Longrightarrow> n \<le> n' \<Longrightarrow> tk_covered E' n' tk"
  unfolding tk_covered_def by (meson le_trans subsetD)

lemma answers_true_mono:
  assumes "answers_true E n" "E \<subseteq> E'" "n \<le> n'"
    "\<And>tk. TSynced tk \<in> E' \<Longrightarrow> TSynced tk \<in> E \<or> tk_covered E' n' tk"
    "\<And>ids i. TSettled ids \<in> E' \<Longrightarrow> i \<in> set ids \<Longrightarrow>
       TSettled ids \<in> E \<or> (\<exists>tk given. TAbandoned tk given \<in> E' \<and> i \<in> set given \<and> tk_covered E' n' tk)"
  shows "answers_true E' n'"
  using assms tk_covered_mono [OF _ assms(2,3)] unfolding answers_true_def by (meson subsetD)

lemma ticket_durable_covered:
  "tickets_true E (map_of ts) \<Longrightarrow> ticket_durable n ts tk \<Longrightarrow> tk_covered E n tk"
  by (auto simp: tickets_true_def ticket_durable_def tk_durable_def tk_covered_def split: option.splits)

lemma delete_map_le: "map_of (AList.delete k ts) \<subseteq>\<^sub>m map_of ts"
  by (auto simp: map_le_def delete_conv')

lemma ticket_durable_le: "ticket_durable n ts' tk \<Longrightarrow> map_of ts' \<subseteq>\<^sub>m map_of ts \<Longrightarrow> ticket_durable n ts tk"
  by (auto simp: ticket_durable_def map_le_def split: option.splits) (metis domI option.inject option.simps(3))+

lemma evict_abandoned_facts:
  "evict_abandoned q ts = (q', ts') \<Longrightarrow> length q' \<le> MAX_ABANDONED \<and> map_of ts' \<subseteq>\<^sub>m map_of ts"
proof (induction q ts rule: evict_abandoned.induct)
  case (2 old q ts)
  then show ?case
    using delete_map_le [of old ts] by (auto split: if_splits intro: map_le_trans)
qed auto

text \<open>Settling returns ids of covered tickets only, and leaves no covered ticket in the queue.\<close>

lemma settle_queue_facts:
  assumes "settle_queue n q ts = (keep, ids, ts')" "tickets_true E (map_of ts)"
  shows "map_of ts' \<subseteq>\<^sub>m map_of ts" "length keep \<le> length q" "tk \<in> set keep \<Longrightarrow> \<not> ticket_durable n ts' tk"
    "i \<in> set ids \<Longrightarrow> \<exists>tk given. TAbandoned tk given \<in> E \<and> i \<in> set given \<and> tk_covered E n tk"
proof -
  have "map_of ts' \<subseteq>\<^sub>m map_of ts \<and> length keep \<le> length q \<and> (\<forall>tk \<in> set keep. \<not> ticket_durable n ts' tk)
    \<and> (\<forall>i \<in> set ids. \<exists>tk given. TAbandoned tk given \<in> E \<and> i \<in> set given \<and> tk_covered E n tk)"
    using assms
  proof (induction n q ts arbitrary: keep ids ts' rule: settle_queue.induct)
    case (2 n tk q ts)
    show ?case
    proof (cases "ticket_durable n ts tk")
      case False
      then obtain keep1 where "settle_queue n q ts = (keep1, ids, ts')" "keep = tk # keep1"
        using "2.prems"(1) by (auto split: prod.splits)
      with "2.IH"(1) [OF False] "2.prems"(2) False show ?thesis
        using ticket_durable_le by fastforce
    next
      case True
      then obtain s ids1 where s: "map_of ts tk = Some s"
        and rec: "settle_queue n q (AList.delete tk ts) = (keep, ids1, ts')"
        and ids: "ids = case_option [] id (tk_abandoned s) @ ids1"
        using "2.prems"(1) by (auto simp: ticket_durable_def split: prod.splits option.splits)
      have "tickets_true E (map_of (AList.delete tk ts))"
        using tickets_true_mono [OF "2.prems"(2) subset_refl delete_map_le] .
      with "2.IH"(2) [OF _ rec] True
      have IH: "map_of ts' \<subseteq>\<^sub>m map_of (AList.delete tk ts)" "length keep \<le> length q"
        "\<forall>tk \<in> set keep. \<not> ticket_durable n ts' tk"
        "\<forall>i \<in> set ids1. \<exists>tk given. TAbandoned tk given \<in> E \<and> i \<in> set given \<and> tk_covered E n tk"
        by blast+
      have "\<exists>tk given. TAbandoned tk given \<in> E \<and> i \<in> set given \<and> tk_covered E n tk"
        if "i \<in> set (case_option [] id (tk_abandoned s))" for i
        using that s "2.prems"(2) ticket_durable_covered [OF "2.prems"(2) True]
        by (cases "tk_abandoned s") (auto simp: tickets_true_def, blast)
      then show ?thesis
        using IH ids map_le_trans [OF IH(1) delete_map_le] by auto
    qed
  qed auto
  then show "map_of ts' \<subseteq>\<^sub>m map_of ts" "length keep \<le> length q" "tk \<in> set keep \<Longrightarrow> \<not> ticket_durable n ts' tk"
    "i \<in> set ids \<Longrightarrow> \<exists>tk given. TAbandoned tk given \<in> E \<and> i \<in> set given \<and> tk_covered E n tk"
    by blast+
qed

lemma wa_reach_inv:
  assumes "wa_reach h t"
  shows "tickets_true (set h) (map_of (wa_tickets t)) \<and> answers_true (set h) (wa_published h)
    \<and> length (wa_abandoned t) \<le> MAX_ABANDONED"
  using assms
proof induction
  case (wa_start bound)
  show ?case
    by (simp add: wa_new_def tickets_true_def answers_true_def)
next
  case (wa_issued h t tk t')
  have "answers_true (set (h @ [TIssued tk])) (wa_published (h @ [TIssued tk]))"
    by (rule answers_true_mono [of "set h" "wa_published h"]) (use wa_issued.IH in auto)
  then show ?case
    using wa_issued by (auto simp: wa_issue_def tickets_true_def update_conv' split: if_splits)
next
  case (wa_forgotten h t tk)
  then show ?case
    using tickets_true_mono [OF _ subset_refl delete_map_le] by (simp add: wa_forget_def)
next
  case (wa_bound_to h t tk w)
  have "answers_true (set (h @ [TBound tk w])) (wa_published (h @ [TBound tk w]))"
    by (rule answers_true_mono [of "set h" "wa_published h"]) (use wa_bound_to.IH in auto)
  moreover have "tickets_true (set (h @ [TBound tk w])) (map_of (wa_tickets (wa_bind tk w t)))"
    using wa_bound_to.IH
    by (auto simp: wa_bind_def tickets_true_def update_conv' split: option.splits if_splits)
  moreover have "wa_abandoned (wa_bind tk w t) = wa_abandoned t"
    by (simp add: wa_bind_def split: option.splits)
  ultimately show ?case
    using wa_bound_to.IH by simp
next
  case (wa_publish h t n)
  have "answers_true (set (h @ [TPublished n])) (wa_published (h @ [TPublished n]))"
    by (rule answers_true_mono [of "set h" "wa_published h"]) (use wa_publish.IH in auto)
  then show ?case
    using wa_publish.IH tickets_true_mono [OF _ set_subset_append map_le_refl, of h _ "[TPublished n]"] by auto
next
  case (wa_stop h t)
  then show ?case by (simp add: wa_close_def)
next
  case (wa_wait h t loaded started now tk answer t')
  let ?new = "case answer of Some (Synced d) \<Rightarrow> [TSynced tk] | _ \<Rightarrow> []"
  have synced: "tk_covered (set h) loaded tk" if "answer = Some (Synced d)" for d
    using wa_wait that ticket_durable_covered by (auto simp: wait_turn_def split: if_splits)
  have cover: "tk_covered (insert (TSynced tk) (set h)) (wa_published h) tk" if "answer = Some (Synced d)" for d
    using tk_covered_mono [OF synced [OF that] subset_insertI wa_wait.hyps(2)] .
  have "answers_true (set (h @ ?new)) (wa_published (h @ ?new))"
    by (rule answers_true_mono [of "set h" "wa_published h"])
      (use wa_wait.IH cover in \<open>auto split: option.splits wal_wait.splits\<close>)
  moreover have "map_of (wa_tickets t') \<subseteq>\<^sub>m map_of (wa_tickets t)" "wa_abandoned t' = wa_abandoned t"
    using wa_wait.hyps(3) delete_map_le by (auto simp: wait_turn_def wa_forget_def split: if_splits)
  ultimately show ?case
    using wa_wait.IH tickets_true_mono [OF _ set_subset_append, of h _ _ ?new] by auto
next
  case (wa_give_up h t tk ids)
  let ?h = "h @ [TAbandoned tk ids]"
  have "answers_true (set ?h) (wa_published ?h)"
    by (rule answers_true_mono [of "set h" "wa_published h"]) (use wa_give_up.IH in auto)
  moreover have "tickets_true (set ?h) (map_of (wa_tickets (wa_abandon tk ids t)))
    \<and> length (wa_abandoned (wa_abandon tk ids t)) \<le> MAX_ABANDONED"
  proof (cases "map_of (wa_tickets t) tk")
    case None
    then show ?thesis
      using wa_give_up.IH tickets_true_mono [OF _ set_subset_append map_le_refl, of h _ "[TAbandoned tk ids]"]
      by (auto simp: wa_abandon_def)
  next
    case (Some s)
    let ?ts = "AList.update tk (s\<lparr>tk_abandoned := Some ids\<rparr>) (wa_tickets t)"
    obtain q ts where e: "evict_abandoned (wa_abandoned t @ [tk]) ?ts = (q, ts)"
      by (metis surj_pair)
    have "tickets_true (set ?h) (map_of ?ts)"
      using wa_give_up.IH Some by (auto simp: tickets_true_def update_conv')
    then show ?thesis
      using evict_abandoned_facts [OF e] e Some tickets_true_mono [OF _ subset_refl]
      by (simp add: wa_abandon_def)
  qed
  ultimately show ?case by simp
next
  case (wa_settled h t loaded ids t')
  let ?h = "h @ [TSettled ids]"
  obtain keep ts where s: "settle_queue loaded (wa_abandoned t) (wa_tickets t) = (keep, ids, ts)"
    "wa_abandoned t' = keep" "wa_tickets t' = ts"
    using wa_settled.hyps(3) by (auto simp: wa_settle_def split: if_splits prod.splits)
  note f = settle_queue_facts [OF s(1), of "set h"]
  have cover: "\<exists>tk given. TAbandoned tk given \<in> set h \<and> i \<in> set given \<and> tk_covered (insert (TSettled ids) (set h)) (wa_published h) tk"
    if "i \<in> set ids" for i
    using f(4) [OF _ that] wa_settled.IH tk_covered_mono [OF _ subset_insertI wa_settled.hyps(2)] by blast
  have "answers_true (set ?h) (wa_published ?h)"
    by (rule answers_true_mono [of "set h" "wa_published h"])
      (use wa_settled.IH cover in auto)
  then show ?case
    using wa_settled.IH f(1,2) s(2,3) tickets_true_mono [OF _ set_subset_append, of h _ _ "[TSettled ids]"] by fastforce
qed

text \<open>
  C27. A peer is told 200 only for what is on disk. In every interleaving, a wait that ends with
  \<open>Synced\<close> is for a ticket whose bound record count has been published, the ids that settling
  returns belong to batches given up whose count has been published, and settling with a count
  leaves no batch behind that the count covers. At most \<^verbatim>\<open>MAX_ABANDONED\<close> tickets are kept for
  requests that gave up.
\<close>

theorem wal_acks_sound:
  assumes "wa_reach h t" and "wa_settle loaded t = (ids, t')"
  shows "(\<forall>tk. TSynced tk \<in> set h \<longrightarrow> (\<exists>w. TBound tk w \<in> set h \<and> w \<le> wa_published h))
    \<and> (\<forall>i \<in> set ids. \<exists>tk given w. TAbandoned tk given \<in> set h \<and> i \<in> set given \<and> TBound tk w \<in> set h \<and> w \<le> loaded)
    \<and> (\<forall>tk \<in> set (wa_abandoned t'). \<not> ticket_durable loaded (wa_tickets t') tk)
    \<and> length (wa_abandoned t) \<le> MAX_ABANDONED"
proof -
  obtain keep ts where s: "settle_queue loaded (wa_abandoned t) (wa_tickets t) = (keep, ids, ts)"
    "wa_abandoned t' = keep" "wa_tickets t' = ts"
    using assms(2) by (auto simp: wa_settle_def split: if_splits prod.splits)
  note inv = wa_reach_inv [OF assms(1)]
  note f = settle_queue_facts [OF s(1), of "set h"]
  have "\<forall>i \<in> set ids. \<exists>tk given w. TAbandoned tk given \<in> set h \<and> i \<in> set given \<and> TBound tk w \<in> set h \<and> w \<le> loaded"
    using f(4) inv unfolding tk_covered_def by blast
  then show ?thesis
    using inv f(3) s(2,3) unfolding answers_true_def tk_covered_def by blast
qed

section \<open>A concrete run\<close>

text \<open>Two batches: the first syncs in time, the second is given up and settled later.\<close>

definition demo_wa1 :: wal_acks where
  "demo_wa1 = wa_bind 2 5 (wa_bind 1 3 (snd (wa_issue (snd (wa_issue (wa_new 10))))))"

definition demo_wa2 :: wal_acks where
  "demo_wa2 = wa_abandon 2 [77] (snd (wait_turn 3 0 1 1 demo_wa1))"

definition demo_wa_h :: "wa_event list" where
  "demo_wa_h = [] @ [TIssued 1] @ [TIssued 2] @ [TBound 1 3] @ [TBound 2 5] @ [TPublished 3] @ [TSynced 1]
     @ [TAbandoned 2 [77]] @ [TPublished 6]"

lemma demo_wa_steps:
  "wa_issue (wa_new 10) = (1, snd (wa_issue (wa_new 10)))"
  "wa_issue (snd (wa_issue (wa_new 10))) = (2, snd (wa_issue (snd (wa_issue (wa_new 10)))))"
  "wait_turn 3 0 1 1 demo_wa1 = (Some (Synced 1), snd (wait_turn 3 0 1 1 demo_wa1))"
  "wa_settle 6 demo_wa2 = ([77], snd (wa_settle 6 demo_wa2))"
  by code_simp+

lemma demo_wa_reach: "wa_reach demo_wa_h demo_wa2"
proof -
  have "wa_reach ((((([] @ [TIssued 1]) @ [TIssued 2]) @ [TBound 1 3]) @ [TBound 2 5]) @ [TPublished 3]) demo_wa1"
    unfolding demo_wa1_def
    by (intro wa_publish wa_bound_to wa_issued [OF _ demo_wa_steps(2)] wa_issued [OF _ demo_wa_steps(1)] wa_start)
  from wa_publish [OF wa_give_up [OF wa_wait [OF this _ demo_wa_steps(3)]], of 2 "[77]" 6] show ?thesis
    unfolding demo_wa_h_def demo_wa2_def by simp
qed

theorem wal_acks_sound_witness:
  "wa_settle 6 demo_wa2 = ([77], snd (wa_settle 6 demo_wa2)) \<and>
    (\<exists>tk given w. TAbandoned tk given \<in> set demo_wa_h \<and> 77 \<in> set given \<and> TBound tk w \<in> set demo_wa_h \<and> w \<le> 6)"
  using demo_wa_steps(4) wal_acks_sound [OF demo_wa_reach demo_wa_steps(4)] by simp

end
