(* ===== verification/Pipeline.thy ===== *)
theory Pipeline
  imports Ingest_Queue Wal Hec_Ack Wal_Acks
begin

text \<open>
  The road of a record from a receiver to the disk (\<^verbatim>\<open>logless-cli/src/main.rs\<close>): the record path submits it to
  the ingest queue and binds its batch, the WAL writer takes it, appends it, syncs and publishes the count, and
  the HEC acknowledgements and the peer requests are judged against that count. The parts are the models of
  \<^verbatim>\<open>Ingest_Queue\<close>, \<^verbatim>\<open>Wal\<close>, \<^verbatim>\<open>Hec_Ack\<close> and \<^verbatim>\<open>Wal_Acks\<close>; this theory puts them together. The channel between
  the two threads is the list of the records in it, which is what its contract in \<^verbatim>\<open>Ingest_Queue\<close> says of it.
  A call of the WAL that fails ends the writer thread, so it takes no further step.
\<close>

section \<open>The state\<close>

text \<open>Where the writer's loop is. It holds what it took and has not appended yet.\<close>

datatype writer = WTake "log_record list" | WAppend "log_record list" | WSync "log_record list"
  | WPublish nat "log_record list" | WCheck "log_record list" | WDrain "log_record list"
  | WLastSync | WLastPublish nat | WDone

fun in_writer :: "writer \<Rightarrow> log_record list" where
  "in_writer (WTake b) = b"
| "in_writer (WAppend b) = b"
| "in_writer (WDrain b) = b"
| "in_writer _ = []"

datatype receipt = HecBatch nat | PeerTicket nat

text \<open>
  \<open>pl_sent\<close>, \<open>pl_given\<close>, \<open>pl_main\<close>, \<open>pl_late\<close>, \<open>pl_in_hand\<close>, \<open>pl_owed\<close> and the two logs only record what
  happened: the records the queue accepted, the batches appended and their parts, the accepted records of the
  batch the record path works on, and those of every batch that was bound.
\<close>

record pipeline =
  pl_threads :: threads
  pl_channel :: "log_record list"
  pl_stop :: bool
  pl_writer :: writer
  pl_split :: split_wal
  pl_synced :: nat
  pl_hec :: ack_table
  pl_peer :: wal_acks
  pl_sent :: "log_record list"
  pl_given :: "log_record list list"
  pl_main :: "log_record list list"
  pl_late :: "log_record list list"
  pl_in_hand :: "log_record list"
  pl_owed :: "receipt \<rightharpoonup> log_record list"
  pl_hec_log :: "ack_event list"
  pl_peer_log :: "wa_event list"

definition pipeline_start :: "split_wal \<Rightarrow> nat \<Rightarrow> pipeline" where
  "pipeline_start s bound = \<lparr>pl_threads = threads_init, pl_channel = [], pl_stop = False, pl_writer = WTake [], pl_split = s,
     pl_synced = 0, pl_hec = ack_new, pl_peer = wa_new bound, pl_sent = [], pl_given = [], pl_main = [], pl_late = [],
     pl_in_hand = [], pl_owed = Map.empty, pl_hec_log = [], pl_peer_log = []\<rparr>"

section \<open>The steps\<close>

text \<open>The one thread that submits is thread 0; this is what its step puts into the channel.\<close>

fun entered :: "producer \<Rightarrow> producer \<Rightarrow> log_record list" where
  "entered (Offering r) (Counting Enqueued) = [r]"
| "entered (Waiting r) (Counting Enqueued) = [r]"
| "entered _ _ = []"

text \<open>The HEC receiver's use of the ack table, and the peer requests' use of the tickets.\<close>

inductive hec_step :: "nat \<Rightarrow> ack_event list \<times> ack_table \<Rightarrow> ack_event list \<times> ack_table \<Rightarrow> bool" where
  hec_seq: "next_batch_seq t = (s, t') \<Longrightarrow> hec_step synced (h, t) (h @ [Seq s], t')"
| hec_issue: "Seq s \<in> set h \<Longrightarrow> (\<forall>ch' i'. Issued ch' i' s \<notin> set h) \<Longrightarrow> loaded \<le> synced
    \<Longrightarrow> issue loaded t ch s = (i, t') \<Longrightarrow> hec_step synced (h, t) (h @ [Issued ch i s], t')"

inductive peer_step :: "nat \<Rightarrow> wa_event list \<times> wal_acks \<Rightarrow> wa_event list \<times> wal_acks \<Rightarrow> bool" where
  peer_issue: "wa_issue t = (tk, t') \<Longrightarrow> peer_step synced (h, t) (h @ [TIssued tk], t')"
| peer_forget: "peer_step synced (h, t) (h, wa_forget tk t)"
| peer_close: "peer_step synced (h, t) (h, wa_close t)"
| peer_wait_turn: "loaded \<le> synced \<Longrightarrow> wait_turn loaded started now tk t = (answer, t')
    \<Longrightarrow> peer_step synced (h, t) (h @ (case answer of Some (Synced d) \<Rightarrow> [TSynced tk] | _ \<Rightarrow> []), t')"
| peer_abandon: "peer_step synced (h, t) (h @ [TAbandoned tk ids], wa_abandon tk ids t)"
| peer_settle: "loaded \<le> synced \<Longrightarrow> wa_settle loaded t = (ids, t') \<Longrightarrow> peer_step synced (h, t) (h @ [TSettled ids], t')"

text \<open>What the writer does with the two logs.\<close>

inductive writer_step :: "wal_env \<Rightarrow> bool \<Rightarrow>
    writer \<times> split_wal \<times> log_record list list \<times> log_record list list \<times> log_record list list \<Rightarrow>
    writer \<times> split_wal \<times> log_record list list \<times> log_record list list \<times> log_record list list \<Rightarrow> bool" for env where
  w_taken: "writer_step env stop (WTake b, s, h, bm, bl) (if b = [] then WSync [] else WAppend b, s, h, bm, bl)"
| w_append: "split_append env ios now s b nanos = (Inr (), s') \<Longrightarrow> writer_step env stop (WAppend b, s, h, bm, bl)
    (WSync b, s', h @ [b], bm @ nonempty (on_time_part s nanos b), bl @ nonempty (late_part s nanos b))"
| w_sync: "split_maybe_sync ios now s nanos = (Inr on_disk, s') \<Longrightarrow> writer_step env stop (WSync b, s, h, bm, bl)
    (case on_disk of Some n \<Rightarrow> WPublish n b | None \<Rightarrow> WCheck b, s', h, bm, bl)"
| w_check: "writer_step env stop (WCheck b, s, h, bm, bl) (if stop \<and> b = [] then WDrain [] else WTake [], s, h, bm, bl)"
| w_tail: "b \<noteq> [] \<Longrightarrow> split_append env ios now s b nanos = (Inr (), s') \<Longrightarrow> writer_step env stop (WDrain b, s, h, bm, bl)
    (WLastSync, s', h @ [b], bm @ nonempty (on_time_part s nanos b), bl @ nonempty (late_part s nanos b))"
| w_no_tail: "writer_step env stop (WDrain [], s, h, bm, bl) (WLastSync, s, h, bm, bl)"
| w_last_sync: "split_sync ios now s = (Inr n, s') \<Longrightarrow> writer_step env stop (WLastSync, s, h, bm, bl) (WLastPublish n, s', h, bm, bl)"

text \<open>Publishing a count: after it the loop goes on, or the writer is done.\<close>

fun published_next :: "writer \<Rightarrow> (nat \<times> writer) option" where
  "published_next (WPublish n b) = Some (n, WCheck b)"
| "published_next (WLastPublish n) = Some (n, WDone)"
| "published_next _ = None"

definition WAL_BATCH :: nat where "WAL_BATCH = 4096"

inductive pipeline_step :: "wal_env \<Rightarrow> pipeline \<Rightarrow> pipeline \<Rightarrow> bool" for env where
  pl_pick: "pcs (pl_threads p) 0 = Idle \<Longrightarrow> pipeline_step env p (p\<lparr>pl_in_hand := []\<rparr>)"
| pl_submit: "submit_step (pl_threads p) th \<Longrightarrow> (\<forall>i. i \<noteq> 0 \<longrightarrow> pcs th i = Idle)
    \<Longrightarrow> rs = entered (pcs (pl_threads p) 0) (pcs th 0)
    \<Longrightarrow> pipeline_step env p (p\<lparr>pl_threads := th, pl_channel := pl_channel p @ rs, pl_sent := pl_sent p @ rs,
          pl_in_hand := pl_in_hand p @ rs\<rparr>)"
| pl_hec_bind: "pcs (pl_threads p) 0 = Idle \<Longrightarrow> w = unat (enqueued (shared (pl_threads p)))
    \<Longrightarrow> Seq s \<in> set (pl_hec_log p) \<Longrightarrow> (\<forall>w'. Bound s w' \<notin> set (pl_hec_log p))
    \<Longrightarrow> pipeline_step env p (p\<lparr>pl_hec := bind_batch (pl_hec p) s w, pl_hec_log := pl_hec_log p @ [Bound s w],
          pl_owed := (pl_owed p)(HecBatch s \<mapsto> pl_in_hand p)\<rparr>)"
| pl_peer_bind: "pcs (pl_threads p) 0 = Idle \<Longrightarrow> w = unat (enqueued (shared (pl_threads p)))
    \<Longrightarrow> (\<forall>w'. TBound tk w' \<notin> set (pl_peer_log p))
    \<Longrightarrow> pipeline_step env p (p\<lparr>pl_peer := wa_bind tk w (pl_peer p), pl_peer_log := pl_peer_log p @ [TBound tk w],
          pl_owed := (pl_owed p)(PeerTicket tk \<mapsto> pl_in_hand p)\<rparr>)"
| pl_hec_use: "hec_step (pl_synced p) (pl_hec_log p, pl_hec p) (h, t) \<Longrightarrow> pipeline_step env p (p\<lparr>pl_hec := t, pl_hec_log := h\<rparr>)"
| pl_peer_use: "peer_step (pl_synced p) (pl_peer_log p, pl_peer p) (h, t) \<Longrightarrow> pipeline_step env p (p\<lparr>pl_peer := t, pl_peer_log := h\<rparr>)"
| pl_take: "pl_writer p = WTake b \<and> length b < WAL_BATCH \<and> pc = WTake (b @ [r]) \<or> pl_writer p = WDrain b \<and> pc = WDrain (b @ [r])
    \<Longrightarrow> pl_channel p = r # q \<Longrightarrow> pipeline_step env p (p\<lparr>pl_writer := pc, pl_channel := q\<rparr>)"
| pl_write: "writer_step env (pl_stop p) (pl_writer p, pl_split p, pl_given p, pl_main p, pl_late p) (pc, s, h, bm, bl)
    \<Longrightarrow> pipeline_step env p (p\<lparr>pl_writer := pc, pl_split := s, pl_given := h, pl_main := bm, pl_late := bl\<rparr>)"
| pl_publish: "published_next (pl_writer p) = Some (n, pc) \<Longrightarrow> pipeline_step env p (p\<lparr>pl_writer := pc, pl_synced := n,
          pl_hec_log := pl_hec_log p @ [Published n], pl_peer_log := pl_peer_log p @ [TPublished n]\<rparr>)"
| pl_told_to_stop: "pipeline_step env p (p\<lparr>pl_stop := True\<rparr>)"

inductive pipeline_reach :: "wal_env \<Rightarrow> seg_dir \<Rightarrow> seg_dir \<Rightarrow> pipeline \<Rightarrow> bool" for env dir ldir where
  pl_start: "split_open ios now dir ldir c = Inr s \<Longrightarrow> pipeline_reach env dir ldir (pipeline_start s bound)"
| pl_next: "pipeline_reach env dir ldir p \<Longrightarrow> pipeline_step env p p' \<Longrightarrow> pipeline_reach env dir ldir p'"

section \<open>The synced count of one log only grows\<close>

lemma synced_le_written: "wal_reach env dir bss w \<Longrightarrow> synced_records w \<le> records_written w \<and> records_written w = length (concat bss)"
  using reach_shape [of env dir bss w] by (auto simp: wal_shape_def nrec_concat)

lemma sync_grows:
  "synced_records w \<le> records_written w \<Longrightarrow> wal_sync io now w = (Inr (), w')
    \<Longrightarrow> synced_records w \<le> synced_records w' \<and> synced_records w' \<le> records_written w'"
  by (auto simp: wal_sync_def split: if_splits)

lemma roll_grows:
  assumes "synced_records w \<le> records_written w" "wal_roll io now w = (Inr (), w')"
  shows "synced_records w \<le> synced_records w' \<and> synced_records w' \<le> records_written w'"
proof -
  obtain w2 where w2: "wal_sync io now w = (Inr (), w2)"
    "w' = w2\<lparr>current_id := current_id w2 + 1, other_files := other_files w2 @ [(current_path w2, durable w2)],
       durable := segment_file undefined (now_v7 io) [], current_path := current_id w2 + 1,
       current_uuid := now_v7 io, current_len := HEADER_BYTES, current_started := 0\<rparr>"
    by (rule wal_roll_Inr [OF assms(2), of undefined])
  show ?thesis
    using sync_grows [OF assms(1) w2(1)] by (simp add: w2(2))
qed

lemma append_grows:
  assumes "synced_records w \<le> records_written w" "wal_append env io now w b = (Inr (), w')"
  shows "synced_records w \<le> synced_records w' \<and> synced_records w' \<le> records_written w'"
proof (cases "b = []")
  case False
  then obtain payload where p: "encode env b = Some payload" "write_fails io = None"
    using assms(2) by (auto simp: wal_append_def split: option.splits if_splits)
  define w1 where "w1 = w\<lparr>pending := pending w @ frame (crc32 env) payload,
                         current_len := current_len w + (FRAME_HEADER_BYTES + length payload),
                         unsynced_bytes := unsynced_bytes w + (FRAME_HEADER_BYTES + length payload),
                         bytes_written := bytes_written w + (FRAME_HEADER_BYTES + length payload),
                         records_written := records_written w + length b\<rparr>"
  have "w' = w1 \<or> wal_roll io now w1 = (Inr (), w')"
    using assms(2) False p by (auto simp: wal_append_def w1_def Let_def split: if_splits)
  moreover have "synced_records w1 = synced_records w" "records_written w \<le> records_written w1"
    by (simp_all add: w1_def)
  ultimately show ?thesis
    using assms(1) roll_grows [of w1 io now w'] by auto
qed (use assms in \<open>simp add: wal_append_def\<close>)

lemma roll_if_due_grows:
  assumes "synced_records w \<le> records_written w" "roll_if_due io now nanos w = (Inr due, w')"
  shows "synced_records w \<le> synced_records w' \<and> synced_records w' \<le> records_written w'"
  using assms roll_grows [OF assms(1)]
  by (auto simp: roll_if_due_def try_then_Inr split: option.splits if_splits)

lemma append_at_grows:
  assumes "synced_records w \<le> records_written w" "append_at env ios now w b nanos = (Inr (), w')"
  shows "synced_records w \<le> synced_records w' \<and> synced_records w' \<le> records_written w'"
proof (cases "b = []")
  case False
  then obtain due w1 where due: "roll_if_due (ios 0) now nanos w = (Inr due, w1)"
      and app: "wal_append env (ios 1) now (if current_started w1 = 0 then w1\<lparr>current_started := max nanos 1\<rparr> else w1) b = (Inr (), w')"
    using assms(2) by (auto simp: append_at_def try_then_Inr)
  have "synced_records (if current_started w1 = 0 then w1\<lparr>current_started := max nanos 1\<rparr> else w1) = synced_records w1"
      "records_written (if current_started w1 = 0 then w1\<lparr>current_started := max nanos 1\<rparr> else w1) = records_written w1"
    by simp_all
  then show ?thesis
    using roll_if_due_grows [OF assms(1) due] append_grows [OF _ app] by linarith
qed (use assms in \<open>simp add: append_at_def\<close>)

lemma maybe_sync_grows:
  assumes "synced_records w \<le> records_written w" "wal_maybe_sync io now w = (Inr adv, w')"
  shows "synced_records w \<le> synced_records w' \<and> synced_records w' \<le> records_written w'"
proof -
  obtain w1 where "w1 = w \<or> wal_sync io now w = (Inr (), w1)" "w' = w1\<lparr>reported_records := synced_records w1\<rparr>"
    using assms(2) by (auto simp: wal_maybe_sync_def try_then_Inr split: if_splits)
  then show ?thesis
    using assms(1) sync_grows [OF assms(1), of io now w1] by auto
qed

text \<open>Of the pair.\<close>

definition counts_ok :: "split_wal \<Rightarrow> bool" where
  "counts_ok s \<longleftrightarrow> synced_records (main_wal s) \<le> records_written (main_wal s) \<and> synced_records (late_wal s) \<le> records_written (late_wal s)"

definition grown :: "split_wal \<Rightarrow> split_wal \<Rightarrow> bool" where
  "grown s s' \<longleftrightarrow> synced_records (main_wal s) \<le> synced_records (main_wal s') \<and> synced_records (late_wal s) \<le> synced_records (late_wal s')
     \<and> counts_ok s'"

lemma grown_trans: "grown s s1 \<Longrightarrow> grown s1 s2 \<Longrightarrow> grown s s2"
  by (auto simp: grown_def)

lemma grown_refl: "counts_ok s \<Longrightarrow> grown s s"
  by (simp add: grown_def)

lemma on_main_grows:
  "counts_ok s \<Longrightarrow> on_main f s = (Inr a, s') \<Longrightarrow>
    (\<And>w. f (main_wal s) = (Inr a, w) \<Longrightarrow> synced_records (main_wal s) \<le> synced_records w \<and> synced_records w \<le> records_written w) \<Longrightarrow> grown s s'"
  by (auto simp: on_main_Inr grown_def counts_ok_def)

lemma on_late_grows:
  "counts_ok s \<Longrightarrow> on_late f s = (Inr a, s') \<Longrightarrow>
    (\<And>w. f (late_wal s) = (Inr a, w) \<Longrightarrow> synced_records (late_wal s) \<le> synced_records w \<and> synced_records w \<le> records_written w) \<Longrightarrow> grown s s'"
  by (auto simp: on_late_Inr grown_def counts_ok_def)

lemma split_sync_grows:
  assumes "counts_ok s" "split_sync ios now s = (Inr n, s')"
  shows "grown s s'"
proof -
  obtain s1 where m: "on_main (\<lambda>w. if 0 < unsynced_bytes w then wal_sync (ios 0) now w else (Inr (), w)) s = (Inr (), s1)"
      and l: "on_late (\<lambda>w. if 0 < unsynced_bytes w then wal_sync (ios 1) now w else (Inr (), w)) s1 = (Inr (), s')"
    using assms(2) by (auto simp: split_sync_def try_then_Inr)
  have 1: "grown s s1"
    by (rule on_main_grows [OF assms(1) m]) (use assms(1) sync_grows in \<open>auto simp: counts_ok_def split: if_splits\<close>)
  then have c: "counts_ok s1"
    by (simp add: grown_def)
  have "grown s1 s'"
    by (rule on_late_grows [OF c l]) (use c sync_grows in \<open>auto simp: counts_ok_def split: if_splits\<close>)
  with 1 show ?thesis
    by (rule grown_trans)
qed

lemma split_append_grows:
  assumes "counts_ok s" "split_append env ios now s b nanos = (Inr (), s')"
  shows "grown s s'"
proof (cases "list_ex (\<lambda>r. timestamp_unix_nano r < nanos - late_threshold_nanos s) b")
  case True
  define s0 where "s0 = s\<lparr>late_records := late_records s + length (late_part s nanos b)\<rparr>"
  obtain s1 where m: "on_main (\<lambda>w. wal_append env (ios 0) now w (on_time_part s nanos b)) s0 = (Inr (), s1)"
      and l: "on_late (\<lambda>w. append_at env (\<lambda>i. ios (i + 1)) now w (late_part s nanos b) nanos) s1 = (Inr (), s')"
    using assms(2) True by (auto simp: split_append_def Let_def try_then_Inr s0_def late_part_def on_time_part_def)
  have s0: "counts_ok s0" "grown s s0"
    using assms(1) by (simp_all add: s0_def grown_def counts_ok_def)
  have 1: "grown s0 s1"
    by (rule on_main_grows [OF s0(1) m]) (use s0(1) append_grows in \<open>auto simp: counts_ok_def\<close>)
  then have c: "counts_ok s1"
    by (simp add: grown_def)
  have "grown s1 s'"
    by (rule on_late_grows [OF c l]) (use c append_at_grows in \<open>auto simp: counts_ok_def\<close>)
  with s0(2) 1 show ?thesis
    using grown_trans by blast
next
  case False
  then have m: "on_main (\<lambda>w. wal_append env (ios 0) now w b) s = (Inr (), s')"
    using assms(2) by (simp add: split_append_def)
  show ?thesis
    by (rule on_main_grows [OF assms(1) m]) (use assms(1) append_grows in \<open>auto simp: counts_ok_def\<close>)
qed

lemma split_maybe_sync_grows:
  assumes "counts_ok s" "split_maybe_sync ios now s nanos = (Inr on_disk, s')"
  shows "grown s s'"
proof -
  obtain s1 s2 s3 due am al where
    steps: "on_late (roll_if_due (ios 0) now nanos) s = (Inr due, s1)"
      "on_main (wal_maybe_sync (ios 1) now) s1 = (Inr am, s2)"
      "on_late (wal_maybe_sync (ios 2) now) s2 = (Inr al, s3)"
    and last: "(if \<not> (am \<or> al) then (Inr None, s3)
      else try_then (split_sync (\<lambda>i. ios (i + 3)) now s3) (\<lambda>n s4. (Inr (Some n), s4))) = (Inr on_disk, s')"
    using assms(2) by (auto simp: split_maybe_sync_def try_then_Inr)
  have 1: "grown s s1"
    by (rule on_late_grows [OF assms(1) steps(1)]) (use assms(1) roll_if_due_grows in \<open>auto simp: counts_ok_def\<close>)
  then have c1: "counts_ok s1" by (simp add: grown_def)
  have 2: "grown s1 s2"
    by (rule on_main_grows [OF c1 steps(2)]) (use c1 maybe_sync_grows in \<open>auto simp: counts_ok_def\<close>)
  then have c2: "counts_ok s2" by (simp add: grown_def)
  have 3: "grown s2 s3"
    by (rule on_late_grows [OF c2 steps(3)]) (use c2 maybe_sync_grows in \<open>auto simp: counts_ok_def\<close>)
  then have c3: "counts_ok s3" by (simp add: grown_def)
  have "grown s3 s'"
    using last grown_refl [OF c3] split_sync_grows [OF c3] by (auto simp: try_then_Inr split: if_splits)
  with 1 2 3 show ?thesis
    using grown_trans by blast
qed

lemma split_reach_counts: "split_reach env dir ldir h bm bl s \<Longrightarrow> counts_ok s"
  using split_reach_both(1) [of env dir ldir h bm bl s] synced_le_written [of env dir bm "main_wal s"]
    synced_le_written [of env ldir bl "late_wal s"] by (simp add: both_reach_def counts_ok_def)

section \<open>What is published is on disk\<close>

definition durable_part :: "split_wal \<Rightarrow> log_record list list \<Rightarrow> log_record list list \<Rightarrow> log_record multiset" where
  "durable_part s bm bl = mset (take (synced_records (main_wal s)) (concat bm)) + mset (take (synced_records (late_wal s)) (concat bl))"

definition safe :: "split_wal \<Rightarrow> log_record list list \<Rightarrow> log_record list list \<Rightarrow> log_record list list \<Rightarrow> nat \<Rightarrow> bool" where
  "safe s h bm bl n \<longleftrightarrow> n \<le> length (concat h) \<and> mset (take n (concat h)) \<subseteq># durable_part s bm bl"

definition flow_inv :: "wal_env \<Rightarrow> seg_dir \<Rightarrow> seg_dir \<Rightarrow> pipeline \<Rightarrow> bool" where
  "flow_inv env dir ldir p \<longleftrightarrow> split_reach env dir ldir (pl_given p) (pl_main p) (pl_late p) (pl_split p)
     \<and> pl_sent p = concat (pl_given p) @ in_writer (pl_writer p) @ pl_channel p
     \<and> safe (pl_split p) (pl_given p) (pl_main p) (pl_late p) (pl_synced p)
     \<and> (\<forall>n pc. published_next (pl_writer p) = Some (n, pc) \<longrightarrow>
          n = length (concat (pl_given p)) \<and> safe (pl_split p) (pl_given p) (pl_main p) (pl_late p) n)"

lemma take_mset_mono:
  assumes "k \<le> k'" "k \<le> length xs"
  shows "mset (take k xs) \<subseteq># mset (take k' (xs @ ys))"
proof -
  obtain d where "k' = k + d"
    using assms(1) le_Suc_ex by blast
  then show ?thesis
    using assms(2) by (simp add: take_add)
qed

lemma durable_part_mono:
  assumes "grown s s'" "split_reach env dir ldir h bm bl s"
  shows "durable_part s bm bl \<subseteq># durable_part s' (bm @ m) (bl @ l)"
proof -
  have "wal_reach env dir bm (main_wal s)" "wal_reach env ldir bl (late_wal s)"
    using split_reach_both(1) [OF assms(2)] by (simp_all add: both_reach_def)
  then have "synced_records (main_wal s) \<le> length (concat bm)" "synced_records (late_wal s) \<le> length (concat bl)"
    using synced_le_written by fastforce+
  then show ?thesis
    using assms(1) unfolding durable_part_def grown_def concat_append
    by (intro subset_mset.add_mono take_mset_mono) simp_all
qed

lemma safe_mono:
  assumes "grown s s'" "split_reach env dir ldir h bm bl s" "safe s h bm bl n"
  shows "safe s' (h @ e) (bm @ m) (bl @ l) n"
  using assms(3) durable_part_mono [OF assms(1,2), of m l] unfolding safe_def
  by (auto intro: subset_mset.order_trans)

text \<open>When both logs have nothing unsynced, everything given is durable.\<close>

lemma all_synced_safe:
  assumes "split_reach env dir ldir h bm bl s" "unsynced_bytes (main_wal s) = 0" "unsynced_bytes (late_wal s) = 0"
    "n = split_records_written s"
  shows "n = length (concat h) \<and> safe s h bm bl n"
proof -
  have r: "wal_reach env dir bm (main_wal s)" "wal_reach env ldir bl (late_wal s)"
    using split_reach_both(1) [OF assms(1)] by (simp_all add: both_reach_def)
  obtain css ds where "wal_shape env dir css ds [] (main_wal s)" "bm = concat css @ ds"
    using reach_all_synced [OF r(1) assms(2)] by blast
  then have m: "synced_records (main_wal s) = length (concat bm)" "records_written (main_wal s) = length (concat bm)"
    by (simp_all add: wal_shape_def nrec_concat)
  obtain css ds where "wal_shape env ldir css ds [] (late_wal s)" "bl = concat css @ ds"
    using reach_all_synced [OF r(2) assms(3)] by blast
  then have l: "synced_records (late_wal s) = length (concat bl)" "records_written (late_wal s) = length (concat bl)"
    by (simp_all add: wal_shape_def nrec_concat)
  have ms: "mset (concat bm) + mset (concat bl) = mset (concat h)"
    by (rule split_reach_both(2) [OF assms(1)])
  then have "length (concat bm) + length (concat bl) = length (concat h)"
    by (metis size_mset size_union)
  then have n: "n = length (concat h)"
    using assms(4) m(2) l(2) by (simp add: split_records_written_def)
  have "durable_part s bm bl = mset (concat h)"
    using ms m(1) l(1) by (simp add: durable_part_def)
  then show ?thesis
    by (simp add: n safe_def)
qed

lemma writer_step_safe:
  assumes "writer_step env stop (pc, s, h, bm, bl) (pc', s', h', bm', bl')" "split_reach env dir ldir h bm bl s"
  shows "split_reach env dir ldir h' bm' bl' s'" "concat h' @ in_writer pc' = concat h @ in_writer pc"
    "safe s h bm bl n \<Longrightarrow> safe s' h' bm' bl' n"
    "published_next pc' = Some (k, pc1) \<Longrightarrow> k = length (concat h') \<and> safe s' h' bm' bl' k"
proof -
  note counts = split_reach_counts [OF assms(2)]
  have same: "grown s s'' \<Longrightarrow> safe s h bm bl n \<Longrightarrow> safe s'' h bm bl n" for s''
    using safe_mono [OF _ assms(2), of s'' n "[]" "[]" "[]"] by simp
  have "split_reach env dir ldir h' bm' bl' s' \<and> concat h' @ in_writer pc' = concat h @ in_writer pc
    \<and> (safe s h bm bl n \<longrightarrow> safe s' h' bm' bl' n)
    \<and> (published_next pc' = Some (k, pc1) \<longrightarrow> k = length (concat h') \<and> safe s' h' bm' bl' k)"
    using assms(1)
  proof (cases rule: writer_step.cases)
    case (w_append ios now b nanos)
    then show ?thesis
      using split_reach_append [OF assms(2)] safe_mono [OF split_append_grows [OF counts] assms(2)] by auto
  next
    case (w_tail b ios now nanos)
    then show ?thesis
      using split_reach_append [OF assms(2)] safe_mono [OF split_append_grows [OF counts] assms(2)] by auto
  next
    case (w_sync ios now nanos on_disk b)
    then have r: "split_reach env dir ldir h bm bl s'"
      using split_reach_maybe_sync [OF assms(2)] by blast
    have "k = length (concat h) \<and> safe s' h bm bl k" if "on_disk = Some k"
      by (rule all_synced_safe [OF r]) (use both_split_maybe_sync(2) [OF split_reach_both(1) [OF assms(2)] w_sync(6) that] in simp_all)
    then show ?thesis
      using r same [OF split_maybe_sync_grows [OF counts w_sync(6)]] w_sync by (auto split: option.splits)
  next
    case (w_last_sync ios now m)
    then have r: "split_reach env dir ldir h bm bl s'"
      using split_reach_sync [OF assms(2)] by blast
    have "m = length (concat h) \<and> safe s' h bm bl m"
      by (rule all_synced_safe [OF r]) (use both_split_sync(2-4) [OF split_reach_both(1) [OF assms(2)] w_last_sync(6)] in simp_all)
    then show ?thesis
      using r same [OF split_sync_grows [OF counts w_last_sync(6)]] w_last_sync by auto
  qed (use assms(2) in \<open>auto split: if_splits\<close>)
  then show "split_reach env dir ldir h' bm' bl' s'" "concat h' @ in_writer pc' = concat h @ in_writer pc"
    "safe s h bm bl n \<Longrightarrow> safe s' h' bm' bl' n"
    "published_next pc' = Some (k, pc1) \<Longrightarrow> k = length (concat h') \<and> safe s' h' bm' bl' k"
    by blast+
qed

lemma flow_inv_reach: "pipeline_reach env dir ldir p \<Longrightarrow> flow_inv env dir ldir p"
proof (induction rule: pipeline_reach.induct)
  case (pl_start ios now c s bound)
  then show ?case
    by (auto simp: flow_inv_def pipeline_start_def safe_def intro: split_reach_open)
next
  case (pl_next p p')
  note inv = pl_next.IH [unfolded flow_inv_def]
  from pl_next.hyps(2) show ?case
  proof (cases rule: pipeline_step.cases)
    case (pl_write pc s h bm bl)
    note step = writer_step_safe [OF pl_write(2) conjunct1 [OF inv]]
    have "pl_sent p = concat h @ in_writer pc @ pl_channel p"
      using inv step(2) by (metis append.assoc)
    then show ?thesis
      using pl_write(1) step(1,4) step(3) [of "pl_synced p"] inv by (simp add: flow_inv_def)
  next
    case (pl_publish n pc)
    then have "in_writer pc = in_writer (pl_writer p)" "published_next pc = None"
      by (cases "pl_writer p"; auto)+
    moreover have "safe (pl_split p) (pl_given p) (pl_main p) (pl_late p) n"
      using inv pl_publish(2) by blast
    ultimately show ?thesis
      using pl_publish(1) inv by (simp add: flow_inv_def)
  next
    case (pl_take b pc r q)
    then show ?thesis
      using inv by (auto simp: flow_inv_def)
  qed (use inv in \<open>simp_all add: flow_inv_def\<close>)
qed

section \<open>What is bound is behind the count\<close>

definition path_inv :: "pipeline \<Rightarrow> bool" where
  "path_inv p \<longleftrightarrow> (\<forall>i. i \<noteq> 0 \<longrightarrow> pcs (pl_threads p) i = Idle)
     \<and> enqueued (shared (pl_threads p)) + (if pcs (pl_threads p) 0 = Counting Enqueued then 1 else 0) = of_nat (length (pl_sent p))
     \<and> mset (pl_in_hand p) \<subseteq># mset (pl_sent p)"

lemma submit_step_entered:
  assumes "submit_step th th'" "\<forall>i. i \<noteq> 0 \<longrightarrow> pcs th i = Idle" "\<forall>i. i \<noteq> 0 \<longrightarrow> pcs th' i = Idle"
  shows "enqueued (shared th') + (if pcs th' 0 = Counting Enqueued then 1 else 0)
    = enqueued (shared th) + (if pcs th 0 = Counting Enqueued then 1 else 0) + of_nat (length (entered (pcs th 0) (pcs th' 0)))"
proof -
  have zero: "pcs th i \<noteq> Idle \<Longrightarrow> i = 0" "pcs th' i \<noteq> Idle \<Longrightarrow> i = 0" for i
    using assms(2,3) by blast+
  show ?thesis
    using assms(1)
  proof (cases rule: submit_step.cases)
    case (receive i r)
  then have "i = 0" using zero(2) [of i] by simp
  then show ?thesis using receive by simp
next
    case (count_shed i cl)
  then have "i = 0" using zero(1) [of i] by simp
  then show ?thesis using count_shed by (cases cl) (simp_all add: shed_def)
next
  case (accepted i r)
  then show ?thesis using zero [of i] by simp
next
  case (full_shed i r)
  then show ?thesis using zero [of i] by simp
next
  case (full_wait i r)
  then show ?thesis using zero [of i] by simp
next
  case (gone i r)
  then show ?thesis using zero [of i] by (auto split: if_splits)
next
  case (wait_ok i r)
  then show ?thesis using zero [of i] by simp
next
  case (wait_timeout i r)
  then show ?thesis using zero [of i] by simp
next
  case (count_enqueued i)
  then show ?thesis using zero [of i] by simp
next
  case (count_closed i)
  then show ?thesis using zero [of i] by simp
qed
qed

lemma path_inv_reach: "pipeline_reach env dir ldir p \<Longrightarrow> path_inv p"
proof (induction rule: pipeline_reach.induct)
  case (pl_start ios now c s bound)
  show ?case
    by (simp add: path_inv_def pipeline_start_def threads_init_def stats_default_def)
next
  case (pl_next p p')
  note inv = pl_next.IH [unfolded path_inv_def]
  from pl_next.hyps(2) show ?case
  proof (cases rule: pipeline_step.cases)
    case (pl_submit th rs)
    then show ?thesis
      using submit_step_entered [OF pl_submit(2) _ pl_submit(3)] inv
      by (simp add: path_inv_def subset_mset.add_mono)
  qed (use inv in \<open>simp_all add: path_inv_def\<close>)
qed

definition behind :: "pipeline \<Rightarrow> receipt \<Rightarrow> nat \<Rightarrow> bool" where
  "behind p e w \<longleftrightarrow> (\<exists>rs k. pl_owed p e = Some rs \<and> w = k mod 2 ^ 64 \<and> k \<le> length (pl_sent p) \<and> mset rs \<subseteq># mset (take k (pl_sent p)))"

lemma behind_mono:
  assumes "behind p e w" "pl_owed p' e = pl_owed p e" "pl_sent p' = pl_sent p @ rs"
  shows "behind p' e w"
proof -
  obtain os k where "pl_owed p e = Some os" "w = k mod 2 ^ 64" "k \<le> length (pl_sent p)" "mset os \<subseteq># mset (take k (pl_sent p))"
    using assms(1) by (auto simp: behind_def)
  then show ?thesis
    using assms(2,3) unfolding behind_def by (intro exI [of _ os] exI [of _ k]) simp
qed

lemma behind_bound:
  assumes "path_inv p" "pcs (pl_threads p) 0 = Idle" "pl_owed p' e = Some (pl_in_hand p)" "pl_sent p' = pl_sent p"
  shows "behind p' e (unat (enqueued (shared (pl_threads p))))"
proof -
  have "unat (enqueued (shared (pl_threads p))) = length (pl_sent p) mod 2 ^ 64"
    using assms(1,2) by (simp add: path_inv_def unat_of_nat)
  then show ?thesis
    using assms(1,3,4) unfolding behind_def path_inv_def
    by (intro exI [of _ "pl_in_hand p"] exI [of _ "length (pl_sent p)"]) simp
qed

definition log_inv :: "pipeline \<Rightarrow> bool" where
  "log_inv p \<longleftrightarrow> ack_reach (pl_hec_log p) (pl_hec p) \<and> published (pl_hec_log p) = pl_synced p
     \<and> wa_reach (pl_peer_log p) (pl_peer p) \<and> wa_published (pl_peer_log p) = pl_synced p
     \<and> (\<forall>s w. Bound s w \<in> set (pl_hec_log p) \<longrightarrow> behind p (HecBatch s) w)
     \<and> (\<forall>tk w. TBound tk w \<in> set (pl_peer_log p) \<longrightarrow> behind p (PeerTicket tk) w)"

lemma hec_step_ok:
  assumes "hec_step synced (h, t) (h', t')" "ack_reach h t" "published h = synced"
  shows "ack_reach h' t'" "published h' = synced" "Bound s w \<in> set h' \<Longrightarrow> Bound s w \<in> set h"
  using assms(1) by (cases rule: hec_step.cases, use assms(2,3) ack_reach.seq ack_reach.issue in auto)+

lemma peer_step_ok:
  assumes "peer_step synced (h, t) (h', t')" "wa_reach h t" "wa_published h = synced"
  shows "wa_reach h' t'" "wa_published h' = synced" "TBound tk w \<in> set h' \<Longrightarrow> TBound tk w \<in> set h"
proof -
  have "wa_reach h' t' \<and> wa_published h' = synced \<and> (TBound tk w \<in> set h' \<longrightarrow> TBound tk w \<in> set h)"
    using assms(1)
  proof (cases rule: peer_step.cases)
    case (peer_wait_turn loaded started now tk answer)
    have "wa_reach h' t'"
      using wa_wait [OF assms(2) _ peer_wait_turn(3)] peer_wait_turn(1,2) assms(3) by simp
    then show ?thesis
      using peer_wait_turn(1) assms(3) by (auto split: option.splits wal_wait.splits)
  qed (use assms(2,3) in \<open>auto intro: wa_reach.intros\<close>)
  then show "wa_reach h' t'" "wa_published h' = synced" "TBound tk w \<in> set h' \<Longrightarrow> TBound tk w \<in> set h"
    by blast+
qed

lemma log_inv_reach: "pipeline_reach env dir ldir p \<Longrightarrow> log_inv p"
proof (induction rule: pipeline_reach.induct)
  case (pl_start ios now c s bound)
  show ?case
    by (simp add: log_inv_def pipeline_start_def ack_reach.start wa_reach.wa_start)
next
  case (pl_next p p')
  note path = path_inv_reach [OF pl_next.hyps(1)] and flow = flow_inv_reach [OF pl_next.hyps(1)]
  have reach: "ack_reach (pl_hec_log p) (pl_hec p)" "published (pl_hec_log p) = pl_synced p"
      "wa_reach (pl_peer_log p) (pl_peer p)" "wa_published (pl_peer_log p) = pl_synced p"
    and hec: "\<And>s w. Bound s w \<in> set (pl_hec_log p) \<Longrightarrow> behind p (HecBatch s) w"
    and peer: "\<And>tk w. TBound tk w \<in> set (pl_peer_log p) \<Longrightarrow> behind p (PeerTicket tk) w"
    using pl_next.IH by (simp_all add: log_inv_def)
  have keep: "behind p e w \<Longrightarrow> pl_owed p' e = pl_owed p e \<Longrightarrow> pl_sent p' = pl_sent p \<Longrightarrow> behind p' e w" for e w
    using behind_mono [of p e w p' "[]"] by simp
  from pl_next.hyps(2) show ?case
  proof (cases rule: pipeline_step.cases)
    case pl_pick
    then show ?thesis using reach hec peer keep by (simp add: log_inv_def)
  next
    case (pl_submit th rs)
    then have "behind p e w \<Longrightarrow> behind p' e w" for e w
      using behind_mono [of p e w p' rs] by simp
    then show ?thesis using pl_submit(1) reach hec peer by (simp add: log_inv_def)
  next
    case (pl_hec_bind w s)
    have new: "behind p' (HecBatch s) w"
      using behind_bound [OF path pl_hec_bind(2), of p' "HecBatch s"] pl_hec_bind(1,3) by simp
    have "behind p' (HecBatch s1) w1" if "Bound s1 w1 \<in> set (pl_hec_log p')" for s1 w1
      using that new hec keep pl_hec_bind by (cases "s1 = s") auto
    moreover have "behind p' (PeerTicket tk) w1" if "TBound tk w1 \<in> set (pl_peer_log p')" for tk w1
      using that peer keep pl_hec_bind(1) by simp
    ultimately show ?thesis
      using pl_hec_bind reach ack_reach.bind [OF reach(1) pl_hec_bind(4,5)] by (simp add: log_inv_def)
  next
    case (pl_peer_bind w tk)
    have new: "behind p' (PeerTicket tk) w"
      using behind_bound [OF path pl_peer_bind(2), of p' "PeerTicket tk"] pl_peer_bind(1,3) by simp
    have "behind p' (PeerTicket tk1) w1" if "TBound tk1 w1 \<in> set (pl_peer_log p')" for tk1 w1
      using that new peer keep pl_peer_bind by (cases "tk1 = tk") auto
    moreover have "behind p' (HecBatch s) w1" if "Bound s w1 \<in> set (pl_hec_log p')" for s w1
      using that hec keep pl_peer_bind(1) by simp
    ultimately show ?thesis
      using pl_peer_bind reach wa_reach.wa_bound_to [OF reach(3)] by (simp add: log_inv_def)
  next
    case (pl_hec_use h t)
    note ok = hec_step_ok [OF pl_hec_use(2) reach(1,2)]
    show ?thesis
      using pl_hec_use(1) reach(3,4) ok(1,2) hec [OF ok(3)] peer keep by (simp add: log_inv_def)
  next
    case (pl_peer_use h t)
    note ok = peer_step_ok [OF pl_peer_use(2) reach(3,4)]
    show ?thesis
      using pl_peer_use(1) reach(1,2) ok(1,2) peer [OF ok(3)] hec keep by (simp add: log_inv_def)
  next
    case (pl_publish n pc)
    have "pl_synced p \<le> n"
      using flow pl_publish(2) by (auto simp: flow_inv_def safe_def)
    then show ?thesis
      using pl_publish(1) reach ack_reach.publish [OF reach(1)] wa_reach.wa_publish [OF reach(3)] hec peer keep
      by (simp add: log_inv_def max_absorb2)
  qed (use reach hec peer keep in \<open>simp_all add: log_inv_def\<close>)
qed

section \<open>An acknowledged record survives\<close>

text \<open>
  Killed in this state, whatever bytes end up behind the synced part of the segments under write: the two
  recoveries succeed, and give back the records \<open>rs\<close> between them.
\<close>

definition survives :: "wal_env \<Rightarrow> bool \<Rightarrow> split_wal \<Rightarrow> log_record list \<Rightarrow> bool" where
  "survives env tr s rs \<longleftrightarrow> (\<forall>garbage garbage'. \<exists>rep ks d rep' ks' d'.
     recover env tr (crash_dir (main_wal s) garbage) = (Inr rep, ks, d)
     \<and> recover env tr (crash_dir (late_wal s) garbage') = (Inr rep', ks', d')
     \<and> mset rs \<subseteq># mset (concat ks) + mset (concat ks'))"

lemma synced_recovered:
  assumes "wal_reach env dir bss w" "list_all (codec_ok env) bss" "recover env tr dir = (Inr r0, olds, dir0)"
  shows "\<exists>rep ks d. recover env tr (crash_dir w garbage) = (Inr rep, ks, d)
    \<and> mset (take (synced_records w) (concat bss)) \<subseteq># mset (concat ks)"
proof -
  obtain css ds ps where sh: "wal_shape env dir css ds ps w" and bss: "bss = concat css @ ds @ ps"
    using reach_shape [OF assms(1)] by blast
  have "list_all (codec_ok env) (concat css @ ds)"
    using assms(2) bss by auto
  then obtain rep d g where rec: "recover env tr (crash_dir w garbage) = (Inr rep, olds @ concat css @ ds @ snd (replay_loop env g garbage), d)"
    using crash_recover [OF sh _ assms(3)] by blast
  have "synced_records w = length (concat (concat css @ ds))"
    using sh by (simp only: wal_shape_def nrec_concat)
  then have "take (synced_records w) (concat bss) = concat (concat css @ ds)"
    by (simp add: bss)
  then show ?thesis
    using rec by (fastforce simp: subset_mset.add_increasing)
qed

lemma durable_survives:
  assumes "split_reach env dir ldir h bm bl s" "list_all (codec_ok env) (bm @ bl)"
    "recover env tr dir = (Inr r0, olds, dir0)" "recover env tr ldir = (Inr r1, olds_l, dir1)"
    "mset rs \<subseteq># durable_part s bm bl"
  shows "survives env tr s rs"
  unfolding survives_def
proof (intro allI)
  fix garbage garbage'
  have r: "wal_reach env dir bm (main_wal s)" "wal_reach env ldir bl (late_wal s)"
    using split_reach_both(1) [OF assms(1)] by (simp_all add: both_reach_def)
  obtain rep ks d where m: "recover env tr (crash_dir (main_wal s) garbage) = (Inr rep, ks, d)"
      "mset (take (synced_records (main_wal s)) (concat bm)) \<subseteq># mset (concat ks)"
    using synced_recovered [OF r(1) _ assms(3)] assms(2) by fastforce
  obtain rep' ks' d' where l: "recover env tr (crash_dir (late_wal s) garbage') = (Inr rep', ks', d')"
      "mset (take (synced_records (late_wal s)) (concat bl)) \<subseteq># mset (concat ks')"
    using synced_recovered [OF r(2) _ assms(4)] assms(2) by fastforce
  have "mset rs \<subseteq># mset (concat ks) + mset (concat ks')"
    using assms(5) m(2) l(2) unfolding durable_part_def by (meson subset_mset.add_mono subset_mset.order_trans)
  then show "\<exists>rep ks d rep' ks' d'. recover env tr (crash_dir (main_wal s) garbage) = (Inr rep, ks, d)
     \<and> recover env tr (crash_dir (late_wal s) garbage') = (Inr rep', ks', d')
     \<and> mset rs \<subseteq># mset (concat ks) + mset (concat ks')"
    using m(1) l(1) by blast
qed

lemma covered_is_durable:
  assumes "flow_inv env dir ldir p" "behind p e w" "w \<le> pl_synced p" "length (pl_sent p) < 2 ^ 64"
  shows "\<exists>rs. pl_owed p e = Some rs \<and> mset rs \<subseteq># durable_part (pl_split p) (pl_main p) (pl_late p)"
proof -
  obtain rs k where k: "pl_owed p e = Some rs" "w = k mod 2 ^ 64" "k \<le> length (pl_sent p)" "mset rs \<subseteq># mset (take k (pl_sent p))"
    using assms(2) by (auto simp: behind_def)
  then have "k \<le> pl_synced p"
    using assms(3,4) by simp
  moreover have synced: "pl_synced p \<le> length (concat (pl_given p))"
      "mset (take (pl_synced p) (concat (pl_given p))) \<subseteq># durable_part (pl_split p) (pl_main p) (pl_late p)"
      "pl_sent p = concat (pl_given p) @ in_writer (pl_writer p) @ pl_channel p"
    using assms(1) by (simp_all add: flow_inv_def safe_def)
  ultimately have "mset (take k (pl_sent p)) \<subseteq># mset (take (pl_synced p) (concat (pl_given p)))"
    using take_mset_mono [of k "pl_synced p" "concat (pl_given p)" "[]"] by simp
  then show ?thesis
    using k(1,4) synced(2) by (meson subset_mset.order_trans)
qed


section \<open>A concrete run\<close>

text \<open>Submitting one record to a queue with room: three steps of the record path.\<close>

lemma submit_run:
  assumes "pipeline_reach env dir ldir p" "pcs (pl_threads p) = (\<lambda>_. Idle)"
  obtains th where "pcs th = (\<lambda>_. Idle)" "enqueued (shared th) = enqueued (shared (pl_threads p)) + 1"
    "pipeline_reach env dir ldir (p\<lparr>pl_threads := th, pl_channel := pl_channel p @ [r], pl_sent := pl_sent p @ [r],
       pl_in_hand := pl_in_hand p @ [r]\<rparr>)"
proof -
  define t0 where "t0 = pl_threads p"
  define t1 where "t1 = t0\<lparr>pcs := (pcs t0)(0 := Offering r), shared := (shared t0)\<lparr>received := received (shared t0) + 1\<rparr>\<rparr>"
  define t2 where "t2 = t1\<lparr>pcs := (pcs t1)(0 := Counting Enqueued)\<rparr>"
  define t3 where "t3 = t2\<lparr>pcs := (pcs t2)(0 := Idle), shared := (shared t2)\<lparr>enqueued := enqueued (shared t2) + 1\<rparr>\<rparr>"
  have steps: "submit_step t0 t1" "submit_step t1 t2" "submit_step t2 t3"
    unfolding t1_def t2_def t3_def
    by (rule submit_step.receive, simp add: t0_def assms(2), rule submit_step.accepted, simp, rule submit_step.count_enqueued, simp)
  have pcs: "pcs t1 = (\<lambda>_. Idle)(0 := Offering r)" "pcs t2 = (\<lambda>_. Idle)(0 := Counting Enqueued)" "pcs t3 = (\<lambda>_. Idle)"
    by (auto simp: t1_def t2_def t3_def t0_def assms(2))
  have 1: "pipeline_reach env dir ldir (p\<lparr>pl_threads := t1\<rparr>)"
    using pl_next [OF assms(1) pl_submit [of p t1 "[]"]] steps(1) by (simp add: pcs t0_def assms(2))
  have 2: "pipeline_reach env dir ldir (p\<lparr>pl_threads := t2, pl_channel := pl_channel p @ [r], pl_sent := pl_sent p @ [r],
      pl_in_hand := pl_in_hand p @ [r]\<rparr>)"
    using pl_next [OF 1 pl_submit [of "p\<lparr>pl_threads := t1\<rparr>" t2 "[r]"]] steps(2) by (simp add: pcs)
  have "pipeline_reach env dir ldir (p\<lparr>pl_threads := t3, pl_channel := pl_channel p @ [r], pl_sent := pl_sent p @ [r],
      pl_in_hand := pl_in_hand p @ [r]\<rparr>)"
    using pl_next [OF 2 pl_submit [of "p\<lparr>pl_threads := t2, pl_channel := pl_channel p @ [r], pl_sent := pl_sent p @ [r],
      pl_in_hand := pl_in_hand p @ [r]\<rparr>" t3 "[]"]] steps(3) by (simp add: pcs)
  then show ?thesis
    using that [of t3] pcs(3) by (simp add: t3_def t2_def t1_def t0_def)
qed

text \<open>A HEC batch of two records, issued, bound, written, synced and published.\<close>

lemma demo_pipeline:
  obtains p where "pipeline_reach demo_env [] [] p" "query 2 (pl_hec p) ''c'' [0] = [(0, True)]"
    "pl_owed p (HecBatch 1) = Some demo_batch" "length (pl_sent p) < 2 ^ 64" "list_all (codec_ok demo_env) (pl_main p @ pl_late p)"
    "pl_synced p = 2" "\<And>s. Issued ''c'' 0 s \<in> set (pl_hec_log p) \<Longrightarrow> s = 1"
proof -
  obtain r1 r2 where rs: "demo_batch = [r1, r2]"
    by (simp add: demo_batch_def)
  have ne: "demo_batch \<noteq> []"
    by (simp add: demo_batch_def)
  define t1 where "t1 = snd (next_batch_seq ack_new)"
  define t2 where "t2 = snd (issue 0 t1 ''c'' 1)"
  define t3 where "t3 = bind_batch t2 1 2"
  define h2 where "h2 = [Seq 1, Issued ''c'' 0 1]"
  have issued: "issue 0 t1 ''c'' 1 = (0, t2)" and answer: "query 2 t3 ''c'' [0] = [(0, True)]"
    unfolding t3_def t2_def t1_def by code_simp+
  define p0 where "p0 = pipeline_start demo_split0 5"
  have 0: "pipeline_reach demo_env [] [] p0"
    unfolding p0_def by (rule pl_start [OF demo_split_run(1)])
  have "hec_step (pl_synced p0) (pl_hec_log p0, pl_hec p0) ([Seq 1], t1)"
    using hec_seq [of ack_new 1 t1 0 "[]"] by (simp add: p0_def pipeline_start_def t1_def next_batch_seq_def ack_new_def)
  from pl_next [OF 0 pl_hec_use [OF this]]
  have 1: "pipeline_reach demo_env [] [] (p0\<lparr>pl_hec := t1, pl_hec_log := [Seq 1]\<rparr>)" .
  define p2 where "p2 = p0\<lparr>pl_hec := t2, pl_hec_log := h2\<rparr>"
  have "hec_step 0 ([Seq 1], t1) (h2, t2)"
    using hec_issue [of 1 "[Seq 1]" 0 0 t1 "''c''" 0 t2] issued by (simp add: h2_def)
  then have 2: "pipeline_reach demo_env [] [] p2"
    using pl_next [OF 1 pl_hec_use [of _ h2 t2]] by (simp add: p2_def p0_def pipeline_start_def)
  obtain th1 where th1: "pcs th1 = (\<lambda>_. Idle)" "enqueued (shared th1) = 1"
      "pipeline_reach demo_env [] [] (p2\<lparr>pl_threads := th1, pl_channel := [r1], pl_sent := [r1], pl_in_hand := [r1]\<rparr>)"
    using submit_run [OF 2, of r1] by (auto simp: p2_def p0_def pipeline_start_def threads_init_def stats_default_def)
  obtain th2 where th2: "pcs th2 = (\<lambda>_. Idle)" "enqueued (shared th2) = 2"
      "pipeline_reach demo_env [] [] (p2\<lparr>pl_threads := th2, pl_channel := demo_batch, pl_sent := demo_batch, pl_in_hand := demo_batch\<rparr>)"
    using submit_run [OF th1(3), of r2] th1(1,2) by (auto simp: rs)
  define p3 where "p3 = p2\<lparr>pl_threads := th2, pl_sent := demo_batch, pl_in_hand := demo_batch, pl_hec := t3, pl_hec_log := h2 @ [Bound 1 2],
     pl_owed := [HecBatch 1 \<mapsto> demo_batch]\<rparr>"
  have 3: "pipeline_reach demo_env [] [] (p3\<lparr>pl_channel := demo_batch\<rparr>)"
    using pl_next [OF th2(3) pl_hec_bind [of _ 2 1]] th2(1,2)
    by (simp add: p3_def p2_def p0_def pipeline_start_def h2_def t3_def)
  have 4: "pipeline_reach demo_env [] [] (p3\<lparr>pl_channel := [r2], pl_writer := WTake [r1]\<rparr>)"
    using pl_next [OF 3 pl_take [of _ "[]" "WTake [r1]" r1 "[r2]"]]
    by (simp add: p3_def p2_def p0_def pipeline_start_def rs WAL_BATCH_def)
  have 5: "pipeline_reach demo_env [] [] (p3\<lparr>pl_channel := [], pl_writer := WTake demo_batch\<rparr>)"
    using pl_next [OF 4 pl_take [of _ "[r1]" "WTake [r1, r2]" r2 "[]"]] by (simp add: p3_def p2_def p0_def pipeline_start_def rs WAL_BATCH_def)
  have 6: "pipeline_reach demo_env [] [] (p3\<lparr>pl_channel := [], pl_writer := WAppend demo_batch\<rparr>)"
    using pl_next [OF 5 pl_write [of _ _ "WAppend demo_batch" demo_split0 "[]" "[]" "[]"]]
      w_taken [of demo_env False demo_batch demo_split0 "[]" "[]" "[]"]
    by (simp add: p3_def p2_def p0_def pipeline_start_def rs)
  have parts: "on_time_part demo_split0 50 demo_batch = demo_batch" "late_part demo_split0 50 demo_batch = []"
    by (simp_all add: on_time_part_def late_part_def demo_split0_def split_open_def wal_open_def create_segment_def
        demo_io_def demo_config_def)
  have 7: "pipeline_reach demo_env [] [] (p3\<lparr>pl_channel := [], pl_writer := WSync demo_batch, pl_split := demo_split1,
      pl_given := [demo_batch], pl_main := [demo_batch]\<rparr>)"
    using pl_next [OF 6 pl_write [of _ _ "WSync demo_batch" demo_split1 "[demo_batch]" "[demo_batch]" "[]"]]
      w_append [OF demo_split_run(2), of False "[]" "[]" "[]"]
    by (simp add: p3_def p2_def p0_def pipeline_start_def parts nonempty_def ne)
  have 8: "pipeline_reach demo_env [] [] (p3\<lparr>pl_channel := [], pl_writer := WPublish 2 demo_batch, pl_split := demo_split2,
      pl_given := [demo_batch], pl_main := [demo_batch]\<rparr>)"
    using pl_next [OF 7 pl_write [of _ _ "WPublish 2 demo_batch" demo_split2 "[demo_batch]" "[demo_batch]" "[]"]]
      w_sync [OF demo_split_run(3), of demo_env False demo_batch "[demo_batch]" "[demo_batch]" "[]"]
    by (simp add: p3_def p2_def p0_def pipeline_start_def)
  define p where "p = p3\<lparr>pl_channel := [], pl_writer := WCheck demo_batch, pl_split := demo_split2, pl_given := [demo_batch],
      pl_main := [demo_batch], pl_synced := 2, pl_hec_log := h2 @ [Bound 1 2, Published 2], pl_peer_log := [TPublished 2]\<rparr>"
  have 9: "pipeline_reach demo_env [] [] p"
    using pl_next [OF 8 pl_publish [of _ 2 "WCheck demo_batch"]]
    by (simp add: p_def p3_def p2_def p0_def pipeline_start_def)
  show ?thesis
    by (rule that [OF 9]) (use answer demo_codec_ok in \<open>auto simp: p_def p3_def p2_def p0_def pipeline_start_def rs h2_def\<close>)
qed


end
