(* ===== verification/Delivery_Queue.thy ===== *)
theory Delivery_Queue
  imports Main
begin

text \<open>
  What a consumer of the durable queue relies on. The state stands for the undelivered items in
  order, each with the position that delivering it moves the queue to. Reading does not consume;
  a commit of an item's position removes it and everything before it, or, when it fails, may have
  changed nothing; producers append.
\<close>

locale delivery_queue =
  fixes holds :: "'s \<Rightarrow> ('c \<times> 'a) list \<Rightarrow> bool"
    and front :: "nat \<Rightarrow> 's \<Rightarrow> ('c \<times> 'a) list"
    and commit_at :: "'s \<Rightarrow> 'c \<Rightarrow> bool \<times> 's"
    and enq :: "'s \<Rightarrow> 'a \<Rightarrow> bool \<times> 's"
  assumes front_holds: "holds s its \<Longrightarrow> front n s = take n its"
    and commit_holds: "holds s its \<Longrightarrow> j < length its \<Longrightarrow> commit_at s (fst (its ! j)) = (ok, s')
      \<Longrightarrow> holds s' (drop (Suc j) its) \<or> \<not> ok \<and> holds s' its"
    and enq_holds: "holds s its \<Longrightarrow> enq s a = (ok, s')
      \<Longrightarrow> if ok then \<exists>c. holds s' (its @ [(c, a)]) else holds s' its"
begin

lemma front_empty: "holds s its \<Longrightarrow> front (Suc n) s = [] \<longleftrightarrow> its = []"
  by (auto simp: front_holds)

text \<open>A state that producers appended to, between a read and a commit.\<close>

inductive grows :: "'s \<Rightarrow> 'a list \<Rightarrow> 's \<Rightarrow> bool" where
  grows_refl: "grows s [] s"
| grows_enq: "grows s as t \<Longrightarrow> enq t a = (ok, t') \<Longrightarrow> grows s (if ok then as @ [a] else as) t'"

lemma grows_holds:
  assumes "grows s as t" "holds s its"
  shows "\<exists>new. holds t (its @ new) \<and> map snd new = as"
  using assms
proof induction
  case (grows_refl s)
  then show ?case by (intro exI [of _ "[]"]) simp
next
  case (grows_enq s as t a ok t')
  then obtain new where new: "holds t (its @ new)" "map snd new = as" by blast
  show ?case
  proof (cases ok)
    case True
    then obtain c where "holds t' (its @ new @ [(c, a)])"
      using enq_holds [OF new(1) grows_enq.hyps(2)] by auto
    then show ?thesis using new True by (intro exI [of _ "new @ [(c, a)]"]) simp
  next
    case False
    then show ?thesis using enq_holds [OF new(1) grows_enq.hyps(2)] new by auto
  qed
qed

text \<open>
  A consumer that read the front, settled the first \<open>m\<close> items and commits the last of them, while
  producers appended \<open>as\<close>: the queue loses exactly those \<open>m\<close> items, or nothing if the commit failed.
\<close>

lemma commit_settled:
  assumes "holds s its" "grows s as t" "0 < m" "m \<le> length (front n s)"
    and "commit_at t (fst (front n s ! (m - 1))) = (ok, t')"
  shows "\<exists>new. map snd new = as \<and> (holds t' (drop m its @ new) \<or> \<not> ok \<and> holds t' (its @ new))"
proof -
  obtain new where new: "holds t (its @ new)" "map snd new = as"
    using grows_holds [OF assms(2,1)] by blast
  have m: "m \<le> length its" "front n s ! (m - 1) = (its @ new) ! (m - 1)"
    using assms(3,4) by (auto simp: front_holds [OF assms(1)] nth_append)
  then have "holds t' (drop m (its @ new)) \<or> \<not> ok \<and> holds t' (its @ new)"
    using commit_holds [OF new(1), of "m - 1" ok t'] assms(3,5) by simp
  then show ?thesis
    using m(1) new(2) by (intro exI [of _ new]) simp
qed

text \<open>A consumer that commits item by item, in order: the positions it read stay good.\<close>

lemma commit_next:
  assumes "holds s its" "front n s = (c, a) # rest" "commit_at s c = (True, s')"
  shows "holds s' (tl its) \<and> front (n - 1) s' = rest"
proof -
  have "its \<noteq> []" "fst (its ! 0) = c" "take n its = (c, a) # rest" "0 < n"
    using assms(2) by (cases its; cases n; auto simp: front_holds [OF assms(1)])+
  then have h: "holds s' (drop 1 its)"
    using commit_holds [OF assms(1), of 0 True s'] assms(3) by auto
  have "take (n - 1) (tl its) = rest"
    using \<open>take n its = (c, a) # rest\<close> by (cases its; cases n) auto
  then show ?thesis
    using h front_holds [OF h, of "n - 1"] by (simp add: drop_Suc)
qed

end

end
