(* ===== verification/Spool.thy ===== *)
theory Spool
  imports Framing Delivery_Queue "HOL-Library.AList" "HOL-Library.Multiset"
begin

text \<open>
  The durable outbound queue (\<^verbatim>\<open>spool.rs\<close>): segments of checksummed frames that are read from the
  front, and a cursor in a file of its own. The directory is an association list from segment ids to
  contents and the text of the cursor file, if there is one. Answers of the operating system are the
  argument \<open>spool_io\<close>; sizes and counters are naturals. The checksum is a parameter.
\<close>

section \<open>Segments and the cursor file\<close>

definition SPL_MAGIC :: bytes where
  "SPL_MAGIC = [0x4C, 0x47, 0x4C, 0x53, 0x53, 0x50, 0x4C, 0x01]"

definition SPL_HEADER_BYTES :: nat where "SPL_HEADER_BYTES = 8"
definition FRAME_OVERHEAD :: nat where "FRAME_OVERHEAD = 8"

datatype spool_error = SpoolIo | SpoolBadMagic | TooLarge nat nat

record cursor =
  segment :: nat
  offset :: nat

record spool_config =
  seg_limit :: nat
  max_total_bytes :: nat
  max_record_bytes :: nat

definition spool_config_default :: spool_config where
  "spool_config_default = \<lparr>seg_limit = 16 * 1024 * 1024, max_total_bytes = 512 * 1024 * 1024,
     max_record_bytes = 32 * 1024 * 1024\<rparr>"

record spool_dir =
  seg_files :: "(nat \<times> bytes) list"
  cursor_file :: "string option"

record spool = spool_dir +
  config :: spool_config
  write_segment :: nat
  writer :: nat
  write_offset :: nat
  spool_cursor :: cursor
  dropped_full :: nat

text \<open>\<open>writer\<close> is the id of the segment whose file is open for appending; a failed roll leaves it behind \<open>write_segment\<close>.\<close>

record spool_io =
  sp_write_fails :: "nat option"
  sp_sync_ok :: bool
  sp_create :: create_outcome
  sp_cursor_ok :: bool
  sp_remove_ok :: "nat \<Rightarrow> bool"

definition segment_path :: "nat \<Rightarrow> string" where
  "segment_path sid = ''spool-'' @ pad_nat 12 sid @ ''.log''"

definition spool_segment_id :: "string \<Rightarrow> nat option" where
  "spool_segment_id name =
     Option.bind (Option.bind (strip_prefix ''spool-'' name) (strip_suffix ''.log'')) (parse_unsigned u64_max)"

definition spool_segments :: "(nat \<times> bytes) list \<Rightarrow> nat list" where
  "spool_segments files = sort (map fst files)"

definition open_segment_for_append ::
  "spool_io \<Rightarrow> (nat \<times> bytes) list \<Rightarrow> nat \<Rightarrow> (spool_error + nat) \<times> (nat \<times> bytes) list" where
  "open_segment_for_append io files sid = (case map_of files sid of
     None \<Rightarrow> (case sp_create io of
         Created \<Rightarrow> (Inr SPL_HEADER_BYTES, AList.update sid SPL_MAGIC files)
       | Open_failed \<Rightarrow> (Inl SpoolIo, files)
       | Header_failed n \<Rightarrow> (Inl SpoolIo, AList.update sid (take n SPL_MAGIC) files))
   | Some file \<Rightarrow>
       if length file < 8 then (Inl SpoolIo, files)
       else if take 8 file \<noteq> SPL_MAGIC then (Inl SpoolBadMagic, files)
       else (Inr (length file), files))"

definition spool_read_frame :: "(bytes \<Rightarrow> u32) \<Rightarrow> bytes \<Rightarrow> (bytes \<times> bytes) option" where
  "spool_read_frame crc bs = (case read_full 8 bs of
     None \<Rightarrow> None
   | Some (head, r) \<Rightarrow>
       (let len = unat (u32_from_le (take 4 head)); c = u32_from_le (drop 4 head) in
        case read_full len r of
          None \<Rightarrow> None
        | Some (payload, r') \<Rightarrow> if crc payload \<noteq> c then None else Some (payload, r')))"

definition read_cursor :: "string option \<Rightarrow> cursor" where
  "read_cursor file = (case file of
     None \<Rightarrow> \<lparr>segment = 0, offset = 0\<rparr>
   | Some text \<Rightarrow>
       (let parts = split_on (CHR '':'') (trim text);
            num = (\<lambda>i d. case (if i < length parts then parse_unsigned u64_max (parts ! i) else None) of
                           None \<Rightarrow> d | Some n \<Rightarrow> n)
        in \<lparr>segment = num 0 0, offset = num 1 SPL_HEADER_BYTES\<rparr>))"

definition write_cursor :: "cursor \<Rightarrow> string" where
  "write_cursor c = show_nat (segment c) @ '':'' @ show_nat (offset c)"

section \<open>Operations\<close>

definition spool_open :: "spool_io \<Rightarrow> spool_dir \<Rightarrow> spool_config \<Rightarrow> (spool_error + spool) \<times> spool_dir" where
  "spool_open io dir cfg = (
     let segments = spool_segments (seg_files dir);
         cur = read_cursor (cursor_file dir);
         ws = (if segments = [] then 1 else last segments)
     in case open_segment_for_append io (seg_files dir) ws of
          (Inl e, files) \<Rightarrow> (Inl e, dir\<lparr>seg_files := files\<rparr>)
        | (Inr off, files) \<Rightarrow>
            (Inr \<lparr>seg_files = files, cursor_file = cursor_file dir, config = cfg,
                  write_segment = ws, writer = ws, write_offset = off,
                  spool_cursor = (if segment cur = 0
                    then \<lparr>segment = (if segments = [] then ws else hd segments), offset = SPL_HEADER_BYTES\<rparr>
                    else cur),
                  dropped_full = 0\<rparr>, dir\<lparr>seg_files := files\<rparr>))"

definition total_bytes :: "spool \<Rightarrow> nat" where
  "total_bytes s = sum_list (map (\<lambda>sid. case map_of (seg_files s) sid of None \<Rightarrow> 0 | Some f \<Rightarrow> length f)
     (spool_segments (seg_files s)))"

definition spool_roll :: "spool_io \<Rightarrow> spool \<Rightarrow> (spool_error + unit) \<times> spool" where
  "spool_roll io s = (
     if \<not> sp_sync_ok io then (Inl SpoolIo, s)
     else let s1 = s\<lparr>write_segment := write_segment s + 1\<rparr>
          in case open_segment_for_append io (seg_files s1) (write_segment s1) of
               (Inl e, files) \<Rightarrow> (Inl e, s1\<lparr>seg_files := files\<rparr>)
             | (Inr off, files) \<Rightarrow> (Inr (), s1\<lparr>seg_files := files, writer := write_segment s1, write_offset := off\<rparr>))"

text \<open>An append to the open segment file; one that was unlinked meanwhile is no longer in the directory.\<close>

definition append_file :: "nat \<Rightarrow> bytes \<Rightarrow> (nat \<times> bytes) list \<Rightarrow> (nat \<times> bytes) list" where
  "append_file sid bs files = (case map_of files sid of
     None \<Rightarrow> files | Some f \<Rightarrow> AList.update sid (f @ bs) files)"

definition push :: "(bytes \<Rightarrow> u32) \<Rightarrow> spool_io \<Rightarrow> spool \<Rightarrow> bytes \<Rightarrow> (spool_error + bool) \<times> spool" where
  "push crc io s payload = (
     if max_record_bytes (config s) < length payload
     then (Inl (TooLarge (length payload) (max_record_bytes (config s))), s)
     else if max_total_bytes (config s) < total_bytes s + length payload
     then (Inr False, s\<lparr>dropped_full := dropped_full s + 1\<rparr>)
     else try_then
       (if seg_limit (config s) < write_offset s + FRAME_OVERHEAD + length payload
           \<and> SPL_HEADER_BYTES < write_offset s
        then spool_roll io s else (Inr (), s))
       (\<lambda>_ s1. let fr = frame crc payload in
          case sp_write_fails io of
            Some k \<Rightarrow> (Inl SpoolIo, s1\<lparr>seg_files := append_file (writer s1) (take k fr) (seg_files s1)\<rparr>)
          | None \<Rightarrow> (Inr True, s1\<lparr>seg_files := append_file (writer s1) fr (seg_files s1),
                                  write_offset := write_offset s1 + length fr\<rparr>)))"

definition spool_sync :: "spool_io \<Rightarrow> spool \<Rightarrow> (spool_error + unit) \<times> spool" where
  "spool_sync io s = (if sp_sync_ok io then (Inr (), s) else (Inl SpoolIo, s))"

text \<open>The frames of one segment from an offset on, at most \<open>n\<close>: whether \<open>n\<close> was reached, and the end offset.\<close>

fun read_segment :: "(bytes \<Rightarrow> u32) \<Rightarrow> nat \<Rightarrow> nat \<Rightarrow> nat \<Rightarrow> bytes \<Rightarrow> bool \<times> (cursor \<times> bytes) list \<times> nat" where
  "read_segment crc 0 sid off bs = (True, [], off)"
| "read_segment crc (Suc n) sid off bs = (case spool_read_frame crc bs of
     None \<Rightarrow> (False, [], off)
   | Some (payload, rest) \<Rightarrow>
       (let off' = off + FRAME_OVERHEAD + length payload;
            (full, out, e) = read_segment crc n sid off' rest
        in (full, (\<lparr>segment = sid, offset = off'\<rparr>, payload) # out, e)))"

fun peek_segments ::
  "(bytes \<Rightarrow> u32) \<Rightarrow> (nat \<times> bytes) list \<Rightarrow> nat \<Rightarrow> nat \<Rightarrow> nat \<Rightarrow> nat list \<Rightarrow> (cursor \<times> bytes) list" where
  "peek_segments crc files n at_seg at_off [] = []"
| "peek_segments crc files n at_seg at_off (sid # sids) =
     (let (at_seg, at_off) = (if at_seg < sid then (sid, SPL_HEADER_BYTES) else (at_seg, at_off))
      in case map_of files sid of
           None \<Rightarrow> peek_segments crc files n at_seg at_off sids
         | Some f \<Rightarrow>
             (case read_segment crc n sid at_off (drop at_off f) of
                (full, out, e) \<Rightarrow> if full then out
                  else out @ peek_segments crc files (n - length out) sid e sids))"

definition peek :: "(bytes \<Rightarrow> u32) \<Rightarrow> nat \<Rightarrow> spool \<Rightarrow> (cursor \<times> bytes) list" where
  "peek crc n s = peek_segments crc (seg_files s) n (segment (spool_cursor s)) (offset (spool_cursor s))
     (filter (\<lambda>sid. segment (spool_cursor s) \<le> sid) (spool_segments (seg_files s)))"

text \<open>The unlinking loop of a commit, which stops at the first file it cannot remove.\<close>

fun unlink_behind :: "spool_io \<Rightarrow> nat \<Rightarrow> nat \<Rightarrow> nat list \<Rightarrow> (nat \<times> bytes) list \<Rightarrow> (spool_error + unit) \<times> (nat \<times> bytes) list" where
  "unlink_behind io c ws [] files = (Inr (), files)"
| "unlink_behind io c ws (sid # sids) files =
     (if sid < c \<and> sid \<noteq> ws
      then (if sp_remove_ok io sid then unlink_behind io c ws sids (AList.delete sid files)
            else (Inl SpoolIo, files))
      else unlink_behind io c ws sids files)"

definition spool_commit :: "spool_io \<Rightarrow> spool \<Rightarrow> cursor \<Rightarrow> (spool_error + unit) \<times> spool" where
  "spool_commit io s c = (
     if \<not> sp_cursor_ok io then (Inl SpoolIo, s)
     else let s1 = s\<lparr>cursor_file := Some (write_cursor c), spool_cursor := c\<rparr>
          in case unlink_behind io (segment c) (write_segment s1) (spool_segments (seg_files s1)) (seg_files s1) of
               (r, files) \<Rightarrow> (r, s1\<lparr>seg_files := files\<rparr>))"

definition pending_bytes :: "spool \<Rightarrow> nat" where
  "pending_bytes s = total_bytes s - offset (spool_cursor s)"

definition spool_is_empty :: "(bytes \<Rightarrow> u32) \<Rightarrow> spool \<Rightarrow> bool" where
  "spool_is_empty crc s \<longleftrightarrow> peek crc 1 s = []"

section \<open>Frames of the spool\<close>

definition spool_fits :: "bytes \<Rightarrow> bool" where
  "spool_fits p \<longleftrightarrow> length p < 2 ^ 32"

lemma unat_of_spool_length: "spool_fits p \<Longrightarrow> unat (of_nat (length p) :: u32) = length p"
  by (simp add: spool_fits_def unat_of_nat take_bit_eq_mod)

lemma spool_read_frame_sound:
  assumes "spool_read_frame crc bs = Some (p, rest)"
  shows "spool_fits p \<and> bs = frame crc p @ rest"
proof -
  define len where "len = u32_from_le (take 4 (take 8 bs))"
  have *: "8 \<le> length bs" "unat len \<le> length (drop 8 bs)"
    "p = take (unat len) (drop 8 bs)" "rest = drop (unat len) (drop 8 bs)"
    "u32_from_le (drop 4 (take 8 bs)) = crc p"
    using assms by (auto simp: spool_read_frame_def read_full_def Let_def len_def split: if_splits)
  have lenp: "length p = unat len"
    using * by simp
  have 1: "u32_to_le len = take 4 (take 8 bs)"
    unfolding len_def using *(1) by (intro le_to_u32_roundtrip) simp
  have 2: "u32_to_le (crc p) = drop 4 (take 8 bs)"
    unfolding *(5) [symmetric] using *(1) by (intro le_to_u32_roundtrip) simp
  have "frame crc p @ rest = (take 4 (take 8 bs) @ drop 4 (take 8 bs)) @ p @ rest"
    by (simp add: frame_def lenp 1 2 del: take_take)
  also have "\<dots> = bs"
    by (simp only: append_take_drop_id *(3,4))
  finally show ?thesis
    using lenp unsigned_less [of len, where ?'a = nat] by (simp add: spool_fits_def)
qed

interpretation spool_frames: frame_codec "frame crc" "spool_read_frame crc" spool_fits for crc
proof
  fix p rest :: bytes and k :: nat
  show "length (frame crc p) = 8 + length p"
    by (rule length_frame)
  show "spool_read_frame crc (frame crc p @ rest) = Some (p, rest)" if "spool_fits p"
    using unat_of_spool_length [OF that]
    by (simp add: spool_read_frame_def read_full_def length_frame frame_parts Let_def)
  show "spool_read_frame crc (take k (frame crc p)) = None" if "spool_fits p" "k < length (frame crc p)"
    using unat_of_spool_length [OF that(1)] that(2)
    by (auto simp: spool_read_frame_def read_full_def length_frame frame_parts Let_def min_def)
qed (rule spool_read_frame_sound)

section \<open>The queue a spool holds\<close>

definition spool_file :: "(bytes \<Rightarrow> u32) \<Rightarrow> bytes list \<Rightarrow> bytes" where
  "spool_file crc ps = SPL_MAGIC @ concat (map (frame crc) ps)"

fun seg_alist :: "(bytes \<Rightarrow> u32) \<Rightarrow> nat \<Rightarrow> bytes list list \<Rightarrow> (nat \<times> bytes) list" where
  "seg_alist crc a [] = []"
| "seg_alist crc a (ps # pss) = (a, spool_file crc ps) # seg_alist crc (Suc a) pss"

text \<open>
  The segments from \<open>a\<close> on hold the payloads \<open>pss\<close>, the last of them is the one under write, and the
  first \<open>k\<close> payloads of the first one are delivered. Delivered segments that could not be unlinked
  (\<open>old\<close>) may still be there.
\<close>

definition spool_shape :: "(bytes \<Rightarrow> u32) \<Rightarrow> nat \<Rightarrow> bytes list list \<Rightarrow> nat \<Rightarrow> spool \<Rightarrow> bool" where
  "spool_shape crc a pss k s \<longleftrightarrow> pss \<noteq> [] \<and> 0 < a
     \<and> (\<exists>old. seg_files s = old @ seg_alist crc a pss \<and> (\<forall>i \<in> fst ` set old. i < a)
          \<and> (cursor_file s = Some (write_cursor (spool_cursor s)) \<or> cursor_file s = None \<and> k = 0 \<and> old = []))
     \<and> writer s = a + length pss - 1 \<and> write_segment s = writer s
     \<and> write_offset s = length (spool_file crc (last pss))
     \<and> k \<le> length (hd pss)
     \<and> spool_cursor s = \<lparr>segment = a, offset = length (spool_file crc (take k (hd pss)))\<rparr>
     \<and> list_all (list_all spool_fits) pss
     \<and> max_record_bytes (config s) < 2 ^ 32"

lemma length_spool_file: "length (spool_file crc ps) = SPL_HEADER_BYTES + length (concat (map (frame crc) ps))"
  by (simp add: spool_file_def SPL_MAGIC_def SPL_HEADER_BYTES_def)

lemma seg_alist_append: "seg_alist crc a (pss @ qss) = seg_alist crc a pss @ seg_alist crc (a + length pss) qss"
  by (induction pss arbitrary: a) simp_all

lemma seg_alist_keys: "map fst (seg_alist crc a pss) = [a..<a + length pss]"
  by (induction pss arbitrary: a) (simp_all add: upt_rec)

lemma seg_alist_dom: "fst ` set (seg_alist crc a pss) = {a..<a + length pss}"
  using arg_cong [OF seg_alist_keys, of set] by simp

lemma seg_alist_mem: "x \<in> set (seg_alist crc a pss) \<Longrightarrow> a \<le> fst x \<and> fst x < a + length pss"
  using seg_alist_dom [of crc a pss] by (metis atLeastLessThan_iff image_eqI)

lemma map_of_seg_alist:
  "map_of (seg_alist crc a pss) i = (if a \<le> i \<and> i < a + length pss then Some (spool_file crc (pss ! (i - a))) else None)"
  by (induction pss arbitrary: a) (auto simp: nth_Cons' le_less Suc_diff_Suc split: nat.split, (metis Suc_diff_Suc diff_Suc_Suc)?)

lemma spool_segments_seg_alist: "spool_segments (seg_alist crc a pss) = [a..<a + length pss]"
  by (simp add: spool_segments_def seg_alist_keys sorted_sort_id)

text \<open>The payloads of a segment with the cursor each one ends at.\<close>

fun marked :: "nat \<Rightarrow> nat \<Rightarrow> bytes list \<Rightarrow> (cursor \<times> bytes) list" where
  "marked sid off [] = []"
| "marked sid off (p # ps) = (\<lparr>segment = sid, offset = off + 8 + length p\<rparr>, p) # marked sid (off + 8 + length p) ps"

fun marked_all :: "nat \<Rightarrow> nat \<Rightarrow> bytes list list \<Rightarrow> (cursor \<times> bytes) list" where
  "marked_all a off [] = []"
| "marked_all a off (ps # pss) = marked a off ps @ marked_all (Suc a) SPL_HEADER_BYTES pss"

text \<open>The undelivered records, in order, each with the cursor that delivering it moves to.\<close>

definition spool_items :: "(bytes \<Rightarrow> u32) \<Rightarrow> spool \<Rightarrow> (cursor \<times> bytes) list \<Rightarrow> bool" where
  "spool_items crc s its \<longleftrightarrow> (\<exists>a pss k. spool_shape crc a pss k s
     \<and> its = marked_all a (length (spool_file crc (take k (hd pss)))) (drop k (hd pss) # tl pss))"

lemma marked_payloads [simp]: "map snd (marked sid off ps) = ps"
  by (induction ps arbitrary: off) simp_all

lemma marked_all_payloads [simp]: "map snd (marked_all a off pss) = concat pss"
  by (induction pss arbitrary: a off) simp_all

lemma read_segment_frames:
  assumes "list_all spool_fits ps"
  shows "read_segment crc n sid off (concat (map (frame crc) ps)) =
    (n \<le> length ps, take n (marked sid off ps), off + length (concat (map (frame crc) (take n ps))))"
  using assms
proof (induction ps arbitrary: n off)
  case Nil
  show ?case by (cases n) (simp_all add: spool_frames.rd_Nil)
next
  case (Cons p ps)
  then show ?case
    by (cases n) (simp_all add: spool_frames.rd_wr FRAME_OVERHEAD_def length_frame Let_def)
qed

lemma length_marked [simp]: "length (marked sid off ps) = length ps"
  by (induction ps arbitrary: off) simp_all

lemma upt_length_Cons: "[a..<a + length (x # xs)] = a # [Suc a..<Suc a + length xs]"
  by (subst upt_conv_Cons) simp_all

lemma drop_spool_file:
  "drop (length (spool_file crc (take k ps))) (spool_file crc ps) = concat (map (frame crc) (drop k ps))"
proof -
  have "spool_file crc ps = spool_file crc (take k ps) @ concat (map (frame crc) (drop k ps))"
    unfolding spool_file_def append_assoc by (metis append_take_drop_id concat_append map_append)
  then show ?thesis by simp
qed

lemma peek_segments_rest:
  assumes "\<And>i. i < length pss \<Longrightarrow> map_of files (a + i) = Some (spool_file crc (pss ! i))"
    "list_all (list_all spool_fits) pss" "at_seg < a"
  shows "peek_segments crc files n at_seg off [a..<a + length pss] = take n (marked_all a SPL_HEADER_BYTES pss)"
  using assms
proof (induction pss arbitrary: a n at_seg off)
  case Nil
  then show ?case by simp
next
  case (Cons ps pss)
  have "drop SPL_HEADER_BYTES (spool_file crc ps) = concat (map (frame crc) ps)"
    using drop_spool_file [of crc 0 ps] by (simp add: length_spool_file)
  moreover have "map_of files a = Some (spool_file crc ps)"
    using Cons.prems(1) [of 0] by simp
  moreover have "peek_segments crc files m a e [Suc a..<Suc a + length pss] = take m (marked_all (Suc a) SPL_HEADER_BYTES pss)" for m e
    using Cons.prems(1) [of "Suc i" for i] Cons.prems(2) by (intro Cons.IH) simp_all
  moreover have "list_all spool_fits ps"
    using Cons.prems(2) by simp
  ultimately show ?case
    unfolding upt_length_Cons using Cons.prems(3) by (simp add: read_segment_frames)
qed

lemma files_shape:
  assumes "spool_shape crc a pss k s"
  shows "a \<le> i \<Longrightarrow> map_of (seg_files s) i = (if i < a + length pss then Some (spool_file crc (pss ! (i - a))) else None)"
    and "filter (\<lambda>sid. a \<le> sid) (spool_segments (seg_files s)) = [a..<a + length pss]"
    and "spool_segments (seg_files s) \<noteq> []" and "last (spool_segments (seg_files s)) = a + length pss - 1"
proof -
  obtain old where old: "seg_files s = old @ seg_alist crc a pss" "\<forall>i \<in> fst ` set old. i < a" and ne: "pss \<noteq> []"
    using assms by (auto simp: spool_shape_def)
  have "map_of old i = None" if "a \<le> i" for i
    using old(2) that by (auto simp: map_of_eq_None_iff)
  then show "map_of (seg_files s) i = (if i < a + length pss then Some (spool_file crc (pss ! (i - a))) else None)" if "a \<le> i"
    using that by (simp add: old(1) map_of_seg_alist map_add_def)
  have sort: "spool_segments (seg_files s) = sort (map fst old) @ [a..<a + length pss]"
    unfolding spool_segments_def old(1) map_append seg_alist_keys
  proof (rule properties_for_sort)
    show "sorted (sort (map fst old) @ [a..<a + length pss])"
      using old(2) by (fastforce simp: sorted_append)
  qed simp
  have "filter (\<lambda>sid. a \<le> sid) (sort (map fst old)) = []"
    using old(2) by (fastforce simp: filter_empty_conv)
  then show "filter (\<lambda>sid. a \<le> sid) (spool_segments (seg_files s)) = [a..<a + length pss]"
    by (simp add: sort filter_id_conv)
  show "spool_segments (seg_files s) \<noteq> []" "last (spool_segments (seg_files s)) = a + length pss - 1"
    using ne by (simp_all add: sort)
qed

lemma peek_shape:
  assumes "spool_shape crc a pss k s"
  shows "peek crc n s = take n (marked_all a (length (spool_file crc (take k (hd pss)))) (drop k (hd pss) # tl pss))"
proof -
  obtain ps pss' where pss: "pss = ps # pss'"
    using assms by (cases pss) (auto simp: spool_shape_def)
  let ?off = "length (spool_file crc (take k ps))"
  have fits: "list_all spool_fits (drop k ps)" "list_all (list_all spool_fits) pss'"
    and cur: "spool_cursor s = \<lparr>segment = a, offset = ?off\<rparr>"
    using assms pss by (auto simp: spool_shape_def list_all_iff dest: in_set_dropD)
  have "filter (\<lambda>sid. a \<le> sid) (spool_segments (seg_files s)) = a # [Suc a..<Suc a + length pss']"
    using files_shape(2) [OF assms] unfolding pss upt_length_Cons .
  moreover have "peek_segments crc (seg_files s) m a e [Suc a..<Suc a + length pss']
      = take m (marked_all (Suc a) SPL_HEADER_BYTES pss')" for m e
    using fits(2) files_shape(1) [OF assms] by (intro peek_segments_rest) (simp_all add: pss)
  moreover have "map_of (seg_files s) a = Some (spool_file crc ps)"
    using files_shape(1) [OF assms, of a] by (simp add: pss)
  ultimately show ?thesis
    using fits(1) unfolding peek_def cur by (simp add: drop_spool_file read_segment_frames pss)
qed

lemma marked_append:
  "marked sid off (ps @ qs) = marked sid off ps @ marked sid (off + length (concat (map (frame crc) ps))) qs"
  by (induction ps arbitrary: off) (simp_all add: length_frame add.assoc)

lemma marked_nth:
  "j < length ps \<Longrightarrow> fst (marked sid off ps ! j) =
    \<lparr>segment = sid, offset = off + length (concat (map (frame crc) (take (Suc j) ps)))\<rparr>"
  by (induction ps arbitrary: j off) (auto simp: nth_Cons' length_frame take_Cons' less_Suc_eq_0_disj)

lemma drop_marked:
  "j \<le> length ps \<Longrightarrow> drop j (marked sid off ps) = marked sid (off + length (concat (map (frame crc) (take j ps)))) (drop j ps)"
  using marked_append [of sid off "take j ps" "drop j ps" crc] by simp

lemma length_marked_all [simp]: "length (marked_all a off pss) = length (concat pss)"
  by (induction pss arbitrary: a off) simp_all

lemma marked_all_nth:
  assumes "j < length (concat pss)"
  shows "\<exists>i k off'. i < length pss \<and> k \<le> length (pss ! i)
    \<and> off' = (if i = 0 then off else SPL_HEADER_BYTES) + length (concat (map (frame crc) (take k (pss ! i))))
    \<and> fst (marked_all a off pss ! j) = \<lparr>segment = a + i, offset = off'\<rparr>
    \<and> drop (Suc j) (marked_all a off pss) = marked_all (a + i) off' (drop k (pss ! i) # drop (Suc i) pss)"
  using assms
proof (induction pss arbitrary: a off j)
  case Nil
  then show ?case by simp
next
  case (Cons ps pss)
  show ?case
  proof (cases "j < length ps")
    case True
    then show ?thesis
      using marked_nth [OF True, of a off crc] drop_marked [of "Suc j" ps a off crc]
      by (intro exI [of _ 0] exI [of _ "Suc j"] exI) (simp add: nth_append)
  next
    case False
    then have lt: "j - length ps < length (concat pss)"
      using Cons.prems by simp
    from Cons.IH [OF this, of SPL_HEADER_BYTES "Suc a"] obtain i k where
      ik: "i < length pss" "k \<le> length (pss ! i)"
      "fst (marked_all (Suc a) SPL_HEADER_BYTES pss ! (j - length ps)) = \<lparr>segment = Suc a + i,
        offset = SPL_HEADER_BYTES + length (concat (map (frame crc) (take k (pss ! i))))\<rparr>"
      "drop (Suc (j - length ps)) (marked_all (Suc a) SPL_HEADER_BYTES pss) =
        marked_all (Suc a + i) (SPL_HEADER_BYTES + length (concat (map (frame crc) (take k (pss ! i)))))
          (drop k (pss ! i) # drop (Suc i) pss)"
      by (auto split: if_splits)
    have "Suc j - length ps = Suc (j - length ps)"
      using False by simp
    with ik False show ?thesis
      by (intro exI [of _ "Suc i"] exI [of _ k] exI) (simp add: nth_append)
  qed
qed

lemma unlink_behind_keeps:
  assumes "unlink_behind io c ws sids files = (r, files')"
  shows "\<exists>keep. files' = filter (\<lambda>(i, _). keep i) files \<and> (\<forall>i. i < c \<and> i \<noteq> ws \<or> keep i)
    \<and> (r = Inr () \<longrightarrow> (\<forall>i \<in> set sids. keep i \<longrightarrow> c \<le> i \<or> i = ws))"
  using assms
proof (induction sids arbitrary: files)
  case Nil
  then show ?case by (intro exI [of _ "\<lambda>_. True"]) (auto simp: filter_id_conv)
next
  case (Cons sid sids)
  show ?case
  proof (cases "sid < c \<and> sid \<noteq> ws")
    case gone: True
    show ?thesis
    proof (cases "sp_remove_ok io sid")
      case True
      with Cons.prems gone have "unlink_behind io c ws sids (AList.delete sid files) = (r, files')" by simp
      from Cons.IH [OF this] obtain keep where "files' = filter (\<lambda>(i, _). keep i) (AList.delete sid files)"
        "\<forall>i. i < c \<and> i \<noteq> ws \<or> keep i" "r = Inr () \<longrightarrow> (\<forall>i \<in> set sids. keep i \<longrightarrow> c \<le> i \<or> i = ws)"
        by blast
      then show ?thesis
        using gone by (intro exI [of _ "\<lambda>i. i \<noteq> sid \<and> keep i"]) (auto simp: AList.delete_eq intro!: filter_cong)
    next
      case False
      then show ?thesis
        using Cons gone by (intro exI [of _ "\<lambda>_. True"]) (auto simp: filter_id_conv)
    qed
  next
    case False
    with Cons.prems have "unlink_behind io c ws sids files = (r, files')" by simp
    from Cons.IH [OF this] False show ?thesis by fastforce
  qed
qed

lemma spool_items_peek: "spool_items crc s its \<Longrightarrow> peek crc n s = take n its"
  by (auto simp: spool_items_def peek_shape)

lemma spool_items_commit:
  assumes items: "spool_items crc s its" and j: "j < length its"
    and commit: "spool_commit io s (fst (its ! j)) = (r, s')" and ok: "sp_cursor_ok io"
  shows "spool_items crc s' (drop (Suc j) its)"
proof -
  obtain a pss k where sh: "spool_shape crc a pss k s"
    and its: "its = marked_all a (length (spool_file crc (take k (hd pss)))) (drop k (hd pss) # tl pss)"
    using items by (auto simp: spool_items_def)
  obtain ps pss' where pss: "pss = ps # pss'"
    using sh by (cases pss) (auto simp: spool_shape_def)
  have k: "k \<le> length ps"
    using sh pss by (simp add: spool_shape_def)
  define c where "c = fst (its ! j)"
  have jl: "j < length (concat (drop k ps # pss'))"
    using j by (simp add: its pss)
  obtain i m off' where i: "i < length (drop k ps # pss')" and m: "m \<le> length ((drop k ps # pss') ! i)"
    and off': "off' = (if i = 0 then length (spool_file crc (take k ps)) else SPL_HEADER_BYTES)
        + length (concat (map (frame crc) (take m ((drop k ps # pss') ! i))))"
    and c: "c = \<lparr>segment = a + i, offset = off'\<rparr>"
    and rest: "drop (Suc j) its = marked_all (a + i) off' (drop m ((drop k ps # pss') ! i) # drop (Suc i) (drop k ps # pss'))"
    using marked_all_nth [OF jl, of "length (spool_file crc (take k ps))" crc a] unfolding its pss c_def list.sel by blast
  then have i: "i < length pss"
    by (simp add: pss)
  define k' where "k' = (if i = 0 then k + m else m)"
  have k': "k' \<le> length (hd (drop i pss))" "off' = length (spool_file crc (take k' (hd (drop i pss))))"
    "drop m ((drop k ps # pss') ! i) = drop k' (hd (drop i pss))"
    using k m i off'
    by (cases i; auto simp: k'_def pss length_spool_file hd_drop_conv_nth add.commute take_add drop_drop)+
  have tl: "drop (Suc i) (drop k ps # pss') = tl (drop i pss)"
    by (simp add: pss drop_Suc tl_drop)
  obtain files' where files': "s' = s\<lparr>cursor_file := Some (write_cursor c), spool_cursor := c, seg_files := files'\<rparr>"
    and unlink: "unlink_behind io (a + i) (write_segment s) (spool_segments (seg_files s)) (seg_files s) = (r, files')"
    using commit ok by (auto simp: spool_commit_def c_def [symmetric] c split: prod.splits)
  obtain keep where f': "files' = filter (\<lambda>(i, _). keep i) (seg_files s)"
    and keep: "\<And>j. a + i \<le> j \<Longrightarrow> keep j"
    using unlink_behind_keeps [OF unlink] by (metis leD)
  obtain old where old: "seg_files s = old @ seg_alist crc a pss" "\<forall>i \<in> fst ` set old. i < a"
    using sh by (auto simp: spool_shape_def)
  have split: "seg_files s = (old @ seg_alist crc a (take i pss)) @ seg_alist crc (a + i) (drop i pss)"
    using seg_alist_append [of crc a "take i pss" "drop i pss"] i by (simp add: old(1))
  have all: "filter (\<lambda>(j, _). keep j) (seg_alist crc (a + i) (drop i pss)) = seg_alist crc (a + i) (drop i pss)"
    by (intro filter_True) (fastforce dest: seg_alist_mem intro: keep)
  have "\<forall>x \<in> fst ` set (filter (\<lambda>(j, _). keep j) (old @ seg_alist crc a (take i pss))). x < a + i"
    using old(2) i by (auto dest!: seg_alist_mem)
  then obtain old' where "files' = old' @ seg_alist crc (a + i) (drop i pss)" "\<forall>x \<in> fst ` set old'. x < a + i"
    unfolding f' split filter_append all by blast
  then have "\<exists>old. seg_files s' = old @ seg_alist crc (a + i) (drop i pss) \<and> (\<forall>x \<in> fst ` set old. x < a + i)
      \<and> (cursor_file s' = Some (write_cursor (spool_cursor s')) \<or> cursor_file s' = None \<and> k' = 0 \<and> old = [])"
    by (auto simp: files')
  then have "spool_shape crc (a + i) (drop i pss) k' s'"
    using sh k' i by (auto simp: spool_shape_def files' c list_all_iff dest: in_set_dropD)
  then show ?thesis
    unfolding spool_items_def rest k'(2,3) tl by blast
qed

lemma update_append_right: "k \<notin> fst ` set xs \<Longrightarrow> AList.update k v (xs @ ys) = xs @ AList.update k v ys"
  by (induction xs) auto

lemma update_seg_alist_new:
  "AList.update (a + length pss) (spool_file crc ps) (seg_alist crc a pss) = seg_alist crc a (pss @ [ps])"
  by (induction pss arbitrary: a) (auto, metis add_Suc)

lemma update_seg_alist_last:
  "AList.update (a + length pss) (spool_file crc qs) (seg_alist crc a (pss @ [ps])) = seg_alist crc a (pss @ [qs])"
  by (induction pss arbitrary: a) (auto, metis add_Suc)

lemma spool_file_snoc: "spool_file crc (ps @ [p]) = spool_file crc ps @ frame crc p"
  by (simp add: spool_file_def)

lemma shape_spool_roll:
  assumes sh: "spool_shape crc a pss k s" and roll: "spool_roll io s = (Inr (), s')"
  shows "spool_shape crc a (pss @ [[]]) k s'"
proof -
  obtain old where old: "seg_files s = old @ seg_alist crc a pss" "\<forall>i \<in> fst ` set old. i < a"
    "cursor_file s = Some (write_cursor (spool_cursor s)) \<or> cursor_file s = None \<and> k = 0 \<and> old = []"
    and ne: "pss \<noteq> []" and ws: "write_segment s = a + length pss - 1"
    using sh by (auto simp: spool_shape_def)
  have ws1: "write_segment s + 1 = a + length pss"
    using ws ne by (cases pss) simp_all
  have none: "map_of (seg_files s) (a + length pss) = None"
    using files_shape(1) [OF sh, of "a + length pss"] by simp
  have s': "s' = s\<lparr>write_segment := a + length pss, seg_files := AList.update (a + length pss) SPL_MAGIC (seg_files s),
      writer := a + length pss, write_offset := SPL_HEADER_BYTES\<rparr>"
    using roll none by (auto simp: spool_roll_def open_segment_for_append_def ws1 [simplified] Let_def
        split: if_splits create_outcome.splits)
  have "AList.update (a + length pss) SPL_MAGIC (seg_alist crc a pss) = seg_alist crc a (pss @ [[]])"
    using update_seg_alist_new [of a pss crc "[]"] by (simp add: spool_file_def)
  moreover have "a + length pss \<notin> fst ` set old"
    using old(2) by fastforce
  ultimately have "seg_files s' = old @ seg_alist crc a (pss @ [[]])"
    by (simp add: s' old(1) update_append_right)
  then have "\<exists>old. seg_files s' = old @ seg_alist crc a (pss @ [[]]) \<and> (\<forall>i \<in> fst ` set old. i < a)
      \<and> (cursor_file s' = Some (write_cursor (spool_cursor s')) \<or> cursor_file s' = None \<and> k = 0 \<and> old = [])"
    using old(2,3) by (auto simp: s')
  then show ?thesis
    using sh ne by (auto simp: spool_shape_def s' length_spool_file)
qed

lemma shape_spool_write:
  assumes sh: "spool_shape crc a pss k s" and fits: "spool_fits p"
  shows "spool_shape crc a (butlast pss @ [last pss @ [p]]) k
    (s\<lparr>seg_files := append_file (writer s) (frame crc p) (seg_files s),
       write_offset := write_offset s + length (frame crc p)\<rparr>)"
proof -
  obtain old where old: "seg_files s = old @ seg_alist crc a pss" "\<forall>i \<in> fst ` set old. i < a"
    "cursor_file s = Some (write_cursor (spool_cursor s)) \<or> cursor_file s = None \<and> k = 0 \<and> old = []"
    and ne: "pss \<noteq> []" and w: "writer s = a + length pss - 1"
    using sh by (auto simp: spool_shape_def)
  obtain rs l where pss: "pss = rs @ [l]"
    using ne by (cases pss rule: rev_cases) auto
  have wr: "writer s = a + length rs"
    using w by (simp add: pss)
  have "map_of (seg_files s) (a + length rs) = Some (spool_file crc l)"
    using files_shape(1) [OF sh, of "a + length rs"] by (simp add: pss)
  moreover have "a + length rs \<notin> fst ` set old"
    using old(2) by fastforce
  ultimately have "append_file (writer s) (frame crc p) (seg_files s) = old @ seg_alist crc a (rs @ [l @ [p]])"
    by (simp add: append_file_def wr old(1) pss update_append_right spool_file_snoc [symmetric] update_seg_alist_last)
  moreover have "k \<le> length (hd (rs @ [l @ [p]]))" "take k (hd (rs @ [l @ [p]])) = take k (hd pss)"
    using sh by (cases rs; auto simp: spool_shape_def pss)+
  ultimately show ?thesis
    using sh fits old(2,3) by (auto simp: spool_shape_def pss spool_file_snoc)
qed

lemma marked_all_snoc:
  "\<exists>c. marked_all a off (pss @ [ps @ [p]]) = marked_all a off (pss @ [ps]) @ [(c, p)]"
  by (induction pss arbitrary: a off) (auto simp: marked_append [where crc = "\<lambda>_. 0"])

lemma spool_items_push:
  assumes items: "spool_items crc s its" and push: "push crc io s p = (Inr True, s')"
  shows "\<exists>c. spool_items crc s' (its @ [(c, p)])"
proof -
  obtain a pss k where sh: "spool_shape crc a pss k s"
    and its: "its = marked_all a (length (spool_file crc (take k (hd pss)))) (drop k (hd pss) # tl pss)"
    using items by (auto simp: spool_items_def)
  have fits: "spool_fits p"
    using push sh by (auto simp: push_def spool_shape_def spool_fits_def split: if_splits)
  obtain s1 where s1: "s1 = s \<or> spool_roll io s = (Inr (), s1)"
    and s': "s' = s1\<lparr>seg_files := append_file (writer s1) (frame crc p) (seg_files s1),
       write_offset := write_offset s1 + length (frame crc p)\<rparr>"
    using push by (auto simp: push_def try_then_Inr Let_def split: if_splits option.splits)
  have roll: "marked_all a off (x # pss' @ [[]]) = marked_all a off (x # pss')" for a off x pss'
    by (induction pss' arbitrary: a off x) simp_all
  obtain pss1 where sh1: "spool_shape crc a pss1 k s1"
    and its1: "its = marked_all a (length (spool_file crc (take k (hd pss1)))) (drop k (hd pss1) # tl pss1)"
  proof (cases "s1 = s")
    case True
    then show ?thesis using that [of pss] sh its by simp
  next
    case False
    then have "spool_shape crc a (pss @ [[]]) k s1" using s1 shape_spool_roll [OF sh] by blast
    then show ?thesis using that [of "pss @ [[]]"] its roll sh by (cases pss) (auto simp: spool_shape_def)
  qed
  let ?pss2 = "butlast pss1 @ [last pss1 @ [p]]"
  have "\<exists>c. marked_all a off (drop k (hd ?pss2) # tl ?pss2) = marked_all a off (drop k (hd pss1) # tl pss1) @ [(c, p)]" for off
  proof (cases "butlast pss1")
    case Nil
    then obtain l where "pss1 = [l]" "k \<le> length l"
      using sh1 by (cases pss1) (auto simp: spool_shape_def split: if_splits)
    then show ?thesis using marked_all_snoc [of a off "[]" "drop k l" p] by simp
  next
    case (Cons x xs)
    then have "pss1 = x # xs @ [last pss1]"
      using sh1 by (metis append_Cons append_butlast_last_id spool_shape_def)
    then show ?thesis using marked_all_snoc [of a off "drop k x # xs" "last pss1" p] Cons
      by (metis append_Cons list.sel(1) list.sel(3))
  qed
  moreover have "take k (hd ?pss2) = take k (hd pss1)"
    using sh1 by (cases pss1 rule: rev_cases; cases "butlast pss1") (auto simp: spool_shape_def)
  ultimately show ?thesis
    using shape_spool_write [OF sh1 fits] unfolding spool_items_def s' its1 by metis
qed

lemma spool_items_push_False:
  assumes "spool_items crc s its" "push crc io s p = (r, s')" "sp_write_fails io = None" "sp_sync_ok io"
    "sp_create io = Created" "r \<noteq> Inr True"
  shows "spool_items crc s' its"
proof -
  have roll: "\<exists>s1. spool_roll io s = (Inr (), s1)"
  proof -
    obtain a pss k where sh: "spool_shape crc a pss k s"
      using assms(1) by (auto simp: spool_items_def)
    then have "write_segment s + 1 = a + length pss"
      by (cases pss) (auto simp: spool_shape_def)
    then have "map_of (seg_files s) (write_segment s + 1) = None"
      using files_shape(1) [OF sh, of "a + length pss"] by simp
    then show ?thesis
      using assms(4,5) by (simp add: spool_roll_def open_segment_for_append_def)
  qed
  have "s' = s \<or> s' = s\<lparr>dropped_full := dropped_full s + 1\<rparr>"
    using assms(2,3,6) roll by (auto simp: push_def Let_def split: if_splits)
  moreover have "spool_shape crc a pss k (s\<lparr>dropped_full := n\<rparr>) = spool_shape crc a pss k s" for a pss k n
    by (simp add: spool_shape_def)
  ultimately show ?thesis
    using assms(1) unfolding spool_items_def by metis
qed

text \<open>The operating system does as asked by a push; what it answers to a commit is arbitrary.\<close>

definition push_io :: "spool_io \<Rightarrow> spool_io" where
  "push_io io = io\<lparr>sp_write_fails := None, sp_sync_ok := True, sp_create := Created\<rparr>"

definition try_push :: "(bytes \<Rightarrow> u32) \<Rightarrow> spool_io \<Rightarrow> spool \<Rightarrow> bytes \<Rightarrow> bool \<times> spool" where
  "try_push crc io s p = (case push crc (push_io io) s p of (r, s') \<Rightarrow> (r = Inr True, s'))"

definition try_commit :: "spool_io \<Rightarrow> spool \<Rightarrow> cursor \<Rightarrow> bool \<times> spool" where
  "try_commit io s c = (case spool_commit io s c of (r, s') \<Rightarrow> (r = Inr (), s'))"

interpretation spool_queue: delivery_queue "spool_items crc" "peek crc" "try_commit io" "try_push crc io" for crc io
proof
  fix s s' :: spool and its :: "(cursor \<times> bytes) list" and n j ok and p :: bytes
  assume items: "spool_items crc s its"
  show "peek crc n s = take n its"
    by (rule spool_items_peek [OF items])
  show "spool_items crc s' (drop (Suc j) its) \<or> \<not> ok \<and> spool_items crc s' its"
    if "j < length its" "try_commit io s (fst (its ! j)) = (ok, s')"
    using spool_items_commit [OF items that(1)] that(2) items
    by (cases "sp_cursor_ok io") (auto simp: try_commit_def spool_commit_def split: prod.splits)
  show "if ok then \<exists>c. spool_items crc s' (its @ [(c, p)]) else spool_items crc s' its"
    if "try_push crc io s p = (ok, s')"
    using spool_items_push [OF items] spool_items_push_False [OF items] that
    by (auto simp: try_push_def push_io_def split: prod.splits)
qed

section \<open>Opening\<close>

lemma read_write_cursor:
  assumes "segment c \<le> u64_max" "offset c \<le> u64_max"
  shows "read_cursor (Some (write_cursor c)) = c"
proof -
  have dig: "c' \<in> set (show_nat n) \<Longrightarrow> is_ascii_digit c'" for c' n
    using digits_show_nat [of n] by (auto simp: list_all_iff)
  have colon: "CHR '':'' \<notin> set (show_nat n)" for n
    using dig [of "CHR '':''" n] by (auto simp: is_ascii_digit_def)
  have "is_graphic (hd (write_cursor c))" "is_graphic (last (write_cursor c))"
    using dig [OF hd_in_set] dig [OF last_in_set] by (simp_all add: write_cursor_def hd_append digit_is_graphic)
  then have "trim (write_cursor c) = write_cursor c"
    by (intro trim_graphic) (simp_all add: write_cursor_def)
  then have "split_on (CHR '':'') (trim (write_cursor c)) = [show_nat (segment c), show_nat (offset c)]"
    using colon by (simp add: write_cursor_def)
  then show ?thesis
    using assms by (simp add: read_cursor_def parse_unsigned_show_nat Let_def)
qed

text \<open>
  The cursor file round-trips: the text a commit writes reads back as the committed position.
\<close>

theorem cursor_file_roundtrip:
  assumes "segment c \<le> u64_max" and "offset c \<le> u64_max"
  shows "read_cursor (Some (write_cursor c)) = c"
  by (rule read_write_cursor [OF assms])

theorem cursor_file_roundtrip_witness:
  "read_cursor (Some (write_cursor \<lparr>segment = 7, offset = 4096\<rparr>)) = \<lparr>segment = 7, offset = 4096\<rparr>"
  by (rule cursor_file_roundtrip) simp_all

lemma shape_reopen:
  assumes sh: "spool_shape crc a pss k s" and bound: "a \<le> u64_max" "offset (spool_cursor s) \<le> u64_max"
    and cfg: "max_record_bytes cfg < 2 ^ 32"
  shows "\<exists>s' d. spool_open io \<lparr>seg_files = seg_files s, cursor_file = cursor_file s\<rparr> cfg = (Inr s', d)
    \<and> spool_shape crc a pss k s'"
proof -
  obtain old where old: "seg_files s = old @ seg_alist crc a pss" "\<forall>i \<in> fst ` set old. i < a"
    "cursor_file s = Some (write_cursor (spool_cursor s)) \<or> cursor_file s = None \<and> k = 0 \<and> old = []"
    and ne: "pss \<noteq> []" and a: "0 < a"
    and cur: "spool_cursor s = \<lparr>segment = a, offset = length (spool_file crc (take k (hd pss)))\<rparr>"
    using sh by (auto simp: spool_shape_def)
  have ws: "(if spool_segments (seg_files s) = [] then 1 else last (spool_segments (seg_files s))) = a + length pss - 1"
    using files_shape(3,4) [OF sh] by simp
  have f: "map_of (seg_files s) (a + length pss - 1) = Some (spool_file crc (last pss))"
    using files_shape(1) [OF sh, of "a + length pss - 1"] ne by (cases pss rule: rev_cases) (auto simp: nth_append)
  have opened: "open_segment_for_append io (seg_files s) (a + length pss - 1)
      = (Inr (length (spool_file crc (last pss))), seg_files s)"
    unfolding open_segment_for_append_def f by (simp add: spool_file_def) (simp add: SPL_MAGIC_def)
  have cur': "(if segment (read_cursor (cursor_file s)) = 0
      then \<lparr>segment = (if spool_segments (seg_files s) = [] then a + length pss - 1 else hd (spool_segments (seg_files s))),
             offset = SPL_HEADER_BYTES\<rparr>
      else read_cursor (cursor_file s)) = spool_cursor s"
    using old(3)
  proof
    assume "cursor_file s = Some (write_cursor (spool_cursor s))"
    then show ?thesis using read_write_cursor [of "spool_cursor s"] bound a cur by simp
  next
    assume none: "cursor_file s = None \<and> k = 0 \<and> old = []"
    then have "hd (spool_segments (seg_files s)) = a"
      using ne by (simp add: old(1) spool_segments_seg_alist hd_upt)
    then show ?thesis
      using none files_shape(3) [OF sh] cur by (simp add: read_cursor_def length_spool_file)
  qed
  have "\<exists>d. spool_open io \<lparr>seg_files = seg_files s, cursor_file = cursor_file s\<rparr> cfg =
      (Inr \<lparr>seg_files = seg_files s, cursor_file = cursor_file s, config = cfg, write_segment = a + length pss - 1,
        writer = a + length pss - 1, write_offset = length (spool_file crc (last pss)), spool_cursor = spool_cursor s,
        dropped_full = 0\<rparr>, d)"
    unfolding spool_open_def spool_dir.select_convs ws Let_def opened cur' by simp
  moreover have "spool_shape crc a pss k \<lparr>seg_files = seg_files s, cursor_file = cursor_file s, config = cfg,
      write_segment = a + length pss - 1, writer = a + length pss - 1,
      write_offset = length (spool_file crc (last pss)), spool_cursor = spool_cursor s, dropped_full = 0\<rparr>"
    using sh cfg by (auto simp: spool_shape_def)
  ultimately show ?thesis by blast
qed

lemma shape_fresh:
  assumes "sp_create io = Created" "max_record_bytes cfg < 2 ^ 32"
  shows "\<exists>s d. spool_open io \<lparr>seg_files = [], cursor_file = None\<rparr> cfg = (Inr s, d) \<and> spool_shape crc 1 [[]] 0 s"
  using assms
  by (auto simp: spool_open_def spool_segments_def open_segment_for_append_def read_cursor_def
      spool_shape_def spool_file_def SPL_HEADER_BYTES_def SPL_MAGIC_def)

section \<open>Runs\<close>

text \<open>
  Runs of one spool directory over any number of restarts: the payloads accepted so far, and how many
  of them were committed. A commit takes a position that a peek at that state returns; the answers of
  the operating system to it are arbitrary.
\<close>

inductive spool_reach :: "(bytes \<Rightarrow> u32) \<Rightarrow> bytes list \<Rightarrow> nat \<Rightarrow> spool \<Rightarrow> bool" for crc where
  fresh: "sp_create io = Created \<Longrightarrow> max_record_bytes cfg < 2 ^ 32
    \<Longrightarrow> spool_open io \<lparr>seg_files = [], cursor_file = None\<rparr> cfg = (Inr s, d) \<Longrightarrow> spool_reach crc [] 0 s"
| pushed: "spool_reach crc ps n s \<Longrightarrow> push crc (push_io io) s p = (r, s')
    \<Longrightarrow> spool_reach crc (if r = Inr True then ps @ [p] else ps) n s'"
| committed: "spool_reach crc ps n s \<Longrightarrow> j < length (peek crc m s)
    \<Longrightarrow> spool_commit io s (fst (peek crc m s ! j)) = (r, s')
    \<Longrightarrow> spool_reach crc ps (if sp_cursor_ok io then n + Suc j else n) s'"
| reopened: "spool_reach crc ps n s \<Longrightarrow> max_record_bytes cfg < 2 ^ 32
    \<Longrightarrow> segment (spool_cursor s) \<le> u64_max \<Longrightarrow> offset (spool_cursor s) \<le> u64_max
    \<Longrightarrow> spool_open io \<lparr>seg_files = seg_files s, cursor_file = cursor_file s\<rparr> cfg = (Inr s', d) \<Longrightarrow> spool_reach crc ps n s'"

lemma items_fresh:
  assumes "sp_create io = Created" "max_record_bytes cfg < 2 ^ 32"
    "spool_open io \<lparr>seg_files = [], cursor_file = None\<rparr> cfg = (Inr s, d)"
  shows "spool_items crc s []"
proof -
  have "spool_shape crc 1 [[]] 0 s"
    using shape_fresh [OF assms(1,2), of crc] assms(3) by auto
  then show ?thesis
    unfolding spool_items_def by (intro exI [of _ 1] exI [of _ "[[]]"] exI [of _ 0]) simp
qed

lemma items_reopen:
  assumes "spool_items crc s its" "max_record_bytes cfg < 2 ^ 32"
    "segment (spool_cursor s) \<le> u64_max" "offset (spool_cursor s) \<le> u64_max"
  shows "\<exists>s' d. spool_open io \<lparr>seg_files = seg_files s, cursor_file = cursor_file s\<rparr> cfg = (Inr s', d)
    \<and> spool_items crc s' its"
proof -
  obtain a pss k where sh: "spool_shape crc a pss k s"
    and its: "its = marked_all a (length (spool_file crc (take k (hd pss)))) (drop k (hd pss) # tl pss)"
    using assms(1) by (auto simp: spool_items_def)
  have "a \<le> u64_max"
    using sh assms(3) by (simp add: spool_shape_def)
  from shape_reopen [OF sh this assms(4,2), of io] show ?thesis
    unfolding spool_items_def its by blast
qed

lemma reach_items:
  assumes "spool_reach crc ps n s"
  shows "n \<le> length ps \<and> (\<exists>its. spool_items crc s its \<and> map snd its = drop n ps)"
  using assms
proof induction
  case (fresh io cfg s d)
  then show ?case using items_fresh by fastforce
next
  case (pushed ps n s io p r s')
  then obtain its where its: "spool_items crc s its" "map snd its = drop n ps" and n: "n \<le> length ps" by blast
  have "try_push crc io s p = (r = Inr True, s')"
    using pushed.hyps(2) by (simp add: try_push_def)
  from spool_queue.enq_holds [OF its(1) this] its(2) n show ?case
    by (cases "r = Inr True") fastforce+
next
  case (committed ps n s j m io r s')
  then obtain its where its: "spool_items crc s its" "map snd its = drop n ps" and n: "n \<le> length ps" by blast
  show ?case
  proof (cases "sp_cursor_ok io")
    case True
    have j: "j < length its" "fst (peek crc m s ! j) = fst (its ! j)"
      using committed.hyps(2) by (simp_all add: spool_items_peek [OF its(1)])
    then have "n + Suc j \<le> length ps"
      using arg_cong [OF its(2), of length] n by simp
    moreover have "spool_items crc s' (drop (Suc j) its)"
      using spool_items_commit [OF its(1) j(1) _ True] committed.hyps(3) j(2) by simp
    moreover have "map snd (drop (Suc j) its) = drop (n + Suc j) ps"
      by (simp add: drop_map [symmetric] its(2) add.commute)
    ultimately show ?thesis using True by auto
  next
    case False
    then have "s' = s" using committed.hyps(3) by (simp add: spool_commit_def)
    then show ?thesis using False its n by auto
  qed
next
  case (reopened ps n s cfg io s' d)
  then obtain its where its: "spool_items crc s its" "map snd its = drop n ps" "n \<le> length ps" by blast
  from items_reopen [OF its(1) reopened.hyps(2-4), of io] reopened.hyps(5) its show ?case
    by auto
qed

text \<open>
  C6. The spool is a durable FIFO. Over any run of pushes, commits with arbitrary faults and restarts,
  a peek returns exactly the accepted payloads that are not yet committed, oldest first: nothing
  accepted is skipped, reordered or returned after its commit.
\<close>

theorem spool_is_durable_fifo:
  assumes "spool_reach crc ps n s"
  shows "n \<le> length ps \<and> map snd (peek crc m s) = take m (drop n ps)
    \<and> (spool_is_empty crc s \<longleftrightarrow> drop n ps = [])"
proof -
  obtain its where its: "spool_items crc s its" "map snd its = drop n ps" and n: "n \<le> length ps"
    using reach_items [OF assms] by blast
  have "its = [] \<longleftrightarrow> drop n ps = []"
    using arg_cong [OF its(2), of length] by auto
  then show ?thesis
    using n spool_queue.front_empty [OF its(1), of 0]
    by (simp add: spool_items_peek [OF its(1)] its(2) [symmetric] take_map spool_is_empty_def)
qed

text \<open>
  Restarting succeeds and forgets nothing: opening the directory that a run left gives a spool with
  the same undelivered records, whatever the operating system would answer to a file creation.
\<close>

theorem spool_reopens:
  assumes "spool_reach crc ps n s" and "max_record_bytes cfg < 2 ^ 32"
    and "segment (spool_cursor s) \<le> u64_max" and "offset (spool_cursor s) \<le> u64_max"
  shows "\<exists>s' d. spool_open io \<lparr>seg_files = seg_files s, cursor_file = cursor_file s\<rparr> cfg = (Inr s', d)
    \<and> (\<forall>m. peek crc m s' = peek crc m s)"
proof -
  obtain its where its: "spool_items crc s its"
    using reach_items [OF assms(1)] by blast
  from items_reopen [OF this assms(2-4), of io] show ?thesis
    using spool_items_peek its by metis
qed

text \<open>
  A commit that succeeds leaves no segment that lies wholly behind the cursor, except the one
  under write, and touches no other.
\<close>

theorem commit_reclaims:
  assumes "spool_commit io s c = (Inr (), s')"
  shows "(\<forall>sid \<in> fst ` set (seg_files s'). segment c \<le> sid \<or> sid = write_segment s)
    \<and> (\<forall>sid. segment c \<le> sid \<longrightarrow> map_of (seg_files s') sid = map_of (seg_files s) sid)"
proof -
  have unlink: "unlink_behind io (segment c) (write_segment s) (spool_segments (seg_files s)) (seg_files s)
      = (Inr (), seg_files s')"
    using assms by (auto simp: spool_commit_def Let_def split: if_splits prod.splits)
  obtain keep where files: "seg_files s' = filter (\<lambda>(i, _). keep i) (seg_files s)"
    and keep: "\<forall>i. i < segment c \<and> i \<noteq> write_segment s \<or> keep i"
    and gone: "\<forall>i \<in> set (spool_segments (seg_files s)). keep i \<longrightarrow> segment c \<le> i \<or> i = write_segment s"
    using unlink_behind_keeps [OF unlink] by blast
  have "map_of (filter (\<lambda>(i, _). keep i) xs) sid = map_of xs sid" if "segment c \<le> sid" for sid and xs :: "(nat \<times> bytes) list"
  proof -
    have "keep sid" using keep that by (meson leD)
    then show ?thesis by (induction xs) auto
  qed
  moreover have "segment c \<le> sid \<or> sid = write_segment s" if "sid \<in> fst ` set (seg_files s')" for sid
    using that gone by (fastforce simp: files spool_segments_def)
  ultimately show ?thesis
    by (simp add: files)
qed

section \<open>A concrete run\<close>

definition demo_crc :: "bytes \<Rightarrow> u32" where "demo_crc p = of_nat (sum_list (map unat p))"

definition demo_sp_io :: spool_io where
  "demo_sp_io = \<lparr>sp_write_fails = None, sp_sync_ok = True, sp_create = Created, sp_cursor_ok = True, sp_remove_ok = (\<lambda>_. True)\<rparr>"

definition demo_cfg :: spool_config where
  "demo_cfg = spool_config_default\<lparr>seg_limit := 20\<rparr>"

text \<open>Two records, the second in a segment of its own, and a commit of the first.\<close>

definition demo_sp0 :: spool where
  "demo_sp0 = \<lparr>seg_files = [(1, SPL_MAGIC)], cursor_file = None, config = demo_cfg, write_segment = 1, writer = 1,
     write_offset = 8, spool_cursor = \<lparr>segment = 1, offset = 8\<rparr>, dropped_full = 0\<rparr>"

definition demo_sp1 :: spool where
  "demo_sp1 = demo_sp0\<lparr>seg_files := [(1, SPL_MAGIC @ [2, 0, 0, 0, 3, 0, 0, 0, 1, 2])], write_offset := 18\<rparr>"

definition demo_sp2 :: spool where
  "demo_sp2 = demo_sp1\<lparr>seg_files := [(1, SPL_MAGIC @ [2, 0, 0, 0, 3, 0, 0, 0, 1, 2]), (2, SPL_MAGIC @ [1, 0, 0, 0, 3, 0, 0, 0, 3])],
     write_segment := 2, writer := 2, write_offset := 17\<rparr>"

definition demo_sp3 :: spool where
  "demo_sp3 = demo_sp2\<lparr>cursor_file := Some (write_cursor \<lparr>segment = 1, offset = 18\<rparr>), spool_cursor := \<lparr>segment = 1, offset = 18\<rparr>\<rparr>"

lemmas demo_defs = demo_crc_def demo_sp_io_def push_io_def demo_cfg_def spool_config_default_def SPL_MAGIC_def SPL_HEADER_BYTES_def
  FRAME_OVERHEAD_def frame_def u32_to_le_def u32_from_le_def

lemma demo_spool_open:
  "\<exists>d. spool_open demo_sp_io \<lparr>seg_files = [], cursor_file = None\<rparr> demo_cfg = (Inr demo_sp0, d)"
  by (simp add: demo_sp0_def demo_defs spool_open_def spool_segments_def read_cursor_def open_segment_for_append_def)

lemma demo_spool_push1:
  "push demo_crc (push_io demo_sp_io) demo_sp0 [1, 2] = (Inr True, demo_sp1)"
  by (simp add: demo_sp0_def demo_sp1_def demo_defs push_def total_bytes_def spool_segments_def append_file_def)

lemma demo_spool_push2:
  "push demo_crc (push_io demo_sp_io) demo_sp1 [3] = (Inr True, demo_sp2)"
  by (simp add: demo_sp0_def demo_sp1_def demo_sp2_def demo_defs push_def total_bytes_def spool_segments_def append_file_def
    spool_roll_def open_segment_for_append_def)

lemma demo_spool_peek:
  "peek demo_crc 1 demo_sp2 = [(\<lparr>segment = 1, offset = 18\<rparr>, [1, 2])]"
  by (simp add: demo_sp0_def demo_sp1_def demo_sp2_def demo_defs peek_def spool_segments_def spool_read_frame_def read_full_def)

lemma demo_spool_commit:
  "spool_commit demo_sp_io demo_sp2 \<lparr>segment = 1, offset = 18\<rparr> = (Inr (), demo_sp3)"
  by (simp add: demo_sp0_def demo_sp1_def demo_sp2_def demo_sp3_def demo_defs spool_commit_def spool_segments_def)
lemma demo_spool_reach: "spool_reach demo_crc [[1, 2], [3]] 1 demo_sp3"
proof -
  obtain d where opened: "spool_open demo_sp_io \<lparr>seg_files = [], cursor_file = None\<rparr> demo_cfg = (Inr demo_sp0, d)"
    using demo_spool_open by blast
  have "spool_reach demo_crc [] 0 demo_sp0"
    by (rule spool_reach.fresh [OF _ _ opened]) (simp_all add: demo_sp_io_def demo_cfg_def spool_config_default_def)
  from spool_reach.pushed [OF spool_reach.pushed [OF this demo_spool_push1] demo_spool_push2]
  have "spool_reach demo_crc [[1, 2], [3]] 0 demo_sp2" by simp
  from spool_reach.committed [OF this, of 0 1 demo_sp_io] show ?thesis
    unfolding demo_spool_peek using demo_spool_commit by (simp add: demo_sp_io_def)
qed

theorem spool_is_durable_fifo_witness:
  "map snd (peek demo_crc 5 demo_sp3) = [[3]] \<and> \<not> spool_is_empty demo_crc demo_sp3"
  using spool_is_durable_fifo [OF demo_spool_reach, of 5] by simp

theorem spool_reopens_witness:
  "\<exists>s' d. spool_open demo_sp_io \<lparr>seg_files = seg_files demo_sp3, cursor_file = cursor_file demo_sp3\<rparr> demo_cfg = (Inr s', d)
    \<and> (\<forall>m. peek demo_crc m s' = peek demo_crc m demo_sp3)"
  using spool_reopens [OF demo_spool_reach, of demo_cfg demo_sp_io]
  by (simp add: demo_cfg_def spool_config_default_def demo_sp3_def)

theorem commit_reclaims_witness:
  "map_of (seg_files demo_sp3) 2 = map_of (seg_files demo_sp2) 2 \<and> map_of (seg_files demo_sp3) 1 = map_of (seg_files demo_sp2) 1"
  using commit_reclaims [OF demo_spool_commit] by simp

text \<open>The directory after an append of a first record was cut after 9 of its 11 bytes.\<close>

definition torn_dir :: spool_dir where
  "torn_dir = \<lparr>seg_files = [(1, SPL_MAGIC @ take 9 (frame demo_crc [1, 2, 3]))], cursor_file = None\<rparr>"

definition torn_spool :: spool where
  "torn_spool = (case fst (spool_open demo_sp_io torn_dir spool_config_default) of Inr s \<Rightarrow> s)"

lemmas torn_defs = torn_spool_def torn_dir_def demo_defs peek_def spool_segments_def spool_read_frame_def read_full_def
  spool_open_def open_segment_for_append_def push_def total_bytes_def append_file_def read_cursor_def

text \<open>
  A record accepted after a torn append is not delivered: the spool opens the torn directory
  without complaint and accepts the record, and a peek of any length returns nothing, although the
  segment holds the record's complete frame.
\<close>

theorem push_behind_torn_tail_is_stuck:
  "fst (spool_open demo_sp_io torn_dir spool_config_default) = Inr torn_spool
    \<and> fst (push demo_crc demo_sp_io torn_spool [5]) = Inr True
    \<and> (\<forall>m. peek demo_crc m (snd (push demo_crc demo_sp_io torn_spool [5])) = [])"
proof (intro conjI allI)
  show "peek demo_crc m (snd (push demo_crc demo_sp_io torn_spool [5])) = []" for m
    by (cases m) (simp_all add: torn_defs)
qed (simp_all add: torn_defs)

end
