(* ===== verification/Delivery.thy ===== *)
theory Delivery
  imports Spool
begin

text \<open>
  The two consumers of a spool: the Sentry forwarder's \<^verbatim>\<open>drain_once\<close> (\<^verbatim>\<open>sentry.rs\<close>) and the peer sync's
  \<^verbatim>\<open>deliver\<close> (\<^verbatim>\<open>sync.rs\<close>). What the other side answers is an argument: the decoded item and the upstream's
  delivery result for the forwarder, the peer's outcome for the sync. Both rely on the laws of
  \<open>delivery_queue\<close> and on nothing else of the spool.
\<close>

section \<open>The Sentry forwarder\<close>

datatype delivery = Sent nat | RateLimited | Nothing | Failed

text \<open>The loop over the batch: the cursor of the last item that need not be sent again.\<close>

fun drain_batch ::
  "(bytes \<Rightarrow> 'i option) \<Rightarrow> ('i \<Rightarrow> delivery) \<Rightarrow> (cursor \<times> bytes) list \<Rightarrow> cursor option \<Rightarrow> cursor option" where
  "drain_batch decode_item send [] delivered = delivered"
| "drain_batch decode_item send ((c, bs) # batch) delivered =
     (case decode_item bs of
        None \<Rightarrow> drain_batch decode_item send batch (Some c)
      | Some item \<Rightarrow>
          (case send item of
             Failed \<Rightarrow> delivered
           | Sent status \<Rightarrow>
               if 500 \<le> status then delivered
               else if 400 \<le> status \<and> status \<noteq> 429 then drain_batch decode_item send batch (Some c)
               else drain_batch decode_item send batch (Some c)
           | _ \<Rightarrow> drain_batch decode_item send batch (Some c)))"

text \<open>
  The spool's lock is released while the batch is sent: \<open>meanwhile\<close> is the spool as the threads that
  push envelopes left it. The flag says whether anything was delivered.
\<close>

definition drain_once ::
  "(bytes \<Rightarrow> u32) \<Rightarrow> spool_io \<Rightarrow> (bytes \<Rightarrow> 'i option) \<Rightarrow> ('i \<Rightarrow> delivery) \<Rightarrow> spool \<Rightarrow> spool \<Rightarrow> bool \<times> spool" where
  "drain_once crc io decode_item send s meanwhile = (
     let batch = peek crc 64 s in
     if batch = [] then (False, meanwhile)
     else (case drain_batch decode_item send batch None of
             None \<Rightarrow> (False, meanwhile)
           | Some c \<Rightarrow> (True, snd (try_commit io meanwhile c))))"

text \<open>An item is settled when sending it again would change nothing for the forwarder.\<close>

definition settled :: "(bytes \<Rightarrow> 'i option) \<Rightarrow> ('i \<Rightarrow> delivery) \<Rightarrow> bytes \<Rightarrow> bool" where
  "settled decode_item send bs = (case decode_item bs of
     None \<Rightarrow> True
   | Some item \<Rightarrow> (case send item of Failed \<Rightarrow> False | Sent status \<Rightarrow> status < 500 | _ \<Rightarrow> True))"

lemma drain_batch_last:
  "drain_batch decode_item send batch d =
     (case takeWhile (settled decode_item send \<circ> snd) batch of [] \<Rightarrow> d | xs \<Rightarrow> Some (fst (last xs)))"
proof (induction batch arbitrary: d)
  case Nil
  show ?case by simp
next
  case (Cons x batch)
  obtain c bs where x: "x = (c, bs)" by (cases x)
  show ?case
  proof (cases "settled decode_item send bs")
    case True
    then have "drain_batch decode_item send (x # batch) d = drain_batch decode_item send batch (Some c)"
      by (auto simp: x settled_def split: option.splits delivery.splits)
    with True show ?thesis
      by (simp add: Cons.IH x split: list.split)
  next
    case False
    then show ?thesis
      by (auto simp: x settled_def split: option.splits delivery.splits)
  qed
qed


section \<open>The peer sync\<close>

datatype sync_outcome =
    Delivered nat nat nat nat
  | Rejected string
  | Retry string
  | Busy string
  | Unauthorized string

text \<open>The counters of the sync status that a pass changes.\<close>

record sync_status =
  sent_records :: nat
  sent_bytes :: nat
  duplicates :: nat
  loops :: nat
  rejected_batches :: nat
  busy_answers :: nat
  last_error :: "string option"

definition sync_status_default :: sync_status where
  "sync_status_default = \<lparr>sent_records = 0, sent_bytes = 0, duplicates = 0, loops = 0, rejected_batches = 0,
     busy_answers = 0, last_error = None\<rparr>"

datatype wait = Doubling | Auth
datatype pass = IdlePass | Progress | Backoff wait

text \<open>The text of a failed commit, without the error it quotes.\<close>

definition commit_failed_text :: string where
  "commit_failed_text = ''The peer has the batch, but the sync spool could not record that''"

fun deliver_frames ::
  "spool_io \<Rightarrow> (bytes \<Rightarrow> sync_outcome) \<Rightarrow> (cursor \<times> bytes) list \<Rightarrow> sync_status \<Rightarrow> spool \<Rightarrow> pass \<times> sync_status \<times> spool" where
  "deliver_frames io send_frame [] st s = (Progress, st, s)"
| "deliver_frames io send_frame ((c, payload) # fs) st s =
     (case send_frame payload of
        Delivered acc dup lps bs \<Rightarrow>
          (let st1 = st\<lparr>sent_records := sent_records st + acc, duplicates := duplicates st + dup,
                        loops := loops st + lps, sent_bytes := sent_bytes st + bs\<rparr>
           in case try_commit io s c of
                (True, s1) \<Rightarrow> deliver_frames io send_frame fs st1 s1
              | (False, s1) \<Rightarrow> (Backoff Doubling, st1\<lparr>last_error := Some commit_failed_text\<rparr>, s1))
      | Rejected msg \<Rightarrow>
          (let st1 = st\<lparr>rejected_batches := rejected_batches st + 1, last_error := Some msg\<rparr>
           in case try_commit io s c of
                (True, s1) \<Rightarrow> deliver_frames io send_frame fs st1 s1
              | (False, s1) \<Rightarrow> (Backoff Doubling, st1\<lparr>last_error := Some commit_failed_text\<rparr>, s1))
      | Retry msg \<Rightarrow> (Backoff Doubling, st\<lparr>last_error := Some msg\<rparr>, s)
      | Busy msg \<Rightarrow> (Backoff Doubling, st\<lparr>busy_answers := busy_answers st + 1, last_error := Some msg\<rparr>, s)
      | Unauthorized msg \<Rightarrow> (Backoff Auth, st\<lparr>last_error := Some msg\<rparr>, s))"

definition FRAMES_PER_PASS :: nat where "FRAMES_PER_PASS = 8"

definition deliver ::
  "(bytes \<Rightarrow> u32) \<Rightarrow> spool_io \<Rightarrow> bool \<Rightarrow> (bytes \<Rightarrow> sync_outcome) \<Rightarrow> sync_status \<Rightarrow> spool \<Rightarrow> pass \<times> sync_status \<times> spool" where
  "deliver crc io has_target send_frame st s = (
     if \<not> has_target then (IdlePass, st, s)
     else let fs = peek crc FRAMES_PER_PASS s in
          if fs = [] then (IdlePass, st, s) else deliver_frames io send_frame fs st s)"

text \<open>The peer has answered for good: it took the frame, or will never take it.\<close>

definition answered :: "sync_outcome \<Rightarrow> bool" where
  "answered out = (case out of Delivered _ _ _ _ \<Rightarrow> True | Rejected _ \<Rightarrow> True | _ \<Rightarrow> False)"

lemma deliver_frames_prefix:
  assumes "spool_items crc s its" "fs = take n its" "deliver_frames io send_frame fs st s = (p, st', s')"
  shows "\<exists>m. m \<le> length fs \<and> spool_items crc s' (drop m its) \<and> list_all (\<lambda>f. answered (send_frame (snd f))) (take m its)
    \<and> (p = Progress \<longrightarrow> m = length fs)
    \<and> (p \<noteq> Progress \<longrightarrow> m < length fs \<and> (answered (send_frame (snd (its ! m))) \<longrightarrow> last_error st' = Some commit_failed_text)
        \<or> 0 < m \<and> last_error st' = Some commit_failed_text)"
  using assms
proof (induction fs arbitrary: s its st n)
  case Nil
  then show ?case by (intro exI [of _ 0]) auto
next
  case (Cons f fs)
  obtain c payload where f: "f = (c, payload)" by (cases f)
  obtain its' where its: "its = f # its'" and fs: "fs = take (n - 1) its'"
    using Cons.prems(2) by (cases its; cases n) auto
  show ?case
  proof (cases "answered (send_frame payload)")
    case False
    then have "s' = s" "p \<noteq> Progress"
      using Cons.prems(3) by (auto simp: f answered_def split: sync_outcome.splits)
    then show ?thesis
      using False Cons.prems(1) by (intro exI [of _ 0]) (simp add: its f)
  next
    case True
    obtain ok s1 where commit: "try_commit io s c = (ok, s1)" by (cases "try_commit io s c")
    have h: "spool_items crc s1 its' \<or> \<not> ok \<and> spool_items crc s1 its"
      using spool_queue.commit_holds [OF Cons.prems(1), of 0 io ok s1] commit by (simp add: its f)
    show ?thesis
    proof (cases ok)
      case ok: True
      then obtain st1 where "deliver_frames io send_frame fs st1 s1 = (p, st', s')"
        using Cons.prems(3) True commit by (auto simp: f answered_def split: sync_outcome.splits)
      from Cons.IH [OF _ fs this, of] h ok obtain m where
        "m \<le> length fs \<and> spool_items crc s' (drop m its') \<and> list_all (\<lambda>f. answered (send_frame (snd f))) (take m its')
          \<and> (p = Progress \<longrightarrow> m = length fs)
          \<and> (p \<noteq> Progress \<longrightarrow> m < length fs \<and> (answered (send_frame (snd (its' ! m))) \<longrightarrow> last_error st' = Some commit_failed_text)
              \<or> 0 < m \<and> last_error st' = Some commit_failed_text)"
        by blast
      then show ?thesis
        using True by (intro exI [of _ "Suc m"]) (auto simp: its f)
    next
      case False
      then have res: "p = Backoff Doubling" "last_error st' = Some commit_failed_text" "s' = s1"
        using Cons.prems(3) True commit by (auto simp: f answered_def split: sync_outcome.splits)
      from h show ?thesis
      proof
        assume "spool_items crc s1 its'"
        then show ?thesis using res True by (intro exI [of _ 1]) (simp add: its f)
      next
        assume "\<not> ok \<and> spool_items crc s1 its"
        then show ?thesis using res by (intro exI [of _ 0]) (simp add: its f)
      qed
    qed
  qed
qed

text \<open>
  C18. The peer sync loses no frame. After a pass the spool holds the same frames less a front run, every
  frame of which the peer has answered for good (took it, or rejected it for good); a frame answered with
  retry, busy or unauthorized, and every frame behind it, is still queued. A pass that reports progress
  has consumed every frame it read.
\<close>

theorem deliver_loses_nothing:
  assumes "spool_items crc s its" and "deliver crc io has_target send_frame st s = (p, st', s')"
  shows "\<exists>m \<le> FRAMES_PER_PASS. spool_items crc s' (drop m its)
    \<and> list_all (\<lambda>f. answered (send_frame (snd f))) (take m its)
    \<and> (p = Progress \<longrightarrow> m = min FRAMES_PER_PASS (length its) \<and> 0 < m)
    \<and> (p = IdlePass \<longrightarrow> m = 0 \<and> (has_target \<longrightarrow> its = []))"
proof (cases "has_target \<and> its \<noteq> []")
  case True
  define fs where "fs = take FRAMES_PER_PASS its"
  have "peek crc FRAMES_PER_PASS s = fs" and ne: "fs \<noteq> []"
    using spool_queue.front_holds [OF assms(1)] True by (auto simp: fs_def FRAMES_PER_PASS_def)
  then have run: "deliver_frames io send_frame fs st s = (p, st', s')"
    using assms(2) True by (simp add: deliver_def)
  have "p \<noteq> IdlePass"
    using run by (induction fs arbitrary: st s)
      (auto simp: Let_def split: sync_outcome.splits prod.splits bool.splits)
  with deliver_frames_prefix [OF assms(1) fs_def run] ne show ?thesis
    by (auto simp: fs_def)
next
  case False
  then have "p = IdlePass" "s' = s"
    using assms(2) spool_queue.front_holds [OF assms(1), of FRAMES_PER_PASS]
    by (auto simp: deliver_def Let_def split: if_splits)
  then show ?thesis
    using False assms(1) by (intro exI [of _ 0]) auto
qed

section \<open>Witnesses\<close>

lemma demo_items: "\<exists>c. spool_items demo_crc demo_sp3 [(c, [3])]"
  using reach_items [OF demo_spool_reach] by auto


theorem deliver_loses_nothing_witness:
  "\<exists>its s'. map snd its = [[3]] \<and> s' = snd (snd (deliver demo_crc demo_sp_io True (\<lambda>_. Busy ''503'') sync_status_default demo_sp3))
    \<and> spool_items demo_crc s' its"
proof -
  obtain c where items: "spool_items demo_crc demo_sp3 [(c, [3])]"
    using demo_items by blast
  obtain p st' s' where run: "deliver demo_crc demo_sp_io True (\<lambda>_. Busy ''503'') sync_status_default demo_sp3 = (p, st', s')"
    by (cases "deliver demo_crc demo_sp_io True (\<lambda>_. Busy ''503'') sync_status_default demo_sp3")
  from deliver_loses_nothing [OF items run] obtain m where
    "spool_items demo_crc s' (drop m [(c, [3])])" "list_all (\<lambda>f. answered (Busy ''503'')) (take m [(c, [3 :: 8 word])])"
    by auto
  then have "spool_items demo_crc s' [(c, [3])]"
    by (cases m) (auto simp: answered_def)
  then show ?thesis
    using run by (intro exI [of _ "[(c, [3])]"] exI [of _ s']) simp
qed

end
