(* ===== verification/Mask.thy ===== *)
theory Mask
  imports Model
begin

text \<open>
  Masking of a log line before template mining (\<^verbatim>\<open>mask.rs\<close>): classification of whitespace-separated
  tokens by shape, and the loop that turns a line into masked tokens and parameter candidates.
\<close>

section \<open>Shapes\<close>

datatype mask = Static | Num | Uuid | Hex | Ip | Time | Path | Quoted | Var | Component | Paren

fun placeholder :: "mask \<Rightarrow> string" where
  "placeholder Static = ''''"
| "placeholder Num = ''<NUM>''"
| "placeholder Uuid = ''<UUID>''"
| "placeholder Hex = ''<HEX>''"
| "placeholder Ip = ''<IP>''"
| "placeholder Time = ''<TIME>''"
| "placeholder Path = ''<PATH>''"
| "placeholder Quoted = ''<STR>''"
| "placeholder Var = ''<VAR>''"
| "placeholder Component = ''<COMP>''"
| "placeholder Paren = ''<PAREN>''"

definition is_variable :: "mask \<Rightarrow> bool" where
  "is_variable m \<longleftrightarrow> m \<noteq> Static"

definition is_quoted :: "string \<Rightarrow> bool" where
  "is_quoted t \<longleftrightarrow> 2 \<le> length t
     \<and> (starts_with [CHR 0x22] t \<and> ends_with [CHR 0x22] t \<or> starts_with [CHR 0x27] t \<and> ends_with [CHR 0x27] t)"

fun is_number_chars :: "bool \<Rightarrow> bool \<Rightarrow> string \<Rightarrow> bool" where
  "is_number_chars seen_digit seen_dot [] = seen_digit"
| "is_number_chars seen_digit seen_dot (c # cs) =
     (if is_ascii_digit c then is_number_chars True seen_dot cs
      else if c = CHR ''.'' \<and> \<not> seen_dot then is_number_chars seen_digit True cs
      else if c \<in> set ''mshdBKMG'' \<and> seen_digit then is_number_chars seen_digit seen_dot cs
      else False)"

definition is_number :: "string \<Rightarrow> bool" where
  "is_number t0 = (let t = (case t0 of c # r \<Rightarrow> if c \<in> set ''-+'' then r else t0 | [] \<Rightarrow> [])
     in t \<noteq> [] \<and> is_number_chars False False t)"

definition is_hex :: "string \<Rightarrow> bool" where
  "is_hex t0 = (let t = (case strip_prefix ''0x'' t0 of Some r \<Rightarrow> r
       | None \<Rightarrow> (case strip_prefix ''0X'' t0 of Some r \<Rightarrow> r | None \<Rightarrow> t0))
     in 8 \<le> length t \<and> list_all is_ascii_hexdigit t)"

definition is_uuid :: "string \<Rightarrow> bool" where
  "is_uuid t0 = (let t = trim_matches (\<lambda>c. c \<in> set ''{}'') t0; parts = split_on (CHR ''-'') t in
     length t = 36
     \<and> length parts = 5
     \<and> list_all2 (\<lambda>n p. length p = n \<and> list_all is_ascii_hexdigit p) [8, 4, 4, 4, 12] parts)"

definition is_ip :: "string \<Rightarrow> bool" where
  "is_ip t = (let host = (case split_once (CHR '':'') t of
         Some (h, p) \<Rightarrow> if list_all is_ascii_digit p \<and> p \<noteq> [] then h else t
       | None \<Rightarrow> t);
       parts = split_on (CHR ''.'') host
     in list_all (\<lambda>part. \<not> (part = [] \<or> 3 < length part \<or> \<not> list_all is_ascii_digit part)
          \<and> \<not> 255 < (case parse_unsigned 65535 part of Some n \<Rightarrow> n | None \<Rightarrow> 999)) parts
        \<and> length parts = 4)"

definition digits_at :: "nat \<Rightarrow> nat \<Rightarrow> string \<Rightarrow> bool" where
  "digits_at a b t = list_all is_ascii_digit (take (b - a) (drop a t))"

definition is_clock_part :: "string \<Rightarrow> bool" where
  "is_clock_part p = (p \<noteq> [] \<and> (let q = hd (split_on (CHR ''.'') p) in
     length q \<le> 2 \<and> q \<noteq> [] \<and> list_all is_ascii_digit q))"

definition is_timestamp :: "string \<Rightarrow> bool" where
  "is_timestamp t = (
     if 10 \<le> length t \<and> digits_at 0 4 t \<and> t ! 4 = CHR ''-'' \<and> digits_at 5 7 t
        \<and> t ! 7 = CHR ''-'' \<and> digits_at 8 10 t
     then True
     else (let parts = split_on (CHR '':'') t in length parts = 3 \<and> list_all is_clock_part parts))"

definition is_path :: "string \<Rightarrow> bool" where
  "is_path t \<longleftrightarrow> (starts_with ''/'' t \<or> starts_with ''./'' t \<or> starts_with ''../'' t) \<and> 1 < length t"

definition classify :: "string \<Rightarrow> mask" where
  "classify token = (
     if token = [] then Static
     else if is_quoted token then Quoted
     else if is_uuid token then Uuid
     else if is_timestamp token then Time
     else if is_ip token then Ip
     else if 16 \<le> length token \<and> is_hex token then Hex
     else if is_number token then Num
     else if is_hex token then Hex
     else if is_path token then Path
     else if list_ex is_ascii_digit token then Var
     else Static)"

section \<open>Lines\<close>

definition split_kv :: "string \<Rightarrow> (string \<times> string) option" where
  "split_kv token = (case split_once (CHR ''='') token of
     None \<Rightarrow> None
   | Some (key, value) \<Rightarrow>
       if key = [] \<or> value = [] then None
       else if list_ex (\<lambda>c. is_ascii_digit c \<or> c = CHR 0x22) key then None
       else Some (key, value))"

definition is_component_prefix :: "string \<Rightarrow> nat \<Rightarrow> bool" where
  "is_component_prefix token position = (
     if 1 < position then False
     else case Option.bind (strip_prefix ''['' token) (strip_suffix '']'') of
       None \<Rightarrow> False
     | Some inner \<Rightarrow>
         if inner = [] \<or> from_text inner \<noteq> None then False
         else list_all (\<lambda>c. is_ascii_alphanumeric c \<or> c \<in> set ''._-:/'') inner)"

definition MAX_PAREN_TOKENS :: nat where "MAX_PAREN_TOKENS = 4"

definition is_optional_unit :: "string \<Rightarrow> bool" where
  "is_optional_unit token \<longleftrightarrow> trim_end_matches (\<lambda>c. \<not> is_ascii_alphanumeric c) token
     \<in> {''sec'', ''secs'', ''ms'', ''msec'', ''s'', ''m'', ''h'', ''KB'', ''MB'', ''GB'', ''TB'', ''kb'', ''mb'', ''gb'', ''bytes''}"

definition split_trailing_punctuation :: "string \<Rightarrow> string \<times> string" where
  "split_trailing_punctuation token = (let trimmed = trim_end_matches (\<lambda>c. c \<in> set '',;.)]}:'') token in
     if trimmed = [] then (token, []) else (trimmed, drop (length trimmed) token))"

definition is_placeholder :: "string \<Rightarrow> bool" where
  "is_placeholder masked \<longleftrightarrow> CHR ''<'' \<in> set masked \<and> CHR ''>'' \<in> set masked"

text \<open>The number of words of a parenthesised group that starts here and carries a value.\<close>

definition paren_group :: "string list \<Rightarrow> nat option" where
  "paren_group words = (
     if starts_with ''('' (hd words) \<and> \<not> starts_with ''()'' (hd words) then
       (let window = take MAX_PAREN_TOKENS words; i = length (takeWhile (\<lambda>w. \<not> ends_with '')'' w) window) in
        if i < length window \<and> list_ex is_ascii_digit (join '' '' (take (Suc i) words)) then Some (Suc i) else None)
     else None)"

text \<open>One word that is neither a group nor a unit: its masked token and its parameter candidate.\<close>

definition mask_word :: "nat \<Rightarrow> string \<Rightarrow> string \<times> string" where
  "mask_word position raw_token = (
     if is_component_prefix raw_token position then (placeholder Component, raw_token)
     else (let (core, trailing) = split_trailing_punctuation raw_token in
       case split_kv core of
         Some (key, value) \<Rightarrow>
           (let m = classify value in
            (if is_variable m then key @ ''='' @ placeholder m @ trailing else core @ trailing, value))
       | None \<Rightarrow>
           (let m = classify core in
            (if is_variable m then placeholder m @ trailing else raw_token, core))))"

function mask_words :: "nat \<Rightarrow> string list \<Rightarrow> string list \<Rightarrow> string list \<Rightarrow> string list \<times> string list" where
  "mask_words position words tokens raw = (
     if words = [] then (tokens, raw)
     else case paren_group words of
       Some n \<Rightarrow> mask_words (position + n) (drop n words) tokens raw
     | None \<Rightarrow>
         if is_optional_unit (hd words) \<and> tokens \<noteq> [] \<and> is_placeholder (last tokens)
         then mask_words (position + 1) (tl words) tokens raw
         else (let (t, r) = mask_word position (hd words)
               in mask_words (position + 1) (tl words) (tokens @ [t]) (raw @ [r])))"
  by pat_completeness auto
termination
  by (relation "measure (\<lambda>(_, words, _, _). length words)")
    (auto simp: paren_group_def Let_def split: if_splits)

declare mask_words.simps [simp del]

definition mask_line :: "string \<Rightarrow> string list \<times> string list" where
  "mask_line line = mask_words 0 (split_whitespace line) [] []"

definition variable_params :: "string list \<Rightarrow> string list \<Rightarrow> string list" where
  "variable_params tokens raw = map snd (filter (\<lambda>(t, _). is_placeholder t) (zip tokens raw))"

section \<open>Masked tokens\<close>

definition no_digits :: "string \<Rightarrow> bool" where
  "no_digits t \<longleftrightarrow> \<not> list_ex is_ascii_digit t"

lemma no_digits_append [simp]: "no_digits (a @ b) \<longleftrightarrow> no_digits a \<and> no_digits b"
  by (auto simp: no_digits_def)

lemma no_digits_placeholder [simp]: "no_digits (placeholder m)"
  by (cases m) (simp_all add: no_digits_def is_ascii_digit_def)

lemma classify_Static: "classify t = Static \<Longrightarrow> no_digits t"
  by (auto simp: classify_def no_digits_def split: if_splits)

lemma split_trailing:
  assumes "split_trailing_punctuation t = (core, trailing)"
  shows "t = core @ trailing \<and> no_digits trailing"
proof -
  define P where "P = (\<lambda>c. c \<in> set '',;.)]}:'')"
  obtain r where r: "t = trim_end_matches P t @ r" "list_all P r"
    using trim_end_matches_prefix [of t P] by blast
  then have "drop (length (trim_end_matches P t)) t = r"
    by (metis append_eq_conv_conj)
  moreover have "\<not> is_ascii_digit c" if "P c" for c
    using that by (auto simp: P_def is_ascii_digit_def)
  then have "no_digits r"
    using r(2) unfolding no_digits_def list_ex_iff list_all_iff by blast
  ultimately show ?thesis
    using assms r(1) unfolding split_trailing_punctuation_def P_def [symmetric] Let_def
    by (cases "trim_end_matches P t = []") (auto simp: no_digits_def)
qed

lemma split_kv_Some:
  "split_kv t = Some (key, value) \<Longrightarrow> t = key @ CHR ''='' # value \<and> no_digits key"
  by (auto simp: split_kv_def split_once_Some no_digits_def list_ex_iff split: option.splits if_splits)

lemma no_digits_mask_word: "no_digits (fst (mask_word position t))"
proof (cases "is_component_prefix t position")
  case True
  then show ?thesis using no_digits_placeholder [of Component] by (simp add: mask_word_def)
next
  case comp: False
  obtain core trailing where split: "split_trailing_punctuation t = (core, trailing)"
    by (cases "split_trailing_punctuation t")
  then have t: "t = core @ trailing" "no_digits trailing"
    using split_trailing by blast+
  have eq: "no_digits ''=''"
    by (simp add: no_digits_def is_ascii_digit_def)
  show ?thesis
  proof (cases "split_kv core")
    case None
    then show ?thesis
      using comp split t classify_Static [of core]
      by (auto simp: mask_word_def is_variable_def Let_def)
  next
    case (Some kv)
    obtain key "value" where kv: "kv = (key, value)" by (cases kv)
    then have "core = key @ CHR ''='' # value" "no_digits key"
      using split_kv_Some Some by blast+
    then have "no_digits core" if "no_digits value"
      using eq that by (simp add: no_digits_def)
    then show ?thesis
      using comp split t(2) Some kv \<open>no_digits key\<close> eq classify_Static [of "value"] no_digits_placeholder [of "classify value"]
      by (auto simp: mask_word_def is_variable_def Let_def no_digits_def)
  qed
qed

lemma mask_words_inv:
  assumes "mask_words position words tokens raw = (ts, rs)" "length tokens = length raw" "list_all no_digits tokens"
  shows "length ts = length rs \<and> list_all no_digits ts \<and> prefix tokens ts \<and> length ts \<le> length tokens + length words"
  using assms
proof (induction position words tokens raw rule: mask_words.induct)
  case (1 position words tokens raw)
  note eq = mask_words.simps [of position words tokens raw]
  show ?case
  proof (cases "words = []")
    case True
    then show ?thesis using "1.prems" eq by auto
  next
    case ne: False
    show ?thesis
    proof (cases "paren_group words")
      case (Some n)
      then show ?thesis
        using "1.IH"(3) [OF ne Some] "1.prems" eq ne by fastforce
    next
      case None
      show ?thesis
      proof (cases "is_optional_unit (hd words) \<and> tokens \<noteq> [] \<and> is_placeholder (last tokens)")
        case True
        have "mask_words (position + 1) (tl words) tokens raw = (ts, rs)"
          using "1.prems"(1) eq ne None True by simp
        then show ?thesis
          using "1.IH"(1) [OF ne None True] "1.prems"(2,3) by fastforce
      next
        case False
        obtain t r where tr: "mask_word position (hd words) = (t, r)" by (cases "mask_word position (hd words)")
        have "mask_words (position + 1) (tl words) (tokens @ [t]) (raw @ [r]) = (ts, rs)"
          using "1.prems"(1) eq ne None False tr by simp
        moreover have "no_digits t"
          using no_digits_mask_word [of position "hd words"] tr by simp
        ultimately have ih: "length ts = length rs \<and> list_all no_digits ts \<and> prefix (tokens @ [t]) ts
            \<and> length ts \<le> length (tokens @ [t]) + length (tl words)"
          using "1.IH"(2) [OF ne None False tr [symmetric] refl] "1.prems"(2,3) by simp
        moreover have "prefix tokens ts"
          using ih by (metis append_prefixD)
        ultimately show ?thesis
          using ne by (cases words) auto
      qed
    qed
  qed
qed

text \<open>
  C19. Masking neutralises every number. Whatever the line, no masked token contains an ASCII digit, the
  masked tokens and the parameter candidates are aligned index by index, and there are at most as
  many as the line has words.
\<close>

theorem mask_line_masks_digits:
  "list_all (\<lambda>t. \<not> list_ex is_ascii_digit t) (fst (mask_line line))
    \<and> length (fst (mask_line line)) = length (snd (mask_line line))
    \<and> length (fst (mask_line line)) \<le> length (split_whitespace line)"
proof -
  obtain ts rs where m: "mask_words 0 (split_whitespace line) [] [] = (ts, rs)"
    by (cases "mask_words 0 (split_whitespace line) [] []")
  from mask_words_inv [OF m] show ?thesis
    by (simp add: mask_line_def m no_digits_def [abs_def])
qed

end
