(* ===== verification/Float64.thy ===== *)
theory Float64
  imports Complex_Main
begin

text \<open>
  The one floating-point operation the modelled code performs: \<^verbatim>\<open>m as f64 / c as f64\<close> for counts
  \<open>0 \<le> m \<le> c\<close> below \<open>2 ^ 53\<close>, which are exact as doubles. The quotient is rounded to 53 significant bits,
  ties to even; the smallest non-zero quotient is far above the subnormal range. A finite double is
  the rational it stands for, so \<^verbatim>\<open>>=\<close> and \<^verbatim>\<open>total_cmp\<close> are the order of the rationals (no quotient here is
  a negative zero or a NaN).
\<close>

definition round_half_even :: "nat \<Rightarrow> nat \<Rightarrow> nat" where
  "round_half_even a b = (let q = a div b; r = a mod b in
     if 2 * r < b \<or> 2 * r = b \<and> even q then q else q + 1)"

text \<open>The first \<open>k\<close> from the given one with \<open>2 ^ 52 * c \<le> m * 2 ^ k\<close>.\<close>

function f64_scale :: "nat \<Rightarrow> nat \<Rightarrow> nat \<Rightarrow> nat" where
  "f64_scale m c k = (if m = 0 \<or> 2 ^ 52 * c \<le> m * 2 ^ k then k else f64_scale m c (Suc k))"
  by pat_completeness auto
termination
proof (relation "measure (\<lambda>(m, c, k). 2 ^ 52 * c - m * 2 ^ k)")
  fix m c k :: nat
  assume "\<not> (m = 0 \<or> 2 ^ 52 * c \<le> m * 2 ^ k)"
  then have "m * 2 ^ k < 2 ^ 52 * c" "0 < m * 2 ^ k"
    by auto
  then have "2 ^ 52 * c - m * 2 ^ Suc k < 2 ^ 52 * c - m * 2 ^ k"
    by (intro diff_less_mono2) simp_all
  then show "((m, c, Suc k), m, c, k) \<in> measure (\<lambda>(m, c, k). 2 ^ 52 * c - m * 2 ^ k)"
    by simp
qed simp

declare f64_scale.simps [simp del]

definition f64_div :: "nat \<Rightarrow> nat \<Rightarrow> rat" where
  "f64_div m c = (let k = f64_scale m c 0 in of_nat (round_half_even (m * 2 ^ k) c) / 2 ^ k)"

lemma f64_scale_below: "c > 0 \<Longrightarrow> k \<le> 52 \<Longrightarrow> f64_scale c c k = 52"
proof (induction "52 - k" arbitrary: k)
  case 0
  then show ?case by (subst f64_scale.simps) simp
next
  case (Suc n)
  have "(2 :: nat) ^ k < 2 ^ 52"
    using Suc.hyps(2) by (intro power_strict_increasing) simp_all
  then have "c * 2 ^ k < 2 ^ 52 * c"
    using Suc.prems(1) by (simp only: mult.commute [of c] mult_less_mono1)
  then have "f64_scale c c k = f64_scale c c (Suc k)"
    using Suc.prems by (simp add: f64_scale.simps [of c c k])
  then show ?case
    using Suc.hyps(1) [of "Suc k"] Suc.hyps(2) Suc.prems by simp
qed

lemma f64_div_self: "c > 0 \<Longrightarrow> f64_div c c = 1"
  using f64_scale_below [of c 0] by (simp add: f64_div_def round_half_even_def)

lemma round_half_even_le: "a \<le> n * b \<Longrightarrow> 0 < b \<Longrightarrow> round_half_even a b \<le> n"
proof -
  assume a: "a \<le> n * b" "0 < b"
  have "a div b \<le> n" using a by (metis div_le_mono div_mult_self_is_m mult.commute)
  moreover have "a div b < n" if "a mod b \<noteq> 0"
  proof (rule ccontr)
    assume "\<not> a div b < n"
    then have "n * b \<le> a div b * b" by simp
    then have "a mod b = 0" using a(1) that by (metis add_le_same_cancel1 div_mult_mod_eq le_trans le_zero_eq)
    then show False using that by simp
  qed
  ultimately show ?thesis
    using a(2) by (auto simp: round_half_even_def Let_def)
qed

lemma f64_div_le_1: "m \<le> c \<Longrightarrow> 0 < c \<Longrightarrow> f64_div m c \<le> 1"
proof -
  assume "m \<le> c" "0 < c"
  define k where "k = f64_scale m c 0"
  have "round_half_even (m * 2 ^ k) c \<le> 2 ^ k"
    using \<open>m \<le> c\<close> \<open>0 < c\<close> by (intro round_half_even_le) (simp_all add: mult.commute)
  then have "(of_nat (round_half_even (m * 2 ^ k) c) :: rat) \<le> 2 ^ k"
    by (metis of_nat_le_iff of_nat_numeral of_nat_power)
  then show ?thesis
    by (simp add: f64_div_def k_def [symmetric] Let_def)
qed

text \<open>Evaluation of quotients from one half to one, which take 53 places.\<close>

lemma f64_scale_reaches:
  assumes "j \<le> k" "\<And>i. i < k \<Longrightarrow> m * 2 ^ i < 2 ^ 52 * c" "2 ^ 52 * c \<le> m * 2 ^ k"
  shows "f64_scale m c j = k"
  using assms(1)
proof (induction "k - j" arbitrary: j)
  case 0
  then show ?case using assms(3) by (simp add: f64_scale.simps [of m c j])
next
  case (Suc n)
  show ?case
  proof (cases "m = 0")
    case True
    then show ?thesis using assms(2) [of j] assms(3) Suc.hyps(2) by (cases "j < k") auto
  next
    case False
    have "m * 2 ^ j < 2 ^ 52 * c"
      using Suc.hyps(2) by (intro assms(2)) simp
    then have "f64_scale m c j = f64_scale m c (Suc j)"
      using False by (simp only: f64_scale.simps [of m c j] not_le [symmetric] if_False simp_thms)
    then show ?thesis using Suc.hyps(1) [of "Suc j"] Suc.hyps(2) by simp
  qed
qed

lemma f64_div_53:
  assumes "c \<le> 2 * m" "m < c"
  shows "f64_div m c = of_nat (round_half_even (m * 2 ^ 53) c) / 2 ^ 53"
proof -
  have "m * 2 ^ i < 2 ^ 52 * c" if "i < 53" for i
  proof -
    have "m * 2 ^ i \<le> m * 2 ^ 52"
      using that by (intro mult_left_mono power_increasing) auto
    also have "\<dots> < 2 ^ 52 * c" using assms by simp
    finally show ?thesis .
  qed
  then have "f64_scale m c 0 = 53"
    using assms by (intro f64_scale_reaches) auto
  then show ?thesis by (simp add: f64_div_def)
qed

section \<open>Conversions, quotients and products\<close>

text \<open>
  Rounding of any non-negative ratio to 53 bits, for values in the normal range; conversion of a
  \<^verbatim>\<open>u64\<close>, the quotient and the product of two non-negative doubles, and the saturating cast back.
\<close>

function f64_down :: "nat \<Rightarrow> nat \<Rightarrow> nat \<Rightarrow> nat" where
  "f64_down m c j = (if c = 0 \<or> m < 2 ^ 53 * c * 2 ^ j then j else f64_down m c (Suc j))"
  by pat_completeness auto
termination
proof (relation "measure (\<lambda>(m, c, j). Suc m - 2 ^ 53 * c * 2 ^ j)")
  fix m c j :: nat
  assume "\<not> (c = 0 \<or> m < 2 ^ 53 * c * 2 ^ j)"
  then have "2 ^ 53 * c * 2 ^ j \<le> m" "0 < 2 ^ 53 * c * 2 ^ j"
    by auto
  then have "Suc m - 2 ^ 53 * c * 2 ^ Suc j < Suc m - 2 ^ 53 * c * 2 ^ j"
    by (intro diff_less_mono2) simp_all
  then show "((m, c, Suc j), m, c, j) \<in> measure (\<lambda>(m, c, j). Suc m - 2 ^ 53 * c * 2 ^ j)"
    by simp
qed simp

declare f64_down.simps [simp del]

definition f64_ratio :: "nat \<Rightarrow> nat \<Rightarrow> rat" where
  "f64_ratio m c = (
     if m < 2 ^ 53 * c then f64_div m c
     else (let j = f64_down m c 0 in of_nat (round_half_even m (c * 2 ^ j) * 2 ^ j)))"

definition f64_rat :: "rat \<Rightarrow> rat" where
  "f64_rat q = (let (n, d) = quotient_of q in f64_ratio (nat n) (nat d))"

definition f64_of_u64 :: "nat \<Rightarrow> rat" where "f64_of_u64 n = f64_ratio n 1"
definition f64_quot :: "rat \<Rightarrow> rat \<Rightarrow> rat" where "f64_quot x y = f64_rat (x / y)"
definition f64_mult :: "rat \<Rightarrow> rat \<Rightarrow> rat" where "f64_mult x y = f64_rat (x * y)"
definition f64_as_u64 :: "rat \<Rightarrow> nat" where "f64_as_u64 x = min (nat \<lfloor>x\<rfloor>) 18446744073709551615"

end
