(* ===== verification/Drain.thy ===== *)
theory Drain
  imports Mask Float64 "HOL-Library.AList"
begin

text \<open>
  Online template mining (\<^verbatim>\<open>drain.rs\<close>): the parse tree, the similarity score, merging, and the
  bookkeeping of shape hashes and lineages. Hash maps are association lists, counters are naturals,
  the FNV hash is a 64-bit word that wraps, a score is the rational value of the double.
\<close>

unbundle bit_operations_syntax

section \<open>Templates and hashes\<close>

definition WILDCARD :: string where "WILDCARD = ''<*>''"

record drain_config =
  depth :: nat
  max_children :: nat
  similarity_threshold :: rat
  max_templates :: nat

text \<open>The threshold of the default configuration is the double nearest to 0.9.\<close>

definition drain_config_default :: drain_config where
  "drain_config_default = \<lparr>depth = 4, max_children = 100, similarity_threshold = f64_div 9 10, max_templates = 10000\<rparr>"

record template =
  t_id :: nat
  t_tokens :: "string list"
  t_count :: nat
  first_seen_unix_secs :: nat
  last_seen_unix_secs :: nat
  lineage_id :: "64 word"

definition fingerprint_of :: "string \<Rightarrow> 64 word" where
  "fingerprint_of text = foldl (\<lambda>hash c. (hash XOR of_char c) * 0x100000001b3) 0xcbf29ce484222325 text"

definition template_text :: "template \<Rightarrow> string" where
  "template_text t = join '' '' (t_tokens t)"

definition fingerprint :: "template \<Rightarrow> 64 word" where
  "fingerprint t = fingerprint_of (template_text t)"

record match_result =
  m_template_id :: nat
  m_shape_id :: "64 word"
  m_params :: "string list"
  m_is_new :: bool

record shape =
  shape_lineage :: "64 word"
  shape_text :: string

datatype node = Node "(string \<times> node) list" "nat list"

record drain =
  d_config :: drain_config
  roots :: "(nat \<times> node) list"
  templates :: "(nat \<times> template) list"
  shape_ids :: "(nat \<times> 64 word) list"
  shapes :: "(64 word \<times> shape) list"
  lineages :: "64 word list"
  next_tid :: nat
  untemplated :: nat
  lines_seen :: nat

definition token_levels :: "drain_config \<Rightarrow> nat" where
  "token_levels c = max (depth c - 2) 1"

definition drain_new :: "drain_config \<Rightarrow> drain" where
  "drain_new c = \<lparr>d_config = c, roots = [], templates = [], shape_ids = [], shapes = [], lineages = [],
     next_tid = 1, untemplated = 0, lines_seen = 0\<rparr>"

section \<open>The tree\<close>

definition tree_key :: "string \<Rightarrow> string" where
  "tree_key token = (if is_placeholder token then WILDCARD else token)"

fun descend :: "node \<Rightarrow> string list \<Rightarrow> nat list" where
  "descend (Node children ids) [] = ids"
| "descend (Node children ids) (token # tokens) =
     (case map_of children (tree_key token) of
        Some n \<Rightarrow> descend n tokens
      | None \<Rightarrow> (case map_of children WILDCARD of
            Some n \<Rightarrow> descend n tokens
          | None \<Rightarrow> ids))"

definition leaf_templates :: "drain \<Rightarrow> string list \<Rightarrow> nat list" where
  "leaf_templates d tokens = (case map_of (roots d) (length tokens) of
     None \<Rightarrow> []
   | Some n \<Rightarrow> descend n (take (token_levels (d_config d)) tokens))"

definition node_default :: node where "node_default = Node [] []"

fun insert_node :: "nat \<Rightarrow> node \<Rightarrow> string list \<Rightarrow> nat \<Rightarrow> node" where
  "insert_node cap (Node children ids) [] i = Node children (ids @ [i])"
| "insert_node cap (Node children ids) (token # tokens) i =
     (let key0 = tree_key token;
          key = (if map_of children key0 = None \<and> cap \<le> length children then WILDCARD else key0);
          child = (case map_of children key of Some n \<Rightarrow> n | None \<Rightarrow> node_default)
      in Node (AList.update key (insert_node cap child tokens i) children) ids)"

definition insert_into_tree :: "drain \<Rightarrow> string list \<Rightarrow> nat \<Rightarrow> drain" where
  "insert_into_tree d tokens i = (
     let root = (case map_of (roots d) (length tokens) of Some n \<Rightarrow> n | None \<Rightarrow> node_default)
     in d\<lparr>roots := AList.update (length tokens)
            (insert_node (max_children (d_config d)) root (take (token_levels (d_config d)) tokens) i) (roots d)\<rparr>)"

section \<open>Matching\<close>

definition comparable :: "string list \<Rightarrow> string list \<Rightarrow> (string \<times> string) list" where
  "comparable template tokens =
     filter (\<lambda>(t, l). \<not> (t = WILDCARD \<or> is_placeholder t \<or> is_placeholder l)) (zip template tokens)"

definition similarity :: "string list \<Rightarrow> string list \<Rightarrow> rat" where
  "similarity template tokens = (
     if length template \<noteq> length tokens then 0
     else if template = [] then 1
     else (let cs = comparable template tokens; matches = length (filter (\<lambda>(t, l). t = l) cs) in
           if cs = [] then 1 else f64_div matches (length cs)))"

definition merge_into :: "string list \<Rightarrow> string list \<Rightarrow> bool \<times> string list" where
  "merge_into template tokens = (
     list_ex (\<lambda>(slot, token). slot \<noteq> token \<and> slot \<noteq> WILDCARD) (zip template tokens),
     map (\<lambda>(slot, token). if slot \<noteq> token \<and> slot \<noteq> WILDCARD then WILDCARD else slot) (zip template tokens)
       @ drop (length tokens) template)"

definition params_for :: "string list \<Rightarrow> string list \<Rightarrow> string list \<Rightarrow> string list" where
  "params_for template masked raw = map (\<lambda>i. raw ! i)
     (filter (\<lambda>i. (template ! i = WILDCARD \<or> i < length masked \<and> is_placeholder (masked ! i)) \<and> i < length raw)
       [0..<length template])"

definition note_shape :: "drain \<Rightarrow> template \<Rightarrow> 64 word \<times> drain" where
  "note_shape d t = (let text = template_text t; hash = fingerprint_of text in
     (hash, d\<lparr>shape_ids := AList.update (t_id t) hash (shape_ids d),
             shapes := (case map_of (shapes d) hash of
                Some _ \<Rightarrow> shapes d
              | None \<Rightarrow> AList.update hash \<lparr>shape_lineage = lineage_id t, shape_text = text\<rparr> (shapes d))\<rparr>))"

text \<open>\<^verbatim>\<open>Iterator::max_by\<close>: the last of the greatest.\<close>

definition last_max :: "('a \<times> rat) list \<Rightarrow> ('a \<times> rat) option" where
  "last_max xs = foldl (\<lambda>best x. case best of None \<Rightarrow> Some x | Some y \<Rightarrow> if snd y \<le> snd x then Some x else Some y) None xs"

definition scored :: "drain \<Rightarrow> string list \<Rightarrow> (nat \<times> rat) list" where
  "scored d masked = filter (\<lambda>(_, score). similarity_threshold (d_config d) \<le> score)
     (List.map_filter (\<lambda>i. map_option (\<lambda>t. (i, similarity (t_tokens t) masked)) (map_of (templates d) i))
       (leaf_templates d masked))"

text \<open>
  The source panics where a candidate has no template or a template has no shape hash; those are the
  branches \<open>(None, d)\<close> and \<open>0\<close> below, which the invariant rules out.
\<close>

definition match_masked :: "drain \<Rightarrow> string list \<Rightarrow> string list \<Rightarrow> nat \<Rightarrow> match_result option \<times> drain" where
  "match_masked d masked raw now = (
     if masked = [] then (None, d)
     else case last_max (scored d masked) of
       Some (i, _) \<Rightarrow>
         (case map_of (templates d) i of
            None \<Rightarrow> (None, d)
          | Some t \<Rightarrow>
              (let (widened, tokens) = merge_into (t_tokens t) masked;
                   t' = t\<lparr>t_tokens := tokens, t_count := t_count t + 1, last_seen_unix_secs := now\<rparr>;
                   params = params_for tokens masked raw;
                   d1 = d\<lparr>templates := AList.update i t' (templates d)\<rparr>;
                   (shape_id, d2) = (if widened then note_shape d1 t'
                     else (case map_of (shape_ids d) i of Some h \<Rightarrow> h | None \<Rightarrow> 0, d1))
               in (Some \<lparr>m_template_id = i, m_shape_id = shape_id, m_params = params, m_is_new = False\<rparr>, d2)))
     | None \<Rightarrow>
         if max_templates (d_config d) \<le> length (templates d)
         then (None, d\<lparr>untemplated := untemplated d + 1\<rparr>)
         else (let i = next_tid d;
                   d1 = insert_into_tree (d\<lparr>next_tid := i + 1\<rparr>) masked i;
                   text = join '' '' masked;
                   h = fingerprint_of text;
                   (lin, lins) = (if h \<in> set (lineages d1)
                     then (let h2 = fingerprint_of (text @ [CHR 0x1F] @ show_nat i) in (h2, List.insert h2 (lineages d1)))
                     else (h, List.insert h (lineages d1)));
                   t = \<lparr>t_id = i, t_tokens = masked, t_count = 1, first_seen_unix_secs = now,
                        last_seen_unix_secs = now, lineage_id = lin\<rparr>;
                   (shape_id, d2) = note_shape (d1\<lparr>lineages := lins\<rparr>) t
               in (Some \<lparr>m_template_id = i, m_shape_id = shape_id, m_params = params_for masked masked raw, m_is_new = True\<rparr>,
                   d2\<lparr>templates := AList.update i t (templates d2)\<rparr>)))"

definition add_line :: "drain \<Rightarrow> string \<Rightarrow> nat \<Rightarrow> match_result option \<times> drain" where
  "add_line d line now = (let (masked, raw) = mask_line line
     in match_masked (d\<lparr>lines_seen := lines_seen d + 1\<rparr>) masked raw now)"

definition restore_one :: "drain \<Rightarrow> template \<Rightarrow> drain" where
  "restore_one d t = (
     let d1 = insert_into_tree (d\<lparr>next_tid := max (next_tid d) (t_id t + 1)\<rparr>) (t_tokens t) (t_id t);
         (_, d2) = note_shape (d1\<lparr>lineages := List.insert (lineage_id t) (lineages d1)\<rparr>) t
     in d2\<lparr>templates := AList.update (t_id t) t (templates d2)\<rparr>)"

definition restore :: "drain_config \<Rightarrow> template list \<Rightarrow> drain" where
  "restore c ts = foldl restore_one (drain_new c) ts"

definition template_count :: "drain \<Rightarrow> nat" where
  "template_count d = length (templates d)"

definition drain_shape_id :: "drain \<Rightarrow> nat \<Rightarrow> 64 word option" where
  "drain_shape_id d i = map_of (shape_ids d) i"

definition drain_shape :: "drain \<Rightarrow> 64 word \<Rightarrow> shape option" where
  "drain_shape d h = map_of (shapes d) h"

section \<open>Last maximum\<close>

lemma last_max_snoc:
  "last_max (xs @ [x]) = (case last_max xs of None \<Rightarrow> Some x | Some y \<Rightarrow> if snd y \<le> snd x then Some x else Some y)"
  by (simp add: last_max_def)

lemma last_max_split:
  "last_max xs = Some m \<longleftrightarrow>
     (\<exists>pre post. xs = pre @ m # post \<and> (\<forall>x \<in> set pre. snd x \<le> snd m) \<and> (\<forall>x \<in> set post. snd x < snd m))"
  (is "_ \<longleftrightarrow> ?R xs m")
proof (induction xs arbitrary: m rule: rev_induct)
  case Nil
  show ?case by (simp add: last_max_def)
next
  case (snoc x xs)
  show ?case
  proof (cases "last_max xs")
    case None
    then have "xs = []"
      by (cases xs rule: rev_cases) (auto simp: last_max_snoc split: option.splits if_splits)
    then show ?thesis by (auto simp: last_max_def Cons_eq_append_conv)
  next
    case (Some y)
    then obtain pre post where xs: "xs = pre @ y # post" "\<forall>z \<in> set pre. snd z \<le> snd y" "\<forall>z \<in> set post. snd z < snd y"
      using snoc [of y] by blast
    show ?thesis
    proof (cases "snd y \<le> snd x")
      case True
      then have "\<forall>z \<in> set xs. snd z \<le> snd x"
        using xs by (fastforce dest: less_imp_le)
      moreover have "last_max (xs @ [x]) = Some x"
        using Some True by (simp add: last_max_snoc)
      ultimately show ?thesis
        by (fastforce simp: append_eq_append_conv2 append_eq_Cons_conv Cons_eq_append_conv)
    next
      case False
      have "last_max (xs @ [x]) = Some y"
        using Some False by (simp add: last_max_snoc)
      moreover have "xs @ [x] = pre @ y # (post @ [x])" "\<forall>z \<in> set (post @ [x]). snd z < snd y"
        using xs False by auto
      then have "?R (xs @ [x]) y"
        using xs(2) by blast
      moreover have "m = y" if "?R (xs @ [x]) m" for m
      proof -
        from that obtain p q where pq: "xs @ [x] = p @ m # q" "\<forall>z \<in> set p. snd z \<le> snd m" "\<forall>z \<in> set q. snd z < snd m"
          by blast
        have "q \<noteq> []"
        proof
          assume "q = []"
          then have "m = x" "y \<in> set p" using pq(1) xs(1) by auto
          then show False using pq(2) False by auto
        qed
        then obtain q' where "q = q' @ [x]" "xs = p @ m # q'"
          using pq(1) by (cases q rule: rev_cases) auto
        then have "last_max xs = Some m" using snoc [of m] pq by auto
        then show ?thesis using Some by simp
      qed
      ultimately show ?thesis by (metis option.inject)
    qed
  qed
qed

section \<open>Scores\<close>

lemma similarity_le_1: "similarity template tokens \<le> 1"
  by (auto simp: similarity_def Let_def intro!: f64_div_le_1)

lemma similarity_exact:
  assumes "list_all2 (\<lambda>t l. t = l \<or> t = WILDCARD) template tokens"
  shows "similarity template tokens = 1"
proof -
  have "\<forall>x \<in> set (comparable template tokens). fst x = snd x"
    using assms by (auto simp: comparable_def list_all2_iff)
  then have "filter (\<lambda>(t, l). t = l) (comparable template tokens) = comparable template tokens"
    by (auto simp: filter_id_conv)
  then show ?thesis
    using list_all2_lengthD [OF assms] by (simp add: similarity_def Let_def f64_div_self)
qed

lemma merge_into_covers:
  assumes "length template = length tokens"
  shows "list_all2 (\<lambda>t l. t = l \<or> t = WILDCARD) (snd (merge_into template tokens)) tokens"
  using assms by (induction rule: list_induct2) (auto simp: merge_into_def)

lemma length_merge_into [simp]: "length (snd (merge_into template tokens)) = length template"
  by (simp add: merge_into_def)

lemma merge_into_covered:
  assumes "list_all2 (\<lambda>t l. t = l \<or> t = WILDCARD) template tokens"
  shows "merge_into template tokens = (False, template)"
  using assms
proof (induction rule: list_all2_induct)
  case Nil
  show ?case by (simp add: merge_into_def)
next
  case (Cons t template l tokens)
  then show ?case by (auto simp: merge_into_def)
qed

lemma merge_into_unchanged:
  assumes "length template = length tokens" "\<not> fst (merge_into template tokens)"
  shows "snd (merge_into template tokens) = template"
  using assms by (induction rule: list_induct2) (auto simp: merge_into_def)

section \<open>The tree\<close>

inductive in_node :: "nat \<Rightarrow> node \<Rightarrow> bool" where
  here: "i \<in> set ids \<Longrightarrow> in_node i (Node children ids)"
| below: "(k, c) \<in> set children \<Longrightarrow> in_node i c \<Longrightarrow> in_node i (Node children ids)"

inductive_simps in_node_Node: "in_node i (Node children ids)"

lemma descend_in_node: "i \<in> set (descend n tokens) \<Longrightarrow> in_node i n"
  by (induction n tokens rule: descend.induct)
    (auto simp: in_node_Node split: option.splits dest: map_of_SomeD)

lemma set_alist_update: "x \<in> set (AList.update k v al) \<Longrightarrow> x = (k, v) \<or> x \<in> set al"
  by (induction al) (auto split: if_splits)

lemma insert_in_node:
  "in_node j (insert_node cap n tokens i) \<Longrightarrow> j = i \<or> in_node j n"
proof (induction cap n tokens i rule: insert_node.induct)
  case (1 cap children ids i)
  then show ?case by (auto simp: in_node_Node)
next
  case (2 cap children ids token tokens i)
  define key where "key = (if map_of children (tree_key token) = None \<and> cap \<le> length children then WILDCARD else tree_key token)"
  define child where "child = (case map_of children key of Some n \<Rightarrow> n | None \<Rightarrow> node_default)"
  have eq: "insert_node cap (Node children ids) (token # tokens) i
      = Node (AList.update key (insert_node cap child tokens i) children) ids"
    by (simp add: key_def child_def Let_def)
  have child: "in_node j child \<Longrightarrow> in_node j (Node children ids)" for j
    by (auto simp: child_def node_default_def in_node_Node split: option.splits dest: map_of_SomeD)
  from "2.prems" show ?case
    unfolding eq in_node_Node
    using "2.IH" [OF refl key_def child_def] child by (auto simp: in_node_Node dest: set_alist_update)
qed

lemma descend_insert: "\<exists>xs. descend (insert_node cap n tokens i) tokens = xs @ [i]"
proof (induction cap n tokens i rule: insert_node.induct)
  case (1 cap children ids i)
  show ?case by simp
next
  case (2 cap children ids token tokens i)
  define key where "key = (if map_of children (tree_key token) = None \<and> cap \<le> length children then WILDCARD else tree_key token)"
  define child where "child = (case map_of children key of Some n \<Rightarrow> n | None \<Rightarrow> node_default)"
  have eq: "insert_node cap (Node children ids) (token # tokens) i
      = Node (AList.update key (insert_node cap child tokens i) children) ids"
    by (simp add: key_def child_def Let_def)
  have "descend (insert_node cap (Node children ids) (token # tokens) i) (token # tokens)
      = descend (insert_node cap child tokens i) tokens"
    unfolding eq by (auto simp: update_conv' key_def split: option.split)
  then show ?case
    using "2.IH" [OF refl key_def child_def] by simp
qed

section \<open>The invariant\<close>

text \<open>
  Every id in the tree for lines of \<open>n\<close> tokens is the id of a template of \<open>n\<close> tokens; ids are below
  the counter; the recorded shape hash of every template is the hash of its current text; every
  current hash has a shape; and the template cap holds.
\<close>

definition drain_maps ::
  "(nat \<rightharpoonup> node) \<Rightarrow> (nat \<rightharpoonup> template) \<Rightarrow> (nat \<rightharpoonup> 64 word) \<Rightarrow> (64 word \<rightharpoonup> shape) \<Rightarrow> nat \<Rightarrow> bool" where
  "drain_maps R T S H next \<longleftrightarrow>
     (\<forall>n root i. R n = Some root \<longrightarrow> in_node i root \<longrightarrow> (\<exists>t. T i = Some t \<and> length (t_tokens t) = n))
     \<and> (\<forall>i t. T i = Some t \<longrightarrow> i < next \<and> t_id t = i \<and> S i = Some (fingerprint t) \<and> H (fingerprint t) \<noteq> None)"

definition drain_inv :: "drain \<Rightarrow> bool" where
  "drain_inv d \<longleftrightarrow>
     drain_maps (map_of (roots d)) (map_of (templates d)) (map_of (shape_ids d)) (map_of (shapes d)) (next_tid d)
     \<and> distinct (map fst (templates d)) \<and> length (templates d) \<le> max_templates (d_config d)"

lemma drain_maps_update:
  assumes "drain_maps R T S H n" "T i = Some t" "length (t_tokens t') = length (t_tokens t)" "t_id t' = i"
    "\<And>h. H' h = None \<Longrightarrow> H h = None \<and> h \<noteq> fingerprint t'"
  shows "drain_maps R (T(i \<mapsto> t')) (S(i \<mapsto> fingerprint t')) H' n"
  unfolding drain_maps_def
proof (intro conjI allI impI)
  fix m root j
  assume "R m = Some root" "in_node j root"
  then obtain u where "T j = Some u" "length (t_tokens u) = m"
    using assms(1) unfolding drain_maps_def by blast
  then show "\<exists>u. (T(i \<mapsto> t')) j = Some u \<and> length (t_tokens u) = m"
    using assms(2,3) by (cases "j = i") auto
next
  fix j u assume "(T(i \<mapsto> t')) j = Some u"
  then have u: "j = i \<and> u = t' \<or> j \<noteq> i \<and> T j = Some u"
    by (auto split: if_splits)
  then show "j < n" "t_id u = j" "(S(i \<mapsto> fingerprint t')) j = Some (fingerprint u)"
    using assms(1,2,4) unfolding drain_maps_def by auto
  show "H' (fingerprint u) \<noteq> None"
    using u assms(1) assms(5) [of "fingerprint u"] unfolding drain_maps_def by blast
qed

lemma drain_maps_insert:
  assumes "drain_maps R T S H i" "t_id t = i"
    "\<And>h. H' h = None \<Longrightarrow> H h = None \<and> h \<noteq> fingerprint t"
    "\<And>j. in_node j nd \<Longrightarrow> j = i \<or> (\<exists>r. R (length (t_tokens t)) = Some r \<and> in_node j r)"
  shows "drain_maps (R(length (t_tokens t) \<mapsto> nd)) (T(i \<mapsto> t)) (S(i \<mapsto> fingerprint t)) H' (Suc i)"
  unfolding drain_maps_def
proof (intro conjI allI impI)
  fix m r j
  assume r: "(R(length (t_tokens t) \<mapsto> nd)) m = Some r" "in_node j r"
  show "\<exists>u. (T(i \<mapsto> t)) j = Some u \<and> length (t_tokens u) = m"
  proof (cases "j = i \<and> m = length (t_tokens t)")
    case False
    then obtain r' where "R m = Some r'" "in_node j r'"
      using r assms(4) by (auto split: if_splits)
    then obtain u where "T j = Some u" "length (t_tokens u) = m"
      using assms(1) unfolding drain_maps_def by blast
    moreover from this have "j < i"
      using assms(1) unfolding drain_maps_def by blast
    ultimately show ?thesis by simp
  qed auto
next
  fix j u assume "(T(i \<mapsto> t)) j = Some u"
  then have u: "j = i \<and> u = t \<or> j \<noteq> i \<and> T j = Some u"
    by (auto split: if_splits)
  then show "j < Suc i" "t_id u = j" "(S(i \<mapsto> fingerprint t)) j = Some (fingerprint u)"
    using assms(1,2) unfolding drain_maps_def by (auto intro: less_SucI)
  show "H' (fingerprint u) \<noteq> None"
    using u assms(1) assms(3) [of "fingerprint u"] unfolding drain_maps_def by blast
qed

lemma drain_inv_new: "drain_inv (drain_new c)"
  by (simp add: drain_inv_def drain_maps_def drain_new_def)

lemma drain_inv_touch [simp]:
  "drain_inv (d\<lparr>lines_seen := n\<rparr>) = drain_inv d" "drain_inv (d\<lparr>untemplated := n\<rparr>) = drain_inv d"
  by (simp_all add: drain_inv_def)

lemma leaf_template:
  assumes "drain_inv d" "i \<in> set (leaf_templates d masked)"
  shows "\<exists>t. map_of (templates d) i = Some t \<and> length (t_tokens t) = length masked"
proof -
  obtain root where "map_of (roots d) (length masked) = Some root" "in_node i root"
    using assms(2) by (cases "map_of (roots d) (length masked)") (auto simp: leaf_templates_def dest: descend_in_node)
  then show ?thesis
    using assms(1) unfolding drain_inv_def drain_maps_def by blast
qed

lemma scored_mem:
  assumes "(i, s) \<in> set (scored d masked)"
  shows "i \<in> set (leaf_templates d masked)" "similarity_threshold (d_config d) \<le> s"
    "\<exists>t. map_of (templates d) i = Some t \<and> s = similarity (t_tokens t) masked"
  using assms by (auto simp: scored_def List.map_filter_def)

lemma length_update_existing: "map_of al k = Some v \<Longrightarrow> length (AList.update k w al) = length al"
  by (induction al) (auto split: if_splits)

lemma length_update_new: "map_of al k = None \<Longrightarrow> length (AList.update k w al) = Suc (length al)"
  by (induction al) (auto split: if_splits)

text \<open>The template a line joined, after the merge.\<close>

definition joined :: "template \<Rightarrow> string list \<Rightarrow> nat \<Rightarrow> template" where
  "joined t masked now = t\<lparr>t_tokens := snd (merge_into (t_tokens t) masked), t_count := t_count t + 1,
     last_seen_unix_secs := now\<rparr>"

lemma fingerprint_cong: "t_tokens t = t_tokens u \<Longrightarrow> fingerprint t = fingerprint u"
  by (simp add: fingerprint_def template_text_def)

lemma match_hit:
  assumes inv: "drain_inv d" and ne: "masked \<noteq> []" and best: "last_max (scored d masked) = Some (i, s)"
  obtains t d' where "map_of (templates d) i = Some t" "length (t_tokens t) = length masked"
    "s = similarity (t_tokens t) masked"
    "match_masked d masked raw now = (Some \<lparr>m_template_id = i, m_shape_id = fingerprint (joined t masked now),
       m_params = params_for (t_tokens (joined t masked now)) masked raw, m_is_new = False\<rparr>, d')"
    "roots d' = roots d" "templates d' = AList.update i (joined t masked now) (templates d)"
    "next_tid d' = next_tid d" "d_config d' = d_config d"
    "map_of (shape_ids d') = (map_of (shape_ids d))(i \<mapsto> fingerprint (joined t masked now))"
    "\<And>h. map_of (shapes d') h = None \<Longrightarrow> map_of (shapes d) h = None \<and> h \<noteq> fingerprint (joined t masked now)"
proof -
  have mem: "(i, s) \<in> set (scored d masked)"
    using best by (auto simp: last_max_split)
  obtain t where t: "map_of (templates d) i = Some t" "length (t_tokens t) = length masked" "s = similarity (t_tokens t) masked"
    using leaf_template [OF inv scored_mem(1) [OF mem]] scored_mem(3) [OF mem] by auto
  have sh: "map_of (shape_ids d) i = Some (fingerprint t)" "map_of (shapes d) (fingerprint t) \<noteq> None" "t_id t = i"
    using inv t(1) unfolding drain_inv_def drain_maps_def by blast+
  let ?w = "fst (merge_into (t_tokens t) masked)" and ?t = "joined t masked now"
  define d1 where "d1 = d\<lparr>templates := AList.update i ?t (templates d)\<rparr>"
  define d' where "d' = (if ?w then snd (note_shape d1 ?t) else d1)"
  have same: "fingerprint ?t = fingerprint t" if "\<not> ?w"
    using merge_into_unchanged [OF t(2) that] by (intro fingerprint_cong) (simp add: joined_def)
  have res: "match_masked d masked raw now = (Some \<lparr>m_template_id = i, m_shape_id = fingerprint ?t,
       m_params = params_for (t_tokens ?t) masked raw, m_is_new = False\<rparr>, d')"
    using ne best t(1) sh(1) same
    by (cases "merge_into (t_tokens t) masked")
      (auto simp: match_masked_def d'_def d1_def joined_def note_shape_def fingerprint_def Let_def)
  have "t_id ?t = i"
    using sh(3) by (simp add: joined_def)
  then have ids: "map_of (shape_ids d') = (map_of (shape_ids d))(i \<mapsto> fingerprint ?t)"
    using sh(1) same
    by (cases ?w) (auto simp: d'_def d1_def note_shape_def Let_def update_conv' fingerprint_def)
  have shp: "map_of (shapes d) h = None \<and> h \<noteq> fingerprint ?t" if "map_of (shapes d') h = None" for h
    using that sh(2) same
    by (cases ?w) (auto simp: d'_def d1_def note_shape_def Let_def update_conv' fingerprint_def split: option.splits if_splits)
  have rest: "roots d' = roots d" "templates d' = AList.update i ?t (templates d)" "next_tid d' = next_tid d" "d_config d' = d_config d"
    by (simp_all add: d'_def d1_def note_shape_def Let_def)
  show thesis
    by (rule that [OF t res rest ids shp])
qed

lemma drain_inv_hit:
  assumes "drain_inv d" "masked \<noteq> []" "last_max (scored d masked) = Some (i, s)"
  shows "drain_inv (snd (match_masked d masked raw now))"
proof -
  obtain t d' where t: "map_of (templates d) i = Some t" "length (t_tokens t) = length masked"
    and m: "snd (match_masked d masked raw now) = d'"
    and d': "roots d' = roots d" "templates d' = AList.update i (joined t masked now) (templates d)"
    "next_tid d' = next_tid d" "d_config d' = d_config d"
    "map_of (shape_ids d') = (map_of (shape_ids d))(i \<mapsto> fingerprint (joined t masked now))"
    "\<And>h. map_of (shapes d') h = None \<Longrightarrow> map_of (shapes d) h = None \<and> h \<noteq> fingerprint (joined t masked now)"
    by (rule match_hit [OF assms, of raw now]) simp
  have len: "length (AList.update i (joined t masked now) (templates d)) = length (templates d)"
    by (rule length_update_existing [OF t(1)])
  have maps: "drain_maps (map_of (roots d)) (map_of (templates d)) (map_of (shape_ids d)) (map_of (shapes d)) (next_tid d)"
    using assms(1) by (simp add: drain_inv_def)
  moreover have "t_id (joined t masked now) = i"
    using maps t(1) unfolding drain_maps_def by (simp add: joined_def)
  moreover have "length (t_tokens (joined t masked now)) = length (t_tokens t)"
    by (simp add: joined_def)
  ultimately have "drain_maps (map_of (roots d)) ((map_of (templates d))(i \<mapsto> joined t masked now))
      ((map_of (shape_ids d))(i \<mapsto> fingerprint (joined t masked now))) (map_of (shapes d')) (next_tid d)"
    using t(1) d'(6) by (intro drain_maps_update)
  then show ?thesis
    using assms(1) len unfolding m drain_inv_def d'(1-5) update_conv' by (simp add: distinct_update)
qed

lemma lineages_insert_into_tree [simp]: "lineages (insert_into_tree d masked i) = lineages d"
  by (simp add: insert_into_tree_def)

definition root_of :: "drain \<Rightarrow> nat \<Rightarrow> node" where
  "root_of d n = (case map_of (roots d) n of Some r \<Rightarrow> r | None \<Rightarrow> node_default)"

lemma match_mint:
  assumes ne: "masked \<noteq> []" and none: "last_max (scored d masked) = None"
    and room: "length (templates d) < max_templates (d_config d)"
  obtains t d' where "t_id t = next_tid d" "t_tokens t = masked"
    "match_masked d masked raw now = (Some \<lparr>m_template_id = next_tid d, m_shape_id = fingerprint t,
       m_params = params_for masked masked raw, m_is_new = True\<rparr>, d')"
    "roots d' = AList.update (length masked) (insert_node (max_children (d_config d)) (root_of d (length masked))
       (take (token_levels (d_config d)) masked) (next_tid d)) (roots d)"
    "templates d' = AList.update (next_tid d) t (templates d)"
    "next_tid d' = Suc (next_tid d)" "d_config d' = d_config d"
    "map_of (shape_ids d') = (map_of (shape_ids d))(next_tid d \<mapsto> fingerprint t)"
    "\<And>h. map_of (shapes d') h = None \<Longrightarrow> map_of (shapes d) h = None \<and> h \<noteq> fingerprint t"
proof -
  define i where "i = next_tid d"
  define str where "str = join '' '' masked"
  define h where "h = fingerprint_of str"
  define lin where "lin = (if h \<in> set (lineages d) then fingerprint_of (str @ [CHR 0x1F] @ show_nat i) else h)"
  define t where "t = \<lparr>t_id = i, t_tokens = masked, t_count = 1, first_seen_unix_secs = now,
     last_seen_unix_secs = now, lineage_id = lin\<rparr>"
  define d1 where "d1 = (insert_into_tree (d\<lparr>next_tid := i + 1\<rparr>) masked i)\<lparr>lineages := List.insert lin (lineages d)\<rparr>"
  define d2 where "d2 = snd (note_shape d1 t)"
  define d' where "d' = d2\<lparr>templates := AList.update i t (templates d2)\<rparr>"
  have fp: "fingerprint t = h"
    by (simp add: t_def fingerprint_def template_text_def h_def str_def)
  have res: "match_masked d masked raw now = (Some \<lparr>m_template_id = i, m_shape_id = fingerprint t,
       m_params = params_for masked masked raw, m_is_new = True\<rparr>, d')"
    using ne none room unfolding d'_def d2_def d1_def t_def lin_def
    by (cases "h \<in> set (lineages d)")
      (simp_all add: match_masked_def i_def [symmetric] str_def [symmetric] h_def [symmetric] Let_def
        note_shape_def template_text_def fingerprint_def cong: option.case_cong)
  have fields: "roots d' = AList.update (length masked) (insert_node (max_children (d_config d)) (root_of d (length masked))
       (take (token_levels (d_config d)) masked) i) (roots d)"
    "templates d' = AList.update i t (templates d)" "next_tid d' = Suc i" "d_config d' = d_config d"
    by (simp_all add: d'_def d2_def d1_def note_shape_def insert_into_tree_def root_of_def Let_def)
  have ids: "map_of (shape_ids d') = (map_of (shape_ids d))(i \<mapsto> fingerprint t)"
    by (simp add: d'_def d2_def d1_def note_shape_def insert_into_tree_def Let_def update_conv' fingerprint_def) (simp add: t_def)
  have shp: "map_of (shapes d) x = None \<and> x \<noteq> fingerprint t" if "map_of (shapes d') x = None" for x
    using that unfolding fingerprint_def
    by (auto simp: d'_def d2_def d1_def note_shape_def insert_into_tree_def Let_def update_conv' split: option.splits if_splits)
  show thesis
    by (rule that [of t d', folded i_def, OF _ _ res fields ids shp]) (simp_all add: t_def)
qed

lemma in_root_of: "in_node j (root_of d n) \<Longrightarrow> \<exists>r. map_of (roots d) n = Some r \<and> in_node j r"
  by (auto simp: root_of_def node_default_def in_node_Node split: option.splits)

lemma drain_inv_mint:
  assumes inv: "drain_inv d" and "masked \<noteq> []" "last_max (scored d masked) = None"
    "length (templates d) < max_templates (d_config d)"
  shows "drain_inv (snd (match_masked d masked raw now))"
proof -
  obtain t d' where t: "t_id t = next_tid d" "t_tokens t = masked"
    and m: "snd (match_masked d masked raw now) = d'"
    and d': "roots d' = AList.update (length masked) (insert_node (max_children (d_config d)) (root_of d (length masked))
       (take (token_levels (d_config d)) masked) (next_tid d)) (roots d)"
    "templates d' = AList.update (next_tid d) t (templates d)"
    "next_tid d' = Suc (next_tid d)" "d_config d' = d_config d"
    "map_of (shape_ids d') = (map_of (shape_ids d))(next_tid d \<mapsto> fingerprint t)"
    "\<And>h. map_of (shapes d') h = None \<Longrightarrow> map_of (shapes d) h = None \<and> h \<noteq> fingerprint t"
    by (rule match_mint [OF assms(2-4), of raw now]) simp
  have maps: "drain_maps (map_of (roots d)) (map_of (templates d)) (map_of (shape_ids d)) (map_of (shapes d)) (next_tid d)"
    using inv by (simp add: drain_inv_def)
  have none: "map_of (templates d) (next_tid d) = None"
    using maps unfolding drain_maps_def by (metis less_irrefl option.exhaust)
  have "drain_maps ((map_of (roots d))(length (t_tokens t) \<mapsto> insert_node (max_children (d_config d)) (root_of d (length masked))
       (take (token_levels (d_config d)) masked) (next_tid d))) ((map_of (templates d))(next_tid d \<mapsto> t))
      ((map_of (shape_ids d))(next_tid d \<mapsto> fingerprint t)) (map_of (shapes d')) (Suc (next_tid d))"
    by (rule drain_maps_insert [OF maps t(1) d'(6)])
      (auto simp: t(2) dest!: insert_in_node in_root_of)
  then show ?thesis
    using inv assms(4) length_update_new [OF none, of t] unfolding m drain_inv_def d'(1-5) update_conv'
    by (simp add: distinct_update t(2))
qed

lemma drain_inv_match:
  assumes "drain_inv d"
  shows "drain_inv (snd (match_masked d masked raw now))"
proof (cases "masked = []")
  case True
  then show ?thesis using assms by (simp add: match_masked_def)
next
  case ne: False
  show ?thesis
  proof (cases "last_max (scored d masked)")
    case None
    show ?thesis
    proof (cases "length (templates d) < max_templates (d_config d)")
      case True
      then show ?thesis using drain_inv_mint [OF assms ne None] by blast
    next
      case False
      then show ?thesis using assms None ne by (simp add: match_masked_def)
    qed
  next
    case (Some x)
    then show ?thesis using drain_inv_hit [OF assms ne] by (cases x) blast
  qed
qed

lemma drain_inv_add_line: "drain_inv d \<Longrightarrow> drain_inv (snd (add_line d line now))"
  by (simp add: add_line_def drain_inv_match split: prod.split)


section \<open>A line seen twice\<close>

lemma map_filter_cong:
  assumes "\<And>x. x \<in> set xs \<Longrightarrow> f x = g x"
  shows "List.map_filter f xs = List.map_filter g xs"
  using assms by (induction xs) (auto split: option.split)

lemma last_max_None: "last_max xs = None \<longleftrightarrow> xs = []"
proof (cases xs rule: rev_cases)
  case Nil
  then show ?thesis by (simp add: last_max_def)
next
  case (snoc ys y)
  then show ?thesis by (simp add: last_max_snoc split: option.split)
qed

lemma last_max_greatest:
  assumes "last_max xs = Some m"
  shows "m \<in> set xs" "x \<in> set xs \<Longrightarrow> snd x \<le> snd m"
  using assms less_imp_le by (auto simp: last_max_split) blast

lemma scored_memI:
  assumes "i \<in> set (leaf_templates d masked)" "map_of (templates d) i = Some t"
    "similarity_threshold (d_config d) \<le> similarity (t_tokens t) masked"
  shows "(i, similarity (t_tokens t) masked) \<in> set (scored d masked)"
  using assms by (force simp: scored_def List.map_filter_def)

lemma scored_cong:
  assumes "leaf_templates d' masked = leaf_templates d masked" "d_config d' = d_config d"
    "\<And>i. i \<in> set (leaf_templates d masked) \<Longrightarrow>
       map_option (\<lambda>t. similarity (t_tokens t) masked) (map_of (templates d') i)
       = map_option (\<lambda>t. similarity (t_tokens t) masked) (map_of (templates d) i)"
  shows "scored d' masked = scored d masked"
proof -
  have "map_option (\<lambda>t. (i, similarity (t_tokens t) masked)) (map_of (templates d') i)
      = map_option (\<lambda>t. (i, similarity (t_tokens t) masked)) (map_of (templates d) i)"
    if "i \<in> set (leaf_templates d masked)" for i
    using arg_cong [OF assms(3) [OF that], of "map_option (Pair i)"] by (simp add: option.map_comp comp_def)
  then show ?thesis
    unfolding scored_def assms(1,2) by (intro arg_cong [where f = "filter _"] map_filter_cong) auto
qed

text \<open>A template that covers a line and wins the vote for it is left as it is.\<close>

lemma match_covered:
  assumes inv: "drain_inv d" and ne: "masked \<noteq> []" and best: "last_max (scored d masked) = Some (i, s)"
    and t: "map_of (templates d) i = Some t" and cov: "list_all2 (\<lambda>t l. t = l \<or> t = WILDCARD) (t_tokens t) masked"
  shows "fst (match_masked d masked raw now) = Some \<lparr>m_template_id = i, m_shape_id = fingerprint t,
    m_params = params_for (t_tokens t) masked raw, m_is_new = False\<rparr>"
proof -
  have "t_tokens (joined t masked now) = t_tokens t"
    using merge_into_covered [OF cov] by (simp add: joined_def)
  moreover from this have "fingerprint (joined t masked now) = fingerprint t"
    by (rule fingerprint_cong)
  ultimately show ?thesis
    using t by (auto intro: match_hit [OF inv ne best, of raw now])
qed

lemma leaf_templates_cong:
  "roots d' = roots d \<Longrightarrow> d_config d' = d_config d \<Longrightarrow> leaf_templates d' masked = leaf_templates d masked"
  by (simp add: leaf_templates_def cong: option.case_cong)

lemma hit_again:
  assumes inv: "drain_inv d" and thr: "similarity_threshold (d_config d) \<le> 1"
    and best: "last_max (scored d masked) = Some (i, s)"
    and t: "map_of (templates d) i = Some t" "s = similarity (t_tokens t) masked"
    and u: "list_all2 (\<lambda>t l. t = l \<or> t = WILDCARD) (t_tokens u) masked"
    and d': "roots d' = roots d" "templates d' = AList.update i u (templates d)" "d_config d' = d_config d"
  shows "last_max (scored d' masked) = Some (i, 1)"
proof -
  have leaf: "leaf_templates d' masked = leaf_templates d masked"
    using d' by (intro leaf_templates_cong)
  have one: "similarity (t_tokens u) masked = 1"
    by (rule similarity_exact [OF u])
  have i: "i \<in> set (leaf_templates d masked)"
    using scored_mem(1) last_max_greatest(1) [OF best] by blast
  have T: "map_of (templates d') = (map_of (templates d))(i \<mapsto> u)"
    by (simp add: d'(2) update_conv')
  have mem: "(i, 1) \<in> set (scored d' masked)"
    using scored_memI [of i d' masked u] i thr by (simp add: leaf T one d'(3))
  then obtain j s' where j: "last_max (scored d' masked) = Some (j, s')"
    by (cases "last_max (scored d' masked)") (auto simp: last_max_None)
  have s': "s' = 1"
    using last_max_greatest [OF j] mem scored_mem(3) similarity_le_1 by (metis order_antisym snd_conv)
  show ?thesis
  proof (cases "s = 1")
    case True
    have "scored d' masked = scored d masked"
      by (rule scored_cong [OF leaf d'(3)]) (use t one True in \<open>auto simp: T\<close>)
    then show ?thesis using best True by simp
  next
    case False
    have "j = i"
    proof (rule ccontr)
      assume "j \<noteq> i"
      then obtain v where v: "map_of (templates d) j = Some v" "similarity (t_tokens v) masked = 1"
        "j \<in> set (leaf_templates d masked)"
        using scored_mem [of j s' d' masked] last_max_greatest(1) [OF j] s' by (auto simp: T leaf)
      have "(j, 1) \<in> set (scored d masked)"
        using scored_memI [OF v(3,1)] thr v(2) by simp
      then have "1 \<le> s"
        using last_max_greatest(2) [OF best] by fastforce
      then show False
        using False t(2) similarity_le_1 by (metis order_antisym)
    qed
    then show ?thesis using j s' by simp
  qed
qed

lemma mint_again:
  assumes thr: "similarity_threshold (d_config d) \<le> 1" and t: "t_tokens t = masked"
    and d': "roots d' = AList.update (length masked) (insert_node cap n
       (take (token_levels (d_config d)) masked) i) (roots d)"
    "templates d' = AList.update i t (templates d)" "d_config d' = d_config d"
  shows "last_max (scored d' masked) = Some (i, 1)"
proof -
  obtain xs where leaf: "leaf_templates d' masked = xs @ [i]"
    using descend_insert [of cap n "take (token_levels (d_config d)) masked" i]
    by (auto simp: leaf_templates_def d'(1,3) update_conv')
  have "similarity masked masked = 1"
    by (intro similarity_exact) (simp add: list_all2_same)
  then obtain ys where ys: "scored d' masked = ys @ [(i, 1)]"
    using thr by (simp add: scored_def leaf d'(2,3) update_conv' t List.map_filter_def)
  have "snd y \<le> 1" if "y \<in> set ys" for y
    using that scored_mem(3) [of "fst y" "snd y" d' masked] similarity_le_1 by (auto simp: ys)
  then show ?thesis
    unfolding ys last_max_snoc using last_max_greatest(1) by (fastforce split: option.split)
qed

lemma match_twice:
  assumes inv: "drain_inv d" and thr: "similarity_threshold (d_config d) \<le> 1"
    and m: "match_masked d masked raw now = (Some m, d')"
  shows "fst (match_masked (d'\<lparr>lines_seen := n\<rparr>) masked raw now') = Some (m\<lparr>m_is_new := False\<rparr>)"
proof -
  have ne: "masked \<noteq> []"
    using m by (auto simp: match_masked_def)
  define e where "e = d'\<lparr>lines_seen := n\<rparr>"
  have inv': "drain_inv e"
    using drain_inv_match [OF inv, of masked raw now] m by (simp add: e_def)
  show ?thesis
  proof (cases "last_max (scored d masked)")
    case (Some x)
    then obtain i s where best: "last_max (scored d masked) = Some (i, s)" by (cases x) blast
    obtain t where t: "map_of (templates d) i = Some t" "length (t_tokens t) = length masked" "s = similarity (t_tokens t) masked"
      and m': "m = \<lparr>m_template_id = i, m_shape_id = fingerprint (joined t masked now),
        m_params = params_for (t_tokens (joined t masked now)) masked raw, m_is_new = False\<rparr>"
      and d': "roots e = roots d" "templates e = AList.update i (joined t masked now) (templates d)" "d_config e = d_config d"
      by (rule match_hit [OF inv ne best, of raw now]) (use m in \<open>auto simp: e_def\<close>)
    have cov: "list_all2 (\<lambda>t l. t = l \<or> t = WILDCARD) (t_tokens (joined t masked now)) masked"
      using merge_into_covers [OF t(2)] by (simp add: joined_def)
    have "last_max (scored e masked) = Some (i, 1)"
      by (rule hit_again [OF inv thr best t(1,3) cov d'])
    then show ?thesis
      unfolding e_def [symmetric] by (subst match_covered [OF inv' ne _ _ cov]) (simp_all add: d'(2) update_conv' m')
  next
    case None
    then have room: "length (templates d) < max_templates (d_config d)"
      using m ne None by (simp add: match_masked_def split: if_splits)
    obtain t where t: "t_tokens t = masked"
      and m': "m = \<lparr>m_template_id = next_tid d, m_shape_id = fingerprint t, m_params = params_for masked masked raw, m_is_new = True\<rparr>"
      and d': "roots e = AList.update (length masked) (insert_node (max_children (d_config d)) (root_of d (length masked))
         (take (token_levels (d_config d)) masked) (next_tid d)) (roots d)"
      "templates e = AList.update (next_tid d) t (templates d)" "d_config e = d_config d"
      by (rule match_mint [OF ne None room, of raw now]) (use m in \<open>auto simp: e_def\<close>)
    have cov: "list_all2 (\<lambda>t l. t = l \<or> t = WILDCARD) (t_tokens t) masked"
      by (simp add: t list_all2_same)
    have "last_max (scored e masked) = Some (next_tid d, 1)"
      by (rule mint_again [OF thr t d'])
    then show ?thesis
      unfolding e_def [symmetric] by (subst match_covered [OF inv' ne _ _ cov]) (simp_all add: d'(2) update_conv' m' t)
  qed
qed

section \<open>Properties\<close>

lemma d_config_add_line: "d_config (snd (add_line d line now)) = d_config d"
  by (auto simp: add_line_def match_masked_def note_shape_def insert_into_tree_def Let_def
      split: prod.split option.split)

definition add_lines :: "drain \<Rightarrow> (string \<times> nat) list \<Rightarrow> drain" where
  "add_lines d ls = foldl (\<lambda>d (line, now). snd (add_line d line now)) d ls"

lemma d_config_add_lines: "d_config (add_lines (drain_new c) ls) = c"
proof -
  have "d_config (add_lines e ls) = d_config e" for e
    by (induction ls arbitrary: e) (auto simp: add_lines_def d_config_add_line split: prod.split)
  then show ?thesis by (simp add: drain_new_def)
qed

lemma drain_inv_add_lines: "drain_inv d \<Longrightarrow> drain_inv (add_lines d ls)"
proof (induction ls arbitrary: d)
  case (Cons x ls)
  then show ?case
    using drain_inv_add_line [of d "fst x" "snd x"] by (cases x) (simp add: add_lines_def)
qed (simp add: add_lines_def)

section \<open>Lines of single letters\<close>

lemma lower_not: "is_ascii_lower c \<Longrightarrow> \<not> is_ascii_digit c \<and> c \<notin> set ''[](){}<>,;.:=-+/''"
  by (auto simp: is_ascii_lower_def is_ascii_digit_def)

lemma classify_letter:
  assumes "is_ascii_lower c"
  shows "classify [c] = Static"
proof -
  note c = lower_not [OF assms]
  have "is_quoted [c] = False" "is_hex [c] = False" "is_path [c] = False"
    by (simp_all add: is_quoted_def is_hex_def is_path_def strip_prefix_def Let_def)
  moreover have "is_uuid [c] = False"
    by (simp add: is_uuid_def trim_matches_def trim_end_matches_def Let_def)
  moreover have "is_timestamp [c] = False" "is_ip [c] = False" "is_number [c] = False"
    using c by (simp_all add: is_timestamp_def is_ip_def is_number_def Let_def)
  ultimately show ?thesis
    using c by (simp add: classify_def)
qed

lemma mask_word_letter:
  assumes "is_ascii_lower c"
  shows "mask_word n [c] = ([c], [c])"
proof -
  note c = lower_not [OF assms]
  have "\<not> is_component_prefix [c] n"
    using c by (simp add: is_component_prefix_def strip_prefix_def)
  moreover have "split_trailing_punctuation [c] = ([c], [])"
    using c by (simp add: split_trailing_punctuation_def trim_end_matches_def)
  moreover have "split_kv [c] = None"
    using c by (simp add: split_kv_def)
  ultimately show ?thesis
    using classify_letter [OF assms] by (simp add: mask_word_def is_variable_def)
qed

lemma mask_words_letters:
  assumes "list_all is_ascii_lower cs" "tokens = [] \<or> \<not> is_placeholder (last tokens)"
  shows "mask_words n (map (\<lambda>c. [c]) cs) tokens raw = (tokens @ map (\<lambda>c. [c]) cs, raw @ map (\<lambda>c. [c]) cs)"
  using assms
proof (induction cs arbitrary: n tokens raw)
  case Nil
  show ?case by (simp add: mask_words.simps)
next
  case (Cons c cs)
  have "\<not> is_placeholder [c]" "paren_group (map (\<lambda>c. [c]) (c # cs)) = None"
    using Cons.prems(1) lower_not [of c] by (auto simp: is_placeholder_def paren_group_def starts_with_def)
  then show ?case
    using Cons by (auto simp: mask_words.simps [of n "[c] # map (\<lambda>c. [c]) cs"] mask_word_letter)
qed

lemma mask_line_letters:
  assumes "list_all is_ascii_lower cs" "split_whitespace line = map (\<lambda>c. [c]) cs"
  shows "mask_line line = (map (\<lambda>c. [c]) cs, map (\<lambda>c. [c]) cs)"
  using mask_words_letters [of cs "[]" 0 "[]"] assms by (simp add: mask_line_def)

lemmas mask_eval = is_ascii_lower_def split_whitespace_def split_ws_from.simps ws_len_def

lemma five_lines:
  "mask_line ''t t t t t t t t t x y z'' = (map (\<lambda>c. [c]) ''tttttttttxyz'', map (\<lambda>c. [c]) ''tttttttttxyz'')"
  "mask_line ''t t t t t t t t t a b c'' = (map (\<lambda>c. [c]) ''tttttttttabc'', map (\<lambda>c. [c]) ''tttttttttabc'')"
  "mask_line ''t t t t t t t t t x b c'' = (map (\<lambda>c. [c]) ''tttttttttxbc'', map (\<lambda>c. [c]) ''tttttttttxbc'')"
  "mask_line ''t t t t t t t t t a y c'' = (map (\<lambda>c. [c]) ''tttttttttayc'', map (\<lambda>c. [c]) ''tttttttttayc'')"
  "mask_line ''t t t t t t t t t a b z'' = (map (\<lambda>c. [c]) ''tttttttttabz'', map (\<lambda>c. [c]) ''tttttttttabz'')"
  by (rule mask_line_letters; simp add: mask_eval)+


text \<open>
  The state of a default miner that holds the two templates below, apart from counters and hashes.
\<close>

definition two_templates :: "drain \<Rightarrow> string list \<Rightarrow> string list \<Rightarrow> bool" where
  "two_templates d x y \<longleftrightarrow> drain_inv d \<and> d_config d = drain_config_default
     \<and> roots d = [(12, Node [(''t'', Node [(''t'', Node [] [1, 2])] [])] [])]
     \<and> (\<exists>a b. templates d = [(1, a), (2, b)] \<and> t_tokens a = x \<and> t_tokens b = y)"

text \<open>Where the second is at least as close to a line as the first, the line joins the second.\<close>

lemma second_wins:
  assumes "two_templates d x y" "mask_line line = (masked, raw)"
    and "leaf_templates d masked = [1, 2]" "masked \<noteq> []"
    and "similarity_threshold drain_config_default \<le> similarity y masked" "similarity x masked \<le> similarity y masked"
  shows "map_option m_template_id (fst (add_line d line now)) = Some 2"
    "two_templates (snd (add_line d line now)) x (snd (merge_into y masked))"
proof -
  let ?d = "d\<lparr>lines_seen := lines_seen d + 1\<rparr>"
  obtain a b where ts: "templates d = [(1, a), (2, b)]" "t_tokens a = x" "t_tokens b = y"
    using assms(1) by (auto simp: two_templates_def)
  have inv: "drain_inv ?d" "drain_inv (snd (add_line d line now))"
    using assms(1) drain_inv_add_line by (auto simp: two_templates_def)
  have "leaf_templates ?d masked = [1, 2]"
    using assms(3) leaf_templates_cong [of ?d d] by simp
  then have best: "last_max (scored ?d masked) = Some (2, similarity y masked)"
    using assms(1,5,6) ts by (simp add: two_templates_def scored_def List.map_filter_def last_max_def)
  have add: "add_line d line now = match_masked ?d masked raw now"
    by (simp add: add_line_def assms(2))
  show "map_option m_template_id (fst (add_line d line now)) = Some 2"
    unfolding add by (rule match_hit [OF inv(1) assms(4) best, of raw now]) simp
  show "two_templates (snd (add_line d line now)) x (snd (merge_into y masked))"
    using inv(2) assms(1) unfolding two_templates_def add
    by (rule_tac match_hit [OF inv(1) assms(4) best, of raw now]) (use ts in \<open>auto simp: joined_def\<close>)
qed

lemmas similarity_eval = similarity_def comparable_def merge_into_def WILDCARD_def is_placeholder_def
  f64_div_53 f64_div_self round_half_even_def drain_config_default_def

lemma two_minted:
  "two_templates (snd (add_line (snd (add_line (drain_new drain_config_default) ''t t t t t t t t t x y z'' 0))
      ''t t t t t t t t t a b c'' 1)) (map (\<lambda>c. [c]) ''tttttttttxyz'') (map (\<lambda>c. [c]) ''tttttttttabc'')"
proof -
  have "similarity (map (\<lambda>c. [c]) ''tttttttttxyz'') (map (\<lambda>c. [c]) ''tttttttttabc'') < f64_div 9 10"
    by (simp add: similarity_eval)
  then show ?thesis
    unfolding two_templates_def
    by (intro conjI drain_inv_add_line drain_inv_new)
      (simp_all add: add_line_def five_lines match_masked_def drain_new_def drain_config_default_def scored_def leaf_templates_def
        List.map_filter_def last_max_def insert_into_tree_def token_levels_def node_default_def tree_key_def
        is_placeholder_def WILDCARD_def note_shape_def Let_def)
qed

lemma leaf_two_templates:
  assumes "two_templates d x y" "length masked = 12" "take 2 masked = [''t'', ''t'']"
  shows "leaf_templates d masked = [1, 2]"
  using assms by (simp add: two_templates_def leaf_templates_def token_levels_def drain_config_default_def tree_key_def is_placeholder_def numeral_2_eq_2)

lemma widen_second:
  assumes "two_templates d x y" "mask_line line = (masked, masked)" "length masked = 12" "take 2 masked = [''t'', ''t'']"
    and "similarity_threshold drain_config_default \<le> similarity y masked" "similarity x masked \<le> similarity y masked"
    "snd (merge_into y masked) = z"
  shows "two_templates (snd (add_line d line now)) x z"
  using second_wins(2) [OF assms(1,2) leaf_two_templates [OF assms(1,3,4)] _ assms(5,6)] assms(3,7) by fastforce

lemma first_minted:
  "map_option m_template_id (fst (add_line (drain_new drain_config_default) ''t t t t t t t t t x y z'' 0)) = Some 1"
  by (simp add: add_line_def five_lines match_masked_def drain_new_def drain_config_default_def scored_def
      leaf_templates_def List.map_filter_def last_max_def note_shape_def insert_into_tree_def Let_def)



text \<open>
  C21. A line fed again at once joins the template it joined before, whatever the miner has seen: the
  same template, shape and parameters, and it is not reported as new.
\<close>

theorem repeated_line_is_stable:
  assumes "similarity_threshold c \<le> 1" "add_line (add_lines (drain_new c) ls) line now = (Some m, d)"
  shows "fst (add_line d line now') = Some (m\<lparr>m_is_new := False\<rparr>)"
proof -
  let ?d = "add_lines (drain_new c) ls"
  have "drain_inv (?d\<lparr>lines_seen := lines_seen ?d + 1\<rparr>)"
    using drain_inv_add_lines [OF drain_inv_new] by simp
  moreover have "similarity_threshold (d_config (?d\<lparr>lines_seen := lines_seen ?d + 1\<rparr>)) \<le> 1"
    using assms(1) by (simp add: d_config_add_lines)
  ultimately show ?thesis
    using assms(2) match_twice [of "?d\<lparr>lines_seen := lines_seen ?d + 1\<rparr>" "fst (mask_line line)" "snd (mask_line line)" now m d]
    by (simp add: add_line_def split_beta)
qed

theorem repeated_line_is_stable_witness:
  "\<exists>m. fst (add_line (drain_new drain_config_default) ''t t t t t t t t t x y z'' 0) = Some m \<and> m_template_id m = 1
    \<and> fst (add_line (snd (add_line (drain_new drain_config_default) ''t t t t t t t t t x y z'' 0))
        ''t t t t t t t t t x y z'' 7) = Some (m\<lparr>m_is_new := False\<rparr>)"
proof -
  obtain m d where m: "add_line (drain_new drain_config_default) ''t t t t t t t t t x y z'' 0 = (Some m, d)" "m_template_id m = 1"
    using first_minted by (cases "add_line (drain_new drain_config_default) ''t t t t t t t t t x y z'' 0") auto
  have "similarity_threshold drain_config_default \<le> 1"
    by (simp add: drain_config_default_def f64_div_le_1)
  with m repeated_line_is_stable [of drain_config_default "[]" "''t t t t t t t t t x y z''" 0 m d 7] show ?thesis
    by (simp add: add_lines_def)
qed

text \<open>
  The template of a line is not stable over time: with the default configuration a line mints
  template 1, four other lines widen template 2 until it covers the line too, and the same line then
  joins template 2, because the last of the equally close candidates wins.
\<close>

theorem template_of_a_line_drifts:
  "map_option m_template_id (fst (add_line (drain_new drain_config_default) ''t t t t t t t t t x y z'' 0)) = Some 1
   \<and> map_option m_template_id (fst (add_line (add_lines (drain_new drain_config_default)
        [(''t t t t t t t t t x y z'', 0), (''t t t t t t t t t a b c'', 1), (''t t t t t t t t t x b c'', 2),
         (''t t t t t t t t t a y c'', 3), (''t t t t t t t t t a b z'', 4)]) ''t t t t t t t t t x y z'' 5)) = Some 2"
proof -
  let ?x = "map (\<lambda>c. [c]) ''tttttttttxyz''" and ?t = "map (\<lambda>c. [c]) ''ttttttttt''"
  let ?d = "\<lambda>ls. add_lines (drain_new drain_config_default) ([(''t t t t t t t t t x y z'', 0), (''t t t t t t t t t a b c'', 1)] @ ls)"
  have "two_templates (?d []) ?x (map (\<lambda>c. [c]) ''tttttttttabc'')"
    using two_minted by (simp add: add_lines_def)
  then have "two_templates (?d [(''t t t t t t t t t x b c'', 2)]) ?x (?t @ [WILDCARD, ''b'', ''c''])"
    using widen_second [OF _ five_lines(3), of _ ?x _ "?t @ [WILDCARD, ''b'', ''c'']" 2]
    by (simp add: add_lines_def similarity_eval)
  then have "two_templates (?d [(''t t t t t t t t t x b c'', 2), (''t t t t t t t t t a y c'', 3)]) ?x
      (?t @ [WILDCARD, WILDCARD, ''c''])"
    using widen_second [OF _ five_lines(4), of _ ?x _ "?t @ [WILDCARD, WILDCARD, ''c'']" 3]
    by (simp add: add_lines_def similarity_eval)
  then have "two_templates (?d [(''t t t t t t t t t x b c'', 2), (''t t t t t t t t t a y c'', 3), (''t t t t t t t t t a b z'', 4)])
      ?x (?t @ [WILDCARD, WILDCARD, WILDCARD])"
    using widen_second [OF _ five_lines(5), of _ ?x _ "?t @ [WILDCARD, WILDCARD, WILDCARD]" 4]
    by (simp add: add_lines_def similarity_eval)
  then have "map_option m_template_id (fst (add_line (?d [(''t t t t t t t t t x b c'', 2), (''t t t t t t t t t a y c'', 3),
      (''t t t t t t t t t a b z'', 4)]) ''t t t t t t t t t x y z'' 5)) = Some 2"
    using second_wins(1) [OF _ five_lines(1) leaf_two_templates, of _ ?x "?t @ [WILDCARD, WILDCARD, WILDCARD]" _ _ 5]
    by (simp add: similarity_eval)
  then show ?thesis using first_minted by simp
qed

end
