(* ===== verification/Ring.thy ===== *)
theory Ring
  imports Model "HOL-Library.AList"
begin

text \<open>
  Context for errors (\<^verbatim>\<open>ring.rs\<close>): a sharded in-memory buffer of recent lines by correlation key, and
  the three limits on the windows cut from it. The standard library's \<^verbatim>\<open>DefaultHasher\<close> promises no
  particular function, so the hash of a key and the hash of a flow are arguments \<open>kh\<close> and \<open>fh\<close>.
  Hash maps are association lists, durations are nanoseconds, and counters are unbounded.
\<close>

section \<open>Correlation keys\<close>

datatype key_tier = Trace | Request | Thread | Service

fun key_tier_as_str :: "key_tier \<Rightarrow> string" where
  "key_tier_as_str Trace = ''trace''"
| "key_tier_as_str Request = ''request''"
| "key_tier_as_str Thread = ''thread''"
| "key_tier_as_str Service = ''service''"

record correlation_key =
  tier :: key_tier
  key_value :: string

definition hex16 :: "bytes \<Rightarrow> string" where
  "hex16 bs = concat (map (\<lambda>b. [hex_digit (unat b div 16), hex_digit (unat b mod 16)]) bs)"

definition show_i64 :: "int \<Rightarrow> string" where
  "show_i64 i = (if i < 0 then ''-'' @ show_nat (nat (- i)) else show_nat (nat i))"

text \<open>\<^verbatim>\<open>find_map\<close>: the first attribute of that name with a string or an integer value.\<close>

fun find_attr :: "string \<Rightarrow> attr list \<Rightarrow> string option" where
  "find_attr name [] = None"
| "find_attr name (a # as) =
     (if attr_key a = name then
        (case attr_val a of Str s \<Rightarrow> Some s | I64 i \<Rightarrow> Some (show_i64 i) | _ \<Rightarrow> find_attr name as)
      else find_attr name as)"

fun first_attr :: "string list \<Rightarrow> attr list \<Rightarrow> string option" where
  "first_attr [] as = None"
| "first_attr (n # ns) as = (case find_attr n as of Some v \<Rightarrow> Some v | None \<Rightarrow> first_attr ns as)"

definition unwrap_or_default :: "string option \<Rightarrow> string" where
  "unwrap_or_default x = (case x of Some s \<Rightarrow> s | None \<Rightarrow> [])"

definition correlation_key_of :: "log_record \<Rightarrow> correlation_key" where
  "correlation_key_of r = (case trace_id r of
     Some trace \<Rightarrow> \<lparr>tier = Trace, key_value = hex16 trace\<rparr>
   | None \<Rightarrow>
       (let svc = unwrap_or_default (service r) in
        case first_attr [''request_id'', ''req_id'', ''session_id'', ''correlation_id''] (attributes r) of
          Some v \<Rightarrow> \<lparr>tier = Request, key_value = svc @ ''/'' @ v\<rparr>
        | None \<Rightarrow>
            (let host = unwrap_or_default (find_attr ''host'' (attributes r)) in
             case (find_attr ''pid'' (attributes r), find_attr ''thread'' (attributes r)) of
               (Some pid, Some thread) \<Rightarrow> \<lparr>tier = Thread, key_value = host @ ''/'' @ pid @ ''/'' @ thread\<rparr>
             | _ \<Rightarrow> \<lparr>tier = Service, key_value = host @ ''/'' @ svc\<rparr>)))"

section \<open>Configuration and state\<close>

record ring_config =
  shards_n :: nat
  max_bytes :: nat
  max_lines_per_key :: nat
  context_age :: nat
  max_context_lines :: nat
  windows_per_minute :: nat
  max_windows_per_minute :: nat
  dedupe_window :: nat

definition ring_config_default :: ring_config where
  "ring_config_default = \<lparr>shards_n = 16, max_bytes = 64 * 1024 * 1024, max_lines_per_key = 2000,
     context_age = 30 * 10 ^ 9, max_context_lines = 200, windows_per_minute = 3,
     max_windows_per_minute = 30, dedupe_window = 60 * 10 ^ 9\<rparr>"

record context_line =
  cl_timestamp :: nat
  cl_severity :: severity
  cl_template :: "u64 option"
  cl_body :: string

record context_window =
  w_error :: context_line
  w_context :: "context_line list"
  w_key_tier :: key_tier
  w_flow_hash :: u64
  w_error_template_id :: "u64 option"
  w_error_template_fingerprint :: "u64 option"
  w_service :: "string option"
  w_suppressed :: nat

datatype suppressed = DuplicateFlow | RateLimited | NoContext

datatype capture_result = Window context_window | ContextSuppressed suppressed "u64 option"

record ring_stats =
  lines_buffered :: nat
  lines_evicted :: nat
  windows_emitted :: nat
  windows_deduped :: nat
  windows_rate_limited :: nat
  stat_bytes_held :: nat

text \<open>An \<^verbatim>\<open>Entry\<close> has the fields of a \<^verbatim>\<open>ContextLine\<close>.\<close>

type_synonym entry = context_line

definition entry_bytes :: "entry \<Rightarrow> nat" where
  "entry_bytes e = length (cl_body e) + 96"

record shard =
  s_keys :: "(correlation_key \<times> entry list) list"
  s_order :: "correlation_key list"
  s_bytes :: nat

definition shard_default :: shard where
  "shard_default = \<lparr>s_keys = [], s_order = [], s_bytes = 0\<rparr>"

record ring =
  r_config :: ring_config
  r_shards :: "shard list"
  budgets :: "((string \<times> u64) \<times> (nat \<times> nat)) list"
  global_budget :: "nat \<times> nat"
  recent_flows :: "(u64 \<times> (nat \<times> nat)) list"
  r_stats :: ring_stats

definition ring_stats_default :: ring_stats where
  "ring_stats_default = \<lparr>lines_buffered = 0, lines_evicted = 0, windows_emitted = 0, windows_deduped = 0,
     windows_rate_limited = 0, stat_bytes_held = 0\<rparr>"

definition ring_new :: "ring_config \<Rightarrow> ring" where
  "ring_new c = \<lparr>r_config = c, r_shards = replicate (max (shards_n c) 1) shard_default, budgets = [],
     global_budget = (0, 0), recent_flows = [], r_stats = ring_stats_default\<rparr>"

definition shard_for :: "(correlation_key \<Rightarrow> nat) \<Rightarrow> ring \<Rightarrow> correlation_key \<Rightarrow> nat" where
  "shard_for kh r k = kh k mod length (r_shards r)"

definition shard_budget :: "ring \<Rightarrow> nat" where
  "shard_budget r = max_bytes (r_config r) div max (length (r_shards r)) 1"

section \<open>Observing\<close>

definition entry_of :: "log_record \<Rightarrow> entry" where
  "entry_of r = \<lparr>cl_timestamp = observed_unix_nano r, cl_severity = severity_of r,
     cl_template = template_id r, cl_body = body r\<rparr>"

text \<open>The loop that pops the front of one key's queue; the second component counts evictions.\<close>

fun trim_queue :: "nat \<Rightarrow> entry list \<Rightarrow> nat \<Rightarrow> nat \<Rightarrow> entry list \<times> nat \<times> nat" where
  "trim_queue max_lines [] bytes evicted = ([], bytes, evicted)"
| "trim_queue max_lines (old # queue) bytes evicted =
     (if max_lines < length (old # queue) then trim_queue max_lines queue (bytes - entry_bytes old) (evicted + 1)
      else (old # queue, bytes, evicted))"

text \<open>The loop that drops whole keys, oldest first.\<close>

fun evict_keys :: "nat \<Rightarrow> (correlation_key \<times> entry list) list \<Rightarrow> correlation_key list \<Rightarrow> nat \<Rightarrow> nat \<Rightarrow> shard \<times> nat" where
  "evict_keys budget keys [] bytes evicted = (\<lparr>s_keys = keys, s_order = [], s_bytes = bytes\<rparr>, evicted)"
| "evict_keys budget keys (oldest # order) bytes evicted =
     (if budget < bytes then
        (case map_of keys oldest of
           Some queue \<Rightarrow> evict_keys budget (AList.delete oldest keys) order
             (foldl (\<lambda>b e. b - entry_bytes e) bytes queue) (evicted + length queue)
         | None \<Rightarrow> evict_keys budget keys order bytes evicted)
      else (\<lparr>s_keys = keys, s_order = oldest # order, s_bytes = bytes\<rparr>, evicted))"

definition observe_shard :: "nat \<Rightarrow> nat \<Rightarrow> correlation_key \<Rightarrow> entry \<Rightarrow> shard \<Rightarrow> shard \<times> nat" where
  "observe_shard budget max_lines key e s = (
     let order = (case map_of (s_keys s) key of Some _ \<Rightarrow> s_order s | None \<Rightarrow> s_order s @ [key]);
         queue0 = (case map_of (s_keys s) key of Some q \<Rightarrow> q | None \<Rightarrow> []);
         (queue, bytes, evicted) = trim_queue max_lines (queue0 @ [e]) (s_bytes s + entry_bytes e) 0
     in evict_keys budget (AList.update key queue (s_keys s)) order bytes evicted)"

definition ring_bytes_held :: "ring \<Rightarrow> nat" where
  "ring_bytes_held r = sum_list (map s_bytes (r_shards r))"

definition keys_held :: "ring \<Rightarrow> nat" where
  "keys_held r = sum_list (map (\<lambda>s. length (s_keys s)) (r_shards r))"

definition observe :: "(correlation_key \<Rightarrow> nat) \<Rightarrow> ring \<Rightarrow> log_record \<Rightarrow> ring" where
  "observe kh r rec = (
     let key = correlation_key_of rec;
         idx = shard_for kh r key;
         (s, evicted) = observe_shard (shard_budget r) (max_lines_per_key (r_config r)) key (entry_of rec) (r_shards r ! idx);
         r1 = r\<lparr>r_shards := (r_shards r)[idx := s]\<rparr>
     in r1\<lparr>r_stats := (r_stats r)\<lparr>lines_buffered := lines_buffered (r_stats r) + 1,
            lines_evicted := lines_evicted (r_stats r) + evicted, stat_bytes_held := ring_bytes_held r1\<rparr>\<rparr>)"

section \<open>Capturing\<close>

definition flow_hash :: "(u64 option list \<times> u64 option \<Rightarrow> u64) \<Rightarrow> context_line list \<Rightarrow> u64 option \<Rightarrow> u64" where
  "flow_hash fh context error_template = fh (map cl_template context, error_template)"

definition prune_flows :: "ring \<Rightarrow> nat \<Rightarrow> (u64 \<times> (nat \<times> nat)) list" where
  "prune_flows r now = (
     if length (recent_flows r) < 10000 then recent_flows r
     else (let kept = filter (\<lambda>(_, (at, _)). now - at < as_u64 (dedupe_window (r_config r))) (recent_flows r)
           in if 10000 \<le> length kept then [] else kept))"

definition MINUTE :: nat where "MINUTE = 60 * 10 ^ 9"

text \<open>Context lines: the queue without what is too old and without the error itself, and of these the
  last \<open>max_context_lines\<close>.\<close>

definition context_of :: "ring_config \<Rightarrow> entry list \<Rightarrow> log_record \<Rightarrow> context_line list" where
  "context_of c queue error = (
     let cutoff = observed_unix_nano error - as_u64 (context_age c)
     in rev (take (max_context_lines c) (rev (filter (\<lambda>e. cl_body e \<noteq> body error \<or> cl_timestamp e \<noteq> observed_unix_nano error)
          (filter (\<lambda>e. cutoff \<le> cl_timestamp e) queue)))))"

definition window_of :: "log_record \<Rightarrow> context_line list \<Rightarrow> u64 \<Rightarrow> nat \<Rightarrow> context_window" where
  "window_of error context h suppressed_since =
     \<lparr>w_error = entry_of error, w_context = context, w_key_tier = tier (correlation_key_of error), w_flow_hash = h,
      w_error_template_id = template_id error, w_error_template_fingerprint = None, w_service = service error,
      w_suppressed = suppressed_since\<rparr>"

text \<open>The part of \<^verbatim>\<open>capture\<close> after the flow check: the two fixed windows of a minute.\<close>

definition budget_key :: "log_record \<Rightarrow> string \<times> u64" where
  "budget_key error = (unwrap_or_default (service error), case template_id error of Some t \<Rightarrow> t | None \<Rightarrow> 0)"

definition current_window :: "nat \<Rightarrow> nat \<times> nat \<Rightarrow> nat \<times> nat" where
  "current_window now b = (if MINUTE \<le> now - fst b then (now, 0) else b)"

definition limit_window :: "ring \<Rightarrow> log_record \<Rightarrow> context_line list \<Rightarrow> u64 \<Rightarrow> nat \<Rightarrow> capture_result \<times> ring" where
  "limit_window r error context h suppressed_since = (
     let now = observed_unix_nano error;
         st = r_stats r;
         global = current_window now (global_budget r);
         r1 = r\<lparr>global_budget := global\<rparr>;
         limited = st\<lparr>windows_rate_limited := windows_rate_limited st + 1\<rparr>
     in if max_windows_per_minute (r_config r) \<le> snd global
        then (ContextSuppressed RateLimited (Some h), r1\<lparr>r_stats := limited\<rparr>)
        else (
          let key = budget_key error;
              b = current_window now (case map_of (budgets r) key of Some b \<Rightarrow> b | None \<Rightarrow> (now, 0))
          in if windows_per_minute (r_config r) \<le> snd b
             then (ContextSuppressed RateLimited (Some h), r1\<lparr>budgets := AList.update key b (budgets r), r_stats := limited\<rparr>)
             else (Window (window_of error context h suppressed_since),
               r1\<lparr>budgets := AList.update key (fst b, snd b + 1) (budgets r), global_budget := (fst global, snd global + 1),
                  r_stats := st\<lparr>windows_emitted := windows_emitted st + 1\<rparr>\<rparr>)))"

definition capture :: "(correlation_key \<Rightarrow> nat) \<Rightarrow> (u64 option list \<times> u64 option \<Rightarrow> u64) \<Rightarrow> ring \<Rightarrow> log_record
    \<Rightarrow> capture_result \<times> ring" where
  "capture kh fh r error = (
     let key = correlation_key_of error; idx = shard_for kh r key in
     case map_of (s_keys (r_shards r ! idx)) key of
       None \<Rightarrow> (ContextSuppressed NoContext None, r)
     | Some queue \<Rightarrow>
         (let context = context_of (r_config r) queue error in
          if context = [] then (ContextSuppressed NoContext None, r)
          else (
            let h = flow_hash fh context (template_id error); now = observed_unix_nano error; st = r_stats r in
            case map_of (recent_flows r) h of
              Some (at, count) \<Rightarrow>
                if now - at < as_u64 (dedupe_window (r_config r))
                then (ContextSuppressed DuplicateFlow (Some h),
                      r\<lparr>recent_flows := AList.update h (at, count + 1) (recent_flows r),
                        r_stats := st\<lparr>windows_deduped := windows_deduped st + 1\<rparr>\<rparr>)
                else limit_window (r\<lparr>recent_flows := AList.update h (now, 0) (recent_flows r)\<rparr>) error context h count
            | None \<Rightarrow> limit_window (r\<lparr>recent_flows := AList.update h (now, 0) (prune_flows r now)\<rparr>) error context h 0)))"

section \<open>Runs\<close>

datatype ring_op = Observe log_record | Capture log_record

fun op_record :: "ring_op \<Rightarrow> log_record" where
  "op_record (Observe x) = x"
| "op_record (Capture x) = x"

definition op_time :: "ring_op \<Rightarrow> nat" where
  "op_time op = observed_unix_nano (op_record op)"

fun ring_step :: "(correlation_key \<Rightarrow> nat) \<Rightarrow> (u64 option list \<times> u64 option \<Rightarrow> u64) \<Rightarrow> ring \<Rightarrow> ring_op \<Rightarrow> ring" where
  "ring_step kh fh r (Observe x) = observe kh r x"
| "ring_step kh fh r (Capture x) = snd (capture kh fh r x)"

definition ring_run :: "(correlation_key \<Rightarrow> nat) \<Rightarrow> (u64 option list \<times> u64 option \<Rightarrow> u64) \<Rightarrow> ring_config \<Rightarrow> ring_op list \<Rightarrow> ring" where
  "ring_run kh fh c ops = foldl (ring_step kh fh) (ring_new c) ops"

definition observed_records :: "ring_op list \<Rightarrow> log_record list" where
  "observed_records ops = List.map_filter (\<lambda>op. case op of Observe x \<Rightarrow> Some x | Capture _ \<Rightarrow> None) ops"

section \<open>The buffer\<close>

definition entries_bytes :: "entry list \<Rightarrow> nat" where
  "entries_bytes es = sum_list (map entry_bytes es)"

definition buffered :: "(correlation_key \<times> entry list) list \<Rightarrow> entry list" where
  "buffered keys = concat (map snd keys)"

lemma entries_bytes_simps [simp]:
  "entries_bytes [] = 0" "entries_bytes (e # es) = entry_bytes e + entries_bytes es"
  "entries_bytes (es @ fs) = entries_bytes es + entries_bytes fs"
  by (simp_all add: entries_bytes_def)

lemma foldl_minus_bytes: "foldl (\<lambda>b e. b - entry_bytes e) b es = b - entries_bytes es"
  by (induction es arbitrary: b) auto

lemma trim_queue_spec:
  "trim_queue m q b ev = (drop (length q - m) q, b - entries_bytes (take (length q - m) q), ev + (length q - m))"
proof (induction m q b ev rule: trim_queue.induct)
  case (2 m e q b ev)
  then show ?case by (cases "length q < m") (auto simp: Suc_diff_le not_less)
qed simp

text \<open>What the rest of the buffer holds besides one key.\<close>

definition others :: "correlation_key \<Rightarrow> (correlation_key \<times> entry list) list \<Rightarrow> entry list" where
  "others k keys = buffered (AList.delete k keys)"

definition queue_of :: "(correlation_key \<times> entry list) list \<Rightarrow> correlation_key \<Rightarrow> entry list" where
  "queue_of keys k = (case map_of keys k of Some q \<Rightarrow> q | None \<Rightarrow> [])"

lemma buffered_split:
  assumes "distinct (map fst keys)"
  shows "entries_bytes (buffered keys) = entries_bytes (queue_of keys k) + entries_bytes (others k keys)
    \<and> length (buffered keys) = length (queue_of keys k) + length (others k keys)"
  using assms
proof (induction keys)
  case (Cons x keys)
  have "AList.delete k keys = keys \<and> map_of keys k = None" if "fst x = k"
    using that Cons.prems by (simp add: map_of_eq_None_iff delete_id)
  with Cons.IH Cons.prems show ?case
    by (cases x; cases "fst x = k") (simp_all add: buffered_def others_def queue_of_def)
qed (simp add: buffered_def others_def queue_of_def)

lemma others_update [simp]: "others k (AList.update k q keys) = others k keys"
  by (simp add: others_def delete_update_same)

lemma dom_delete: "fst ` set (AList.delete k keys) = fst ` set keys - {k}"
  by (auto simp: AList.delete_eq image_iff)

lemma queue_of_update: "queue_of (AList.update k q keys) k' = (if k' = k then q else queue_of keys k')"
  by (simp add: queue_of_def update_conv')

lemma queue_of_delete: "queue_of (AList.delete k keys) k' = (if k' = k then [] else queue_of keys k')"
  by (simp add: queue_of_def delete_conv')

definition shard_inv :: "nat \<Rightarrow> nat \<Rightarrow> shard \<Rightarrow> bool" where
  "shard_inv budget max_lines s \<longleftrightarrow> distinct (map fst (s_keys s)) \<and> distinct (s_order s)
     \<and> set (s_order s) = fst ` set (s_keys s) \<and> s_bytes s = entries_bytes (buffered (s_keys s))
     \<and> (\<forall>k. length (queue_of (s_keys s) k) \<le> max_lines) \<and> s_bytes s \<le> budget"

lemma evict_keys_inv:
  assumes "evict_keys budget keys order bytes ev = (s, ev')"
    and "distinct (map fst keys)" "distinct order" "set order = fst ` set keys" "bytes = entries_bytes (buffered keys)"
    and "\<forall>k. length (queue_of keys k) \<le> m"
  shows "shard_inv budget m s \<and> ev' + length (buffered (s_keys s)) = ev + length (buffered keys)
    \<and> (\<forall>k. queue_of (s_keys s) k = queue_of keys k \<or> queue_of (s_keys s) k = [] \<and> ev < ev') \<and> ev \<le> ev'"
  using assms
proof (induction budget keys order bytes ev rule: evict_keys.induct)
  case (1 budget keys bytes ev)
  then show ?case by (auto simp: shard_inv_def buffered_def)
next
  case (2 budget keys k order bytes ev)
  show ?case
  proof (cases "budget < bytes")
    case False
    then have "s = \<lparr>s_keys = keys, s_order = k # order, s_bytes = bytes\<rparr>" "ev' = ev"
      using "2.prems"(1) by simp_all
    then show ?thesis
      using "2.prems"(2-6) False unfolding shard_inv_def by simp
  next
    case True
    have "k \<in> fst ` set keys"
      using "2.prems"(4) by auto
    then obtain q where q: "map_of keys k = Some q"
      by (metis map_of_eq_None_iff not_None_eq)
    let ?keys = "AList.delete k keys"
    have split: "entries_bytes (buffered keys) = entries_bytes q + entries_bytes (buffered ?keys)"
      "length (buffered keys) = length q + length (buffered ?keys)" "queue_of keys k = q"
      using buffered_split [OF "2.prems"(2), of k] q by (simp_all add: queue_of_def others_def)
    have ev: "evict_keys budget ?keys order (foldl (\<lambda>b e. b - entry_bytes e) bytes q) (ev + length q) = (s, ev')"
      using "2.prems"(1) True q by simp
    have prems: "distinct (map fst ?keys)" "distinct order" "set order = fst ` set ?keys"
      "foldl (\<lambda>b e. b - entry_bytes e) bytes q = entries_bytes (buffered ?keys)"
      "\<forall>k. length (queue_of ?keys k) \<le> m"
      using "2.prems" split by (auto simp: distinct_delete dom_delete foldl_minus_bytes queue_of_delete)
    note ih = "2.IH"(2) [OF True q ev prems]
    have "queue_of (s_keys s) k' = queue_of keys k' \<or> queue_of (s_keys s) k' = [] \<and> ev < ev'" for k'
    proof (cases "k' = k")
      case True
      then have "queue_of (s_keys s) k' = []" using ih queue_of_delete [of k keys k'] by metis
      then show ?thesis using ih split(3) True by (cases "q = []") (auto simp: neq_Nil_conv)
    next
      case False
      then have "queue_of ?keys k' = queue_of keys k'" by (simp add: queue_of_delete)
      then show ?thesis using ih by (metis le_add1 le_less_trans)
    qed
    then show ?thesis using ih split(2) by simp
  qed
qed

lemma observe_shard_inv:
  assumes inv: "shard_inv budget m s" and "observe_shard budget m k e s = (s', ev)"
  shows "shard_inv budget m s'"
    "ev + length (buffered (s_keys s')) = Suc (length (buffered (s_keys s)))"
    "suffix (queue_of (s_keys s') k') (queue_of (s_keys s) k' @ (if k' = k then [e] else []))"
    "ev = 0 \<Longrightarrow> queue_of (s_keys s') k' = queue_of (s_keys s) k' @ (if k' = k then [e] else [])"
proof -
  define q where "q = queue_of (s_keys s) k @ [e]"
  define n where "n = length q - m"
  let ?keys = "AList.update k (drop n q) (s_keys s)"
  let ?order = "case map_of (s_keys s) k of Some _ \<Rightarrow> s_order s | None \<Rightarrow> s_order s @ [k]"
  have run: "evict_keys budget ?keys ?order (s_bytes s + entry_bytes e - entries_bytes (take n q)) n = (s', ev)"
    using assms(2) by (simp add: observe_shard_def trim_queue_spec queue_of_def Let_def q_def n_def)
  have split: "entries_bytes (buffered (s_keys s)) = entries_bytes (queue_of (s_keys s) k) + entries_bytes (others k (s_keys s))"
    "length (buffered (s_keys s)) = length (queue_of (s_keys s) k) + length (others k (s_keys s))"
    "entries_bytes (buffered ?keys) = entries_bytes (drop n q) + entries_bytes (others k (s_keys s))"
    "length (buffered ?keys) = length (drop n q) + length (others k (s_keys s))"
    using buffered_split [of "s_keys s" k] buffered_split [of ?keys k] inv
    by (simp_all add: shard_inv_def queue_of_update distinct_update)
  have "entries_bytes q = entries_bytes (take n q) + entries_bytes (drop n q)"
    by (metis append_take_drop_id entries_bytes_simps(3))
  moreover have "entries_bytes q = entries_bytes (queue_of (s_keys s) k) + entry_bytes e"
    by (simp add: q_def)
  ultimately have bytes: "s_bytes s + entry_bytes e - entries_bytes (take n q) = entries_bytes (buffered ?keys)"
    using inv split(1,3) by (simp add: shard_inv_def)
  have order: "distinct ?order" "set ?order = fst ` set ?keys"
    using inv weak_map_of_SomeI
    by (auto simp: shard_inv_def dom_update map_of_eq_None_iff split: option.split dest: map_of_SomeD intro: rev_image_eqI)
  have lens: "\<forall>k'. length (queue_of ?keys k') \<le> m"
    using inv by (simp add: shard_inv_def queue_of_update n_def)
  have keys: "distinct (map fst ?keys)"
    using inv by (simp add: shard_inv_def distinct_update)
  note res = evict_keys_inv [OF run keys order bytes lens]
  show "shard_inv budget m s'" using res by blast
  show "ev + length (buffered (s_keys s')) = Suc (length (buffered (s_keys s)))"
  proof -
    have "length q = Suc (length (queue_of (s_keys s) k))" "n + length (drop n q) = length q"
      by (simp add: q_def) (simp add: n_def)
    then show ?thesis using res split(2,4) by linarith
  qed
  have "suffix (queue_of ?keys k') (queue_of (s_keys s) k' @ (if k' = k then [e] else []))"
    by (auto simp: queue_of_update suffix_drop q_def [symmetric])
  then show "suffix (queue_of (s_keys s') k') (queue_of (s_keys s) k' @ (if k' = k then [e] else []))"
    using res by (metis suffix_bot.extremum suffix_order.trans)
  show "queue_of (s_keys s') k' = queue_of (s_keys s) k' @ (if k' = k then [e] else [])" if "ev = 0"
  proof -
    have "n = 0" using res that by linarith
    then have "queue_of ?keys k' = queue_of (s_keys s) k' @ (if k' = k then [e] else [])"
      by (simp add: queue_of_update q_def)
    then show ?thesis using res that by auto
  qed
qed

section \<open>The ring\<close>

definition ring_shape :: "ring_config \<Rightarrow> ring \<Rightarrow> bool" where
  "ring_shape c r \<longleftrightarrow> r_config r = c \<and> length (r_shards r) = max (shards_n c) 1"

definition ring_inv :: "ring \<Rightarrow> bool" where
  "ring_inv r \<longleftrightarrow> r_shards r \<noteq> []
     \<and> list_all (shard_inv (shard_budget r) (max_lines_per_key (r_config r))) (r_shards r)
     \<and> lines_buffered (r_stats r) = lines_evicted (r_stats r) + sum_list (map (\<lambda>s. length (buffered (s_keys s))) (r_shards r))
     \<and> stat_bytes_held (r_stats r) = ring_bytes_held r"

definition ring_queue :: "(correlation_key \<Rightarrow> nat) \<Rightarrow> ring \<Rightarrow> correlation_key \<Rightarrow> entry list" where
  "ring_queue kh r k = queue_of (s_keys (r_shards r ! shard_for kh r k)) k"

lemma shard_for_less: "r_shards r \<noteq> [] \<Longrightarrow> shard_for kh r k < length (r_shards r)"
  by (simp add: shard_for_def)

lemma sum_list_update_nat:
  "i < length xs \<Longrightarrow> sum_list (map f (xs[i := x])) + f (xs ! i) = sum_list (map f xs) + (f x :: nat)"
  by (induction xs arbitrary: i) (auto simp: nth_Cons split: nat.splits)

lemma ring_inv_new: "ring_inv (ring_new c)"
  by (simp add: ring_inv_def ring_new_def ring_bytes_held_def ring_stats_default_def shard_default_def shard_inv_def
      shard_budget_def buffered_def queue_of_def list_all_iff)

lemma observe_facts:
  assumes inv: "ring_inv r"
  shows "ring_inv (observe kh r x)"
    "r_config (observe kh r x) = r_config r" "length (r_shards (observe kh r x)) = length (r_shards r)"
    "suffix (ring_queue kh (observe kh r x) k) (ring_queue kh r k @ (if correlation_key_of x = k then [entry_of x] else []))"
    "lines_evicted (r_stats (observe kh r x)) = lines_evicted (r_stats r) \<Longrightarrow>
       ring_queue kh (observe kh r x) k = ring_queue kh r k @ (if correlation_key_of x = k then [entry_of x] else [])"
    "lines_evicted (r_stats r) \<le> lines_evicted (r_stats (observe kh r x))"
proof -
  let ?key = "correlation_key_of x" and ?b = "shard_budget r" and ?m = "max_lines_per_key (r_config r)"
  let ?i = "shard_for kh r ?key"
  obtain s ev where s: "observe_shard ?b ?m ?key (entry_of x) (r_shards r ! ?i) = (s, ev)"
    by (cases "observe_shard ?b ?m ?key (entry_of x) (r_shards r ! ?i)")
  have i: "?i < length (r_shards r)"
    using inv by (simp add: ring_inv_def shard_for_less)
  then have si: "shard_inv ?b ?m (r_shards r ! ?i)"
    using inv by (simp add: ring_inv_def list_all_length)
  note sh = observe_shard_inv [OF si s]
  have obs: "r_shards (observe kh r x) = (r_shards r)[?i := s]" "r_config (observe kh r x) = r_config r"
    "lines_evicted (r_stats (observe kh r x)) = lines_evicted (r_stats r) + ev"
    "lines_buffered (r_stats (observe kh r x)) = Suc (lines_buffered (r_stats r))"
    "stat_bytes_held (r_stats (observe kh r x)) = ring_bytes_held (observe kh r x)"
    by (simp_all add: observe_def s Let_def ring_bytes_held_def)
  have budget: "shard_budget (observe kh r x) = ?b"
    by (simp add: shard_budget_def obs)
  have "list_all (shard_inv ?b ?m) ((r_shards r)[?i := s])"
    using inv sh(1) i by (auto simp: ring_inv_def list_all_length nth_list_update)
  moreover have "Suc (lines_buffered (r_stats r)) = lines_evicted (r_stats r) + ev
      + sum_list (map (\<lambda>s. length (buffered (s_keys s))) ((r_shards r)[?i := s]))"
    using inv sh(2) sum_list_update_nat [OF i, of "\<lambda>s. length (buffered (s_keys s))" s] by (simp add: ring_inv_def)
  ultimately show "ring_inv (observe kh r x)"
    using inv by (simp add: ring_inv_def obs budget)
  show "r_config (observe kh r x) = r_config r" "length (r_shards (observe kh r x)) = length (r_shards r)"
    "lines_evicted (r_stats r) \<le> lines_evicted (r_stats (observe kh r x))"
    by (simp_all add: obs)
  have q: "ring_queue kh (observe kh r x) k = (if shard_for kh r k = ?i then queue_of (s_keys s) k else ring_queue kh r k)"
    using i by (auto simp: ring_queue_def shard_for_def obs(1) nth_list_update)
  have old: "ring_queue kh r k = queue_of (s_keys (r_shards r ! ?i)) k" if "shard_for kh r k = ?i"
    using that by (simp add: ring_queue_def)
  show "suffix (ring_queue kh (observe kh r x) k) (ring_queue kh r k @ (if ?key = k then [entry_of x] else []))"
  proof (cases "shard_for kh r k = ?i")
    case True
    then show ?thesis
      using sh(3) [of k] unfolding q old [OF True] by (cases "k = ?key") simp_all
  next
    case False
    then have "k \<noteq> ?key" by metis
    then show ?thesis using False unfolding q by simp
  qed
  show "ring_queue kh (observe kh r x) k = ring_queue kh r k @ (if ?key = k then [entry_of x] else [])"
    if "lines_evicted (r_stats (observe kh r x)) = lines_evicted (r_stats r)"
  proof -
    have "ev = 0" using that obs(3) by simp
    show ?thesis
    proof (cases "shard_for kh r k = ?i")
      case True
      then show ?thesis
        using sh(4) [OF \<open>ev = 0\<close>, of k] unfolding q old [OF True] by (cases "k = ?key") simp_all
    next
      case False
      then have "k \<noteq> ?key" by metis
      then show ?thesis using False unfolding q by simp
    qed
  qed
qed

lemma capture_facts:
  "r_config (snd (capture kh fh r x)) = r_config r" "r_shards (snd (capture kh fh r x)) = r_shards r"
  "lines_evicted (r_stats (snd (capture kh fh r x))) = lines_evicted (r_stats r)"
  "lines_buffered (r_stats (snd (capture kh fh r x))) = lines_buffered (r_stats r)"
  "stat_bytes_held (r_stats (snd (capture kh fh r x))) = stat_bytes_held (r_stats r)"
  by (simp_all add: capture_def limit_window_def Let_def split: option.split prod.split)

lemma ring_inv_capture: "ring_inv r \<Longrightarrow> ring_inv (snd (capture kh fh r x))"
  by (simp add: ring_inv_def capture_facts shard_budget_def ring_bytes_held_def)

lemma ring_queue_capture: "ring_queue kh (snd (capture kh fh r x)) k = ring_queue kh r k"
  by (simp add: ring_queue_def shard_for_def capture_facts)

lemma limit_window_Window: "fst (limit_window r x ctx h n) = Window w \<Longrightarrow> w = window_of x ctx h n"
  by (auto simp: limit_window_def Let_def split: if_splits)

lemma capture_Window:
  assumes "fst (capture kh fh r x) = Window w"
  shows "\<exists>n. w = window_of x (context_of (r_config r) (ring_queue kh r (correlation_key_of x)) x)
        (flow_hash fh (context_of (r_config r) (ring_queue kh r (correlation_key_of x)) x) (template_id x)) n
    \<and> context_of (r_config r) (ring_queue kh r (correlation_key_of x)) x \<noteq> []"
proof (cases "map_of (s_keys (r_shards r ! shard_for kh r (correlation_key_of x))) (correlation_key_of x)")
  case None
  then show ?thesis using assms by (simp add: capture_def)
next
  case (Some queue)
  then have "ring_queue kh r (correlation_key_of x) = queue"
    by (simp add: ring_queue_def queue_of_def)
  then show ?thesis
    using assms Some
    by (auto simp: capture_def Let_def split: option.splits if_splits) (blast dest: limit_window_Window)+
qed

lemma ring_run_snoc: "ring_run kh fh c (ops @ [op]) = ring_step kh fh (ring_run kh fh c ops) op"
  by (simp add: ring_run_def)

lemma observed_snoc: "observed_records (ops @ [op]) = observed_records ops @ (case op of Observe x \<Rightarrow> [x] | Capture _ \<Rightarrow> [])"
  by (simp add: observed_records_def List.map_filter_def split: ring_op.split)

abbreviation same_key :: "correlation_key \<Rightarrow> ring_op list \<Rightarrow> log_record list" where
  "same_key k ops \<equiv> filter (\<lambda>x. correlation_key_of x = k) (observed_records ops)"

lemma ring_run_inv:
  "ring_inv (ring_run kh fh c ops) \<and> r_config (ring_run kh fh c ops) = c
   \<and> length (r_shards (ring_run kh fh c ops)) = max (shards_n c) 1
   \<and> lines_buffered (r_stats (ring_run kh fh c ops)) = length (observed_records ops)"
proof (induction ops rule: rev_induct)
  case Nil
  show ?case
    using ring_inv_new [of c] by (simp add: ring_run_def ring_new_def observed_records_def ring_stats_default_def)
next
  case (snoc op ops)
  show ?case
  proof (cases op)
    case (Observe x)
    have "lines_buffered (r_stats (observe kh (ring_run kh fh c ops) x)) = Suc (lines_buffered (r_stats (ring_run kh fh c ops)))"
      by (simp add: observe_def Let_def split: prod.split)
    then show ?thesis
      using snoc Observe observe_facts [of "ring_run kh fh c ops"] by (simp add: ring_run_snoc observed_snoc)
  next
    case (Capture x)
    then show ?thesis
      using snoc ring_inv_capture by (simp add: ring_run_snoc observed_snoc capture_facts)
  qed
qed

lemma ring_run_queue:
  "suffix (ring_queue kh (ring_run kh fh c ops) k) (map entry_of (same_key k ops))
   \<and> (lines_evicted (r_stats (ring_run kh fh c ops)) = 0 \<longrightarrow>
        ring_queue kh (ring_run kh fh c ops) k = map entry_of (same_key k ops))"
proof (induction ops rule: rev_induct)
  case Nil
  have "kh k mod max (shards_n c) (Suc 0) < max (shards_n c) (Suc 0)"
    by simp
  then show ?case
    by (simp add: ring_run_def ring_new_def observed_records_def ring_queue_def shard_for_def shard_default_def queue_of_def)
next
  case (snoc op ops)
  show ?case
  proof (cases op)
    case (Observe x)
    let ?r = "ring_run kh fh c ops"
    have inv: "ring_inv ?r" using ring_run_inv by blast
    have run: "ring_run kh fh c (ops @ [op]) = observe kh ?r x"
      by (simp add: ring_run_snoc Observe)
    have recs: "map entry_of (same_key k (ops @ [op])) = map entry_of (same_key k ops) @ (if correlation_key_of x = k then [entry_of x] else [])"
      by (simp add: observed_snoc Observe)
    have "suffix (ring_queue kh ?r k @ t) (map entry_of (same_key k ops) @ t)" for t
      using snoc by simp
    then show ?thesis
      using observe_facts(4-6) [OF inv, of kh x] snoc unfolding run recs
      by (metis (no_types, lifting) le_zero_eq suffix_order.trans)
  next
    case (Capture x)
    then show ?thesis
      using snoc by (simp add: ring_run_snoc observed_snoc ring_queue_capture capture_facts)
  qed
qed

lemma suffix_map: "suffix q (map f xs) \<Longrightarrow> \<exists>ys. suffix ys xs \<and> q = map f ys"
  by (metis map_eq_append_conv suffix_def)

section \<open>Memory and context\<close>

text \<open>
  C9. Whatever is observed and captured, the ring holds at most \<open>max_bytes\<close>, no key holds more than
  \<open>max_lines_per_key\<close> lines, the byte counters are the size of what is held, and every observed line is
  either held or counted as evicted.
\<close>

theorem ring_memory_bounded:
  "ring_bytes_held (ring_run kh fh c ops) \<le> max_bytes c
   \<and> ring_bytes_held (ring_run kh fh c ops)
       = sum_list (map (\<lambda>s. sum_list (map entry_bytes (concat (map snd (s_keys s))))) (r_shards (ring_run kh fh c ops)))
   \<and> stat_bytes_held (r_stats (ring_run kh fh c ops)) = ring_bytes_held (ring_run kh fh c ops)
   \<and> length (ring_queue kh (ring_run kh fh c ops) k) \<le> max_lines_per_key c
   \<and> length (observed_records ops) = lines_evicted (r_stats (ring_run kh fh c ops))
       + sum_list (map (\<lambda>s. length (concat (map snd (s_keys s)))) (r_shards (ring_run kh fh c ops)))"
proof -
  let ?r = "ring_run kh fh c ops"
  have inv: "ring_inv ?r" "r_config ?r = c" "lines_buffered (r_stats ?r) = length (observed_records ops)"
    using ring_run_inv by blast+
  have sh: "shard_inv (shard_budget ?r) (max_lines_per_key c) s" if "s \<in> set (r_shards ?r)" for s
    using inv that by (auto simp: ring_inv_def list_all_iff)
  then have sb: "s_bytes s \<le> shard_budget ?r" if "s \<in> set (r_shards ?r)" for s
    using that unfolding shard_inv_def by blast
  have "ring_bytes_held ?r \<le> length (r_shards ?r) * shard_budget ?r"
    unfolding ring_bytes_held_def
    by (intro order_trans [OF sum_list_mono [of "r_shards ?r" s_bytes "\<lambda>_. shard_budget ?r"]])
      (use sb in \<open>simp_all add: sum_list_triv\<close>)
  also have "\<dots> \<le> max_bytes c"
    using inv by (simp add: shard_budget_def ring_inv_def Suc_le_eq max_def)
  finally have "ring_bytes_held ?r \<le> max_bytes c" .
  moreover have "map s_bytes (r_shards ?r) = map (\<lambda>s. sum_list (map entry_bytes (concat (map snd (s_keys s))))) (r_shards ?r)"
    using sh by (simp add: shard_inv_def entries_bytes_def buffered_def)
  then have "ring_bytes_held ?r = sum_list (map (\<lambda>s. sum_list (map entry_bytes (concat (map snd (s_keys s))))) (r_shards ?r))"
    by (simp only: ring_bytes_held_def)
  moreover have "length (ring_queue kh ?r k) \<le> max_lines_per_key c"
    using sh [of "r_shards ?r ! shard_for kh ?r k"] inv(1) shard_for_less
    unfolding ring_queue_def shard_inv_def ring_inv_def by (meson nth_mem)
  ultimately show ?thesis
    using inv unfolding ring_inv_def buffered_def by metis
qed

text \<open>
  C8. The context of a window is exactly the error's own history: of the last lines observed with the
  error's correlation key (all of them, when nothing was evicted) the most recent
  \<open>max_context_lines\<close> that are not older than \<open>context_age\<close>, without the error itself, in order.
\<close>

theorem context_is_own_history:
  assumes "fst (capture kh fh (ring_run kh fh c ops) error) = Window w"
  shows "\<exists>kept. suffix kept (same_key (correlation_key_of error) ops)
    \<and> (lines_evicted (r_stats (ring_run kh fh c ops)) = 0 \<longrightarrow> kept = same_key (correlation_key_of error) ops)
    \<and> suffix (w_context w) (map entry_of (filter (\<lambda>x. observed_unix_nano error - as_u64 (context_age c) \<le> observed_unix_nano x
         \<and> (body x \<noteq> body error \<or> observed_unix_nano x \<noteq> observed_unix_nano error)) kept))
    \<and> length (w_context w) = min (max_context_lines c) (length (filter (\<lambda>x. observed_unix_nano error - as_u64 (context_age c) \<le> observed_unix_nano x
         \<and> (body x \<noteq> body error \<or> observed_unix_nano x \<noteq> observed_unix_nano error)) kept))
    \<and> w_context w \<noteq> []"
proof -
  let ?r = "ring_run kh fh c ops" and ?k = "correlation_key_of error"
  obtain kept where kept: "suffix kept (same_key ?k ops)" "ring_queue kh ?r ?k = map entry_of kept"
    using suffix_map ring_run_queue by blast
  have all: "kept = same_key ?k ops" if "lines_evicted (r_stats ?r) = 0"
  proof -
    have "map entry_of kept = map entry_of (same_key ?k ops)"
      using that ring_run_queue kept(2) by metis
    then have "length kept = length (same_key ?k ops)"
      by (metis length_map)
    then show ?thesis using kept(1) by (metis suffix_length_less order_less_irrefl suffix_order.le_less)
  qed
  have ctx: "w_context w = context_of c (ring_queue kh ?r ?k) error" "w_context w \<noteq> []"
    using capture_Window [OF assms] ring_run_inv [of kh fh c ops] by (auto simp: window_of_def)
  define es where "es = filter (\<lambda>x. observed_unix_nano error - as_u64 (context_age c) \<le> observed_unix_nano x
         \<and> (body x \<noteq> body error \<or> observed_unix_nano x \<noteq> observed_unix_nano error)) kept"
  have "w_context w = rev (take (max_context_lines c) (rev (map entry_of es)))"
    unfolding ctx(1) kept(2) context_of_def es_def Let_def filter_filter filter_map comp_def
    by (simp only: entry_of_def context_line.select_convs)
  then have "suffix (w_context w) (map entry_of es)" "length (w_context w) = min (max_context_lines c) (length es)"
    by (simp_all add: rev_take suffix_drop)
  then show ?thesis
    using kept(1) all ctx(2) by (intro exI [of _ kept] conjI impI) (simp_all only: es_def not_False_eq_True)
qed

section \<open>Fixed windows of a minute\<close>

text \<open>
  The budgets count windows in fixed minutes. A step either emits, which needs a free place in the
  current minute and takes it, or leaves the budget as it is or merely opens a new minute. A budget
  that does not exist yet opens at the first use.
\<close>

fun open_minute :: "nat \<Rightarrow> (nat \<times> nat) option \<Rightarrow> nat \<times> nat" where
  "open_minute now None = (now, 0)"
| "open_minute now (Some b) = current_window now b"

definition counted :: "nat \<Rightarrow> (nat \<times> nat) list \<Rightarrow> nat" where
  "counted a tags = length (filter (\<lambda>(st, _). st = a) tags)"

text \<open>Emissions up to time \<open>T\<close>, each tagged with the start of its minute, against the budget's state.\<close>

definition minute_inv :: "nat \<Rightarrow> (nat \<times> nat) list \<Rightarrow> (nat \<times> nat) option \<Rightarrow> nat \<Rightarrow> bool" where
  "minute_inv limit tags b T \<longleftrightarrow>
     (\<forall>(st, t) \<in> set tags. st \<le> t \<and> t < st + MINUTE)
     \<and> (\<forall>a. counted a tags \<le> limit)
     \<and> (\<forall>(st, _) \<in> set tags. \<forall>(st', _) \<in> set tags. st < st' \<longrightarrow> st + MINUTE \<le> st')
     \<and> (case b of None \<Rightarrow> tags = []
        | Some (a, c) \<Rightarrow> a \<le> T \<and> counted a tags = c \<and> (\<forall>(st, _) \<in> set tags. st = a \<or> st + MINUTE \<le> a))"

lemma MINUTE_pos: "0 < MINUTE"
  by (simp add: MINUTE_def)

lemma counted_zero: "(\<And>t. (a, t) \<notin> set tags) \<Longrightarrow> counted a tags = 0"
  by (auto simp: counted_def filter_empty_conv)

lemma counted_snoc: "counted a (tags @ [(st, t)]) = counted a tags + (if st = a then 1 else 0)"
  by (simp add: counted_def)

lemma minute_inv_mono: "minute_inv limit tags b T \<Longrightarrow> T \<le> T' \<Longrightarrow> minute_inv limit tags b T'"
  by (auto simp: minute_inv_def split: option.splits)

lemma minute_inv_open:
  assumes "minute_inv limit tags b T" "T \<le> now"
  shows "minute_inv limit tags (Some (open_minute now b)) now"
    "fst (open_minute now b) \<le> now \<and> now < fst (open_minute now b) + MINUTE"
proof -
  consider (fresh) "b = None" | (old) a c where "b = Some (a, c)" "MINUTE \<le> now - a" | (current) a c where "b = Some (a, c)" "now - a < MINUTE"
    by (cases b) (auto simp: not_le [symmetric])
  then have "minute_inv limit tags (Some (open_minute now b)) now
      \<and> fst (open_minute now b) \<le> now \<and> now < fst (open_minute now b) + MINUTE"
  proof cases
    case fresh
    then show ?thesis using assms MINUTE_pos by (auto simp: minute_inv_def counted_def)
  next
    case (old a c)
    have far: "st + MINUTE \<le> now" if "(st, t) \<in> set tags" for st t
      using that assms(1) old MINUTE_pos by (fastforce simp: minute_inv_def)
    then have "counted now tags = 0"
      using MINUTE_pos by (intro counted_zero) fastforce
    then show ?thesis
      using assms old far MINUTE_pos by (auto simp: minute_inv_def current_window_def)
  next
    case (current a c)
    then show ?thesis
      using assms by (auto simp: minute_inv_def current_window_def)
  qed
  then show "minute_inv limit tags (Some (open_minute now b)) now"
    "fst (open_minute now b) \<le> now \<and> now < fst (open_minute now b) + MINUTE"
    by blast+
qed

lemma minute_inv_emit:
  assumes "minute_inv limit tags (Some (a, c)) now" "now < a + MINUTE" "c < limit"
  shows "minute_inv limit (tags @ [(a, now)]) (Some (a, c + 1)) now"
proof -
  have "st + MINUTE \<le> a" if "(st, t) \<in> set tags" "st \<noteq> a" for st t
    using that assms(1) by (fastforce simp: minute_inv_def)
  then show ?thesis
    using assms by (fastforce simp: minute_inv_def counted_snoc)
qed

lemma length_filter_disj:
  "(\<And>x. x \<in> set xs \<Longrightarrow> P x \<Longrightarrow> Q x \<or> R x) \<Longrightarrow> length (filter P xs) \<le> length (filter Q xs) + length (filter R xs)"
  by (induction xs) (auto simp: le_SucI)

lemma minute_inv_bound:
  assumes inv: "minute_inv limit tags b T"
  shows "length (filter (\<lambda>(_, t). x \<le> t \<and> t < x + MINUTE) tags) \<le> 2 * limit"
proof -
  let ?P = "\<lambda>(_, t). x \<le> t \<and> t < x + MINUTE"
  have tag: "st \<le> t" "t < st + MINUTE" if "(st, t) \<in> set tags" for st t
    using that inv by (fastforce simp: minute_inv_def)+
  have apart: "st + MINUTE \<le> st'" if "(st, t) \<in> set tags" "(st', t') \<in> set tags" "st < st'" for st t st' t'
    using that inv by (fastforce simp: minute_inv_def)
  have "\<exists>s1 s2. \<forall>y \<in> set tags. ?P y \<longrightarrow> fst y = s1 \<or> fst y = s2"
  proof (rule ccontr)
    assume no: "\<not> ?thesis"
    have ex: "\<exists>a t. (a, t) \<in> set tags \<and> ?P (a, t) \<and> a \<noteq> s1 \<and> a \<noteq> s2" for s1 s2
    proof -
      obtain y where "y \<in> set tags" "?P y" "fst y \<noteq> s1" "fst y \<noteq> s2" using no by blast
      then show ?thesis by (metis prod.collapse)
    qed
    obtain a1 t1 where y1: "(a1, t1) \<in> set tags" "?P (a1, t1)" using ex by blast
    obtain a2 t2 where y2: "(a2, t2) \<in> set tags" "?P (a2, t2)" "a2 \<noteq> a1" using ex by blast
    obtain a3 t3 where y3: "(a3, t3) \<in> set tags" "?P (a3, t3)" "a3 \<noteq> a1" "a3 \<noteq> a2" using ex by blast
    have "a1 + MINUTE \<le> a2 \<or> a2 + MINUTE \<le> a1" "a1 + MINUTE \<le> a3 \<or> a3 + MINUTE \<le> a1" "a2 + MINUTE \<le> a3 \<or> a3 + MINUTE \<le> a2"
      using y1 y2 y3 apart by (metis nat_neq_iff)+
    moreover have "a1 < x + MINUTE" "a2 < x + MINUTE" "a3 < x + MINUTE" "x < a1 + MINUTE" "x < a2 + MINUTE" "x < a3 + MINUTE"
      using tag [OF y1(1)] tag [OF y2(1)] tag [OF y3(1)] y1(2) y2(2) y3(2) by simp_all
    ultimately show False by linarith
  qed
  then obtain s1 s2 where "\<And>y. y \<in> set tags \<Longrightarrow> ?P y \<Longrightarrow> fst y = s1 \<or> fst y = s2" by blast
  then have "length (filter ?P tags) \<le> length (filter (\<lambda>(st, _). st = s1) tags) + length (filter (\<lambda>(st, _). st = s2) tags)"
    by (intro length_filter_disj) (auto simp: split_beta)
  moreover have "length (filter (\<lambda>(st, _). st = a) tags) \<le> limit" for a
    using inv by (simp add: minute_inv_def counted_def)
  from this [of s1] this [of s2] have "length (filter (\<lambda>(st, _). st = s1) tags) + length (filter (\<lambda>(st, _). st = s2) tags) \<le> 2 * limit"
    by linarith
  ultimately show ?thesis by (rule order_trans)
qed

locale minute_budget =
  fixes step :: "'s \<Rightarrow> 'op \<Rightarrow> 's" and emits :: "'s \<Rightarrow> 'op \<Rightarrow> bool" and at :: "'op \<Rightarrow> nat"
    and budget :: "'s \<Rightarrow> (nat \<times> nat) option" and limit :: "'s \<Rightarrow> nat"
  assumes emit: "emits s op \<Longrightarrow> snd (open_minute (at op) (budget s)) < limit s
      \<and> budget (step s op) = Some (fst (open_minute (at op) (budget s)), snd (open_minute (at op) (budget s)) + 1)"
    and silent: "\<not> emits s op \<Longrightarrow> budget (step s op) = budget s \<or> budget (step s op) = Some (open_minute (at op) (budget s))"
    and same_limit: "limit (step s op) = limit s"
begin

text \<open>The times at which a run emits, each with the start of the minute it was counted in.\<close>

fun emissions :: "'s \<Rightarrow> 'op list \<Rightarrow> (nat \<times> nat) list" where
  "emissions s [] = []"
| "emissions s (op # ops) = (if emits s op then [(fst (open_minute (at op) (budget s)), at op)] else []) @ emissions (step s op) ops"

lemma step_inv:
  assumes "minute_inv (limit s) tags (budget s) T" "T \<le> at op"
  shows "minute_inv (limit s) (tags @ emissions s [op]) (budget (step s op)) (at op)"
proof (cases "emits s op")
  case True
  obtain a c where ac: "open_minute (at op) (budget s) = (a, c)"
    by (cases "open_minute (at op) (budget s)")
  have "minute_inv (limit s) (tags @ [(a, at op)]) (Some (a, c + 1)) (at op)"
    using minute_inv_open [OF assms] emit [OF True] by (intro minute_inv_emit) (simp_all add: ac)
  then show ?thesis using emit [OF True] True by (simp add: ac)
next
  case False
  then show ?thesis
    using minute_inv_open(1) [OF assms] minute_inv_mono [OF assms] silent [OF False] by auto
qed

lemma emissions_inv:
  assumes "minute_inv (limit s) tags (budget s) T" "sorted (T # map at ops)"
  shows "\<exists>b T'. minute_inv (limit s) (tags @ emissions s ops) b T'"
  using assms
proof (induction ops arbitrary: s tags T)
  case Nil
  then show ?case by auto
next
  case (Cons op ops)
  have "minute_inv (limit (step s op)) (tags @ emissions s [op]) (budget (step s op)) (at op)"
    using step_inv [OF Cons.prems(1)] Cons.prems(2) by (simp add: same_limit)
  from Cons.IH [OF this] show ?case
    using Cons.prems(2) by (simp add: same_limit)
qed

text \<open>In time order, no interval of a minute sees more than twice the limit.\<close>

theorem emissions_bounded:
  assumes "sorted (map at ops)" "budget s = None \<or> budget s = Some (0, 0)"
  shows "length (filter (\<lambda>(_, t). x \<le> t \<and> t < x + MINUTE) (emissions s ops)) \<le> 2 * limit s"
proof -
  have "minute_inv (limit s) [] (budget s) 0"
    using assms(2) by (auto simp: minute_inv_def counted_def)
  from emissions_inv [OF this, of ops] assms(1) show ?thesis
    using minute_inv_bound by fastforce
qed

end

section \<open>The two limits\<close>

fun is_window :: "capture_result \<Rightarrow> bool" where
  "is_window (Window _) = True"
| "is_window (ContextSuppressed _ _) = False"

fun emits_window :: "(correlation_key \<Rightarrow> nat) \<Rightarrow> (u64 option list \<times> u64 option \<Rightarrow> u64) \<Rightarrow> (log_record \<Rightarrow> bool) \<Rightarrow> ring \<Rightarrow> ring_op \<Rightarrow> bool" where
  "emits_window kh fh P r (Observe x) = False"
| "emits_window kh fh P r (Capture x) \<longleftrightarrow> P x \<and> is_window (fst (capture kh fh r x))"

text \<open>The times of the windows a run emits for the errors that satisfy \<open>P\<close>.\<close>

fun window_times :: "(correlation_key \<Rightarrow> nat) \<Rightarrow> (u64 option list \<times> u64 option \<Rightarrow> u64) \<Rightarrow> (log_record \<Rightarrow> bool) \<Rightarrow> ring \<Rightarrow> ring_op list \<Rightarrow> nat list" where
  "window_times kh fh P r [] = []"
| "window_times kh fh P r (op # ops) =
     (if emits_window kh fh P r op then [op_time op] else []) @ window_times kh fh P (ring_step kh fh r op) ops"

lemma capture_cases:
  "(\<exists>res fl st. \<not> is_window res \<and> capture kh fh r x = (res, r\<lparr>recent_flows := fl, r_stats := st\<rparr>))
   \<or> (\<exists>fl ctx h n. capture kh fh r x = limit_window (r\<lparr>recent_flows := fl\<rparr>) x ctx h n)"
proof -
  have none: "\<exists>res fl st. \<not> is_window res \<and> capture kh fh r x = (res, r\<lparr>recent_flows := fl, r_stats := st\<rparr>)"
    if "capture kh fh r x = (ContextSuppressed NoContext None, r)"
    using that by (intro exI [of _ "ContextSuppressed NoContext None"] exI [of _ "recent_flows r"] exI [of _ "r_stats r"]) simp
  have dup: "\<exists>res fl st. \<not> is_window res \<and> (ContextSuppressed DuplicateFlow h, r\<lparr>recent_flows := f, r_stats := t\<rparr>)
      = (res, r\<lparr>recent_flows := fl, r_stats := st\<rparr>)" for h f t
    by (intro exI conjI) (auto intro: refl)
  show ?thesis
  proof (cases "map_of (s_keys (r_shards r ! shard_for kh r (correlation_key_of x))) (correlation_key_of x)")
    case None
    then show ?thesis by (intro disjI1 none) (simp add: capture_def)
  next
    case (Some queue)
    let ?c = "context_of (r_config r) queue x"
    show ?thesis
    proof (cases "?c = []")
      case True
      then show ?thesis using Some by (intro disjI1 none) (simp add: capture_def)
    next
      case False
      then show ?thesis
        using Some dup unfolding capture_def by (simp add: Let_def split: option.split prod.split) blast
    qed
  qed
qed

lemma limit_window_budgets:
  defines "now \<equiv> \<lambda>x. observed_unix_nano x"
  shows "is_window (fst (limit_window r x ctx h n)) \<Longrightarrow>
      snd (open_minute (now x) (Some (global_budget r))) < max_windows_per_minute (r_config r)
      \<and> global_budget (snd (limit_window r x ctx h n))
        = (fst (open_minute (now x) (Some (global_budget r))), snd (open_minute (now x) (Some (global_budget r))) + 1)"
    "is_window (fst (limit_window r x ctx h n)) \<Longrightarrow>
      snd (open_minute (now x) (map_of (budgets r) (budget_key x))) < windows_per_minute (r_config r)
      \<and> map_of (budgets (snd (limit_window r x ctx h n))) = (map_of (budgets r))(budget_key x \<mapsto>
          (fst (open_minute (now x) (map_of (budgets r) (budget_key x))), snd (open_minute (now x) (map_of (budgets r) (budget_key x))) + 1))"
    "\<not> is_window (fst (limit_window r x ctx h n)) \<Longrightarrow>
      global_budget (snd (limit_window r x ctx h n)) = open_minute (now x) (Some (global_budget r))"
    "\<not> is_window (fst (limit_window r x ctx h n)) \<Longrightarrow>
      map_of (budgets (snd (limit_window r x ctx h n))) = map_of (budgets r)
      \<or> map_of (budgets (snd (limit_window r x ctx h n)))
        = (map_of (budgets r))(budget_key x \<mapsto> open_minute (now x) (map_of (budgets r) (budget_key x)))"
proof -
  have b: "current_window (now x) (case map_of (budgets r) (budget_key x) of Some b \<Rightarrow> b | None \<Rightarrow> (now x, 0))
      = open_minute (now x) (map_of (budgets r) (budget_key x))"
    using MINUTE_pos by (simp add: current_window_def split: option.split)
  show "is_window (fst (limit_window r x ctx h n)) \<Longrightarrow>
      snd (open_minute (now x) (Some (global_budget r))) < max_windows_per_minute (r_config r)
      \<and> global_budget (snd (limit_window r x ctx h n))
        = (fst (open_minute (now x) (Some (global_budget r))), snd (open_minute (now x) (Some (global_budget r))) + 1)"
    "is_window (fst (limit_window r x ctx h n)) \<Longrightarrow>
      snd (open_minute (now x) (map_of (budgets r) (budget_key x))) < windows_per_minute (r_config r)
      \<and> map_of (budgets (snd (limit_window r x ctx h n))) = (map_of (budgets r))(budget_key x \<mapsto>
          (fst (open_minute (now x) (map_of (budgets r) (budget_key x))), snd (open_minute (now x) (map_of (budgets r) (budget_key x))) + 1))"
    "\<not> is_window (fst (limit_window r x ctx h n)) \<Longrightarrow>
      global_budget (snd (limit_window r x ctx h n)) = open_minute (now x) (Some (global_budget r))"
    "\<not> is_window (fst (limit_window r x ctx h n)) \<Longrightarrow>
      map_of (budgets (snd (limit_window r x ctx h n))) = map_of (budgets r)
      \<or> map_of (budgets (snd (limit_window r x ctx h n)))
        = (map_of (budgets r))(budget_key x \<mapsto> open_minute (now x) (map_of (budgets r) (budget_key x)))"
    using b unfolding now_def by (auto simp: limit_window_def Let_def update_conv' split: if_splits)
qed

lemma capture_emits:
  assumes "is_window (fst (capture kh fh r x))"
  shows "snd (open_minute (observed_unix_nano x) (Some (global_budget r))) < max_windows_per_minute (r_config r)
      \<and> global_budget (snd (capture kh fh r x)) = (fst (open_minute (observed_unix_nano x) (Some (global_budget r))),
          snd (open_minute (observed_unix_nano x) (Some (global_budget r))) + 1)"
    "snd (open_minute (observed_unix_nano x) (map_of (budgets r) (budget_key x))) < windows_per_minute (r_config r)
      \<and> map_of (budgets (snd (capture kh fh r x))) = (map_of (budgets r))(budget_key x \<mapsto>
          (fst (open_minute (observed_unix_nano x) (map_of (budgets r) (budget_key x))),
           snd (open_minute (observed_unix_nano x) (map_of (budgets r) (budget_key x))) + 1))"
proof -
  obtain fl ctx h n where c: "capture kh fh r x = limit_window (r\<lparr>recent_flows := fl\<rparr>) x ctx h n"
    using assms capture_cases [of kh fh r x] by fastforce
  show "snd (open_minute (observed_unix_nano x) (Some (global_budget r))) < max_windows_per_minute (r_config r)
      \<and> global_budget (snd (capture kh fh r x)) = (fst (open_minute (observed_unix_nano x) (Some (global_budget r))),
          snd (open_minute (observed_unix_nano x) (Some (global_budget r))) + 1)"
    "snd (open_minute (observed_unix_nano x) (map_of (budgets r) (budget_key x))) < windows_per_minute (r_config r)
      \<and> map_of (budgets (snd (capture kh fh r x))) = (map_of (budgets r))(budget_key x \<mapsto>
          (fst (open_minute (observed_unix_nano x) (map_of (budgets r) (budget_key x))),
           snd (open_minute (observed_unix_nano x) (map_of (budgets r) (budget_key x))) + 1))"
    using limit_window_budgets(1,2) [of "r\<lparr>recent_flows := fl\<rparr>" x ctx h n] assms by (simp_all add: c)
qed

lemma observe_budgets [simp]:
  "global_budget (observe kh r x) = global_budget r" "budgets (observe kh r x) = budgets r" "r_config (observe kh r x) = r_config r"
  by (simp_all add: observe_def Let_def split: prod.split)

lemma ring_step_config: "r_config (ring_step kh fh r op) = r_config r"
  by (cases op) (simp_all add: capture_facts)

interpretation all_shapes: minute_budget "ring_step kh fh" "emits_window kh fh (\<lambda>_. True)" op_time
  "\<lambda>r. Some (global_budget r)" "\<lambda>r. max_windows_per_minute (r_config r)" for kh fh
proof unfold_locales
  fix r op
  show "max_windows_per_minute (r_config (ring_step kh fh r op)) = max_windows_per_minute (r_config r)"
    by (simp add: ring_step_config)
  show "snd (open_minute (op_time op) (Some (global_budget r))) < max_windows_per_minute (r_config r)
      \<and> Some (global_budget (ring_step kh fh r op)) = Some (fst (open_minute (op_time op) (Some (global_budget r))),
          snd (open_minute (op_time op) (Some (global_budget r))) + 1)" if e: "emits_window kh fh (\<lambda>_. True) r op"
  proof (cases op)
    case (Capture x)
    then show ?thesis
      using e capture_emits(1) [of kh fh r x] by (simp add: op_time_def)
  qed (use e in simp)
  show "Some (global_budget (ring_step kh fh r op)) = Some (global_budget r)
      \<or> Some (global_budget (ring_step kh fh r op)) = Some (open_minute (op_time op) (Some (global_budget r)))"
    if e: "\<not> emits_window kh fh (\<lambda>_. True) r op"
  proof (cases op)
    case (Capture x)
    then show ?thesis
      using e capture_cases [of kh fh r x] limit_window_budgets(3) by (auto simp: op_time_def)
  qed simp
qed

interpretation one_shape: minute_budget "ring_step kh fh" "emits_window kh fh (\<lambda>x. budget_key x = k)" op_time
  "\<lambda>r. map_of (budgets r) k" "\<lambda>r. windows_per_minute (r_config r)" for kh fh k
proof unfold_locales
  fix r op
  show "windows_per_minute (r_config (ring_step kh fh r op)) = windows_per_minute (r_config r)"
    by (simp add: ring_step_config)
  show "snd (open_minute (op_time op) (map_of (budgets r) k)) < windows_per_minute (r_config r)
      \<and> map_of (budgets (ring_step kh fh r op)) k = Some (fst (open_minute (op_time op) (map_of (budgets r) k)),
          snd (open_minute (op_time op) (map_of (budgets r) k)) + 1)" if e: "emits_window kh fh (\<lambda>x. budget_key x = k) r op"
  proof (cases op)
    case (Capture x)
    then show ?thesis
      using e capture_emits(2) [of kh fh r x] by (auto simp: op_time_def)
  qed (use e in simp)
  show "map_of (budgets (ring_step kh fh r op)) k = map_of (budgets r) k
      \<or> map_of (budgets (ring_step kh fh r op)) k = Some (open_minute (op_time op) (map_of (budgets r) k))"
    if e: "\<not> emits_window kh fh (\<lambda>x. budget_key x = k) r op"
  proof (cases op)
    case (Capture x)
    from capture_cases [of kh fh r x] show ?thesis
    proof (elim disjE exE conjE)
      fix fl ctx h n assume c: "capture kh fh r x = limit_window (r\<lparr>recent_flows := fl\<rparr>) x ctx h n"
      show ?thesis
        using e Capture limit_window_budgets(2,4) [of "r\<lparr>recent_flows := fl\<rparr>" x ctx h n]
        by (cases "is_window (fst (limit_window (r\<lparr>recent_flows := fl\<rparr>) x ctx h n))") (auto simp: c op_time_def)
    qed (use Capture in simp)
  qed simp
qed

lemma window_times_all: "window_times kh fh (\<lambda>_. True) r ops = map snd (all_shapes.emissions kh fh r ops)"
  by (induction ops arbitrary: r) (auto simp: op_time_def)

lemma window_times_one: "window_times kh fh (\<lambda>x. budget_key x = k) r ops = map snd (one_shape.emissions kh fh k r ops)"
  by (induction ops arbitrary: r) (auto simp: op_time_def)

text \<open>
  C11. Errors that arrive in time order never produce more than twice the configured number of windows
  in any interval of a minute: neither for one service and error template, nor overall.
\<close>

theorem windows_are_rate_limited:
  assumes "sorted (map op_time ops)"
  shows "length (filter (\<lambda>t. x \<le> t \<and> t < x + MINUTE) (window_times kh fh (\<lambda>e. budget_key e = k) (ring_new c) ops)) \<le> 2 * windows_per_minute c
    \<and> length (filter (\<lambda>t. x \<le> t \<and> t < x + MINUTE) (window_times kh fh (\<lambda>_. True) (ring_new c) ops)) \<le> 2 * max_windows_per_minute c"
proof -
  have conf: "r_config (ring_new c) = c" "global_budget (ring_new c) = (0, 0)" "budgets (ring_new c) = []"
    by (simp_all add: ring_new_def)
  have "length (filter (\<lambda>t. x \<le> t \<and> t < x + MINUTE) (map snd tags)) = length (filter (\<lambda>(_, t). x \<le> t \<and> t < x + MINUTE) tags)" for tags :: "(nat \<times> nat) list"
    by (induction tags) auto
  then show ?thesis
    using all_shapes.emissions_bounded [OF assms, of "ring_new c" x kh fh] one_shape.emissions_bounded [OF assms, of "ring_new c" k x kh fh]
    unfolding window_times_all window_times_one by (simp add: conf)
qed

lemma limit_window_flows [simp]:
  "recent_flows (snd (limit_window r x ctx h n)) = recent_flows r" "r_shards (snd (limit_window r x ctx h n)) = r_shards r"
  "r_config (snd (limit_window r x ctx h n)) = r_config r"
  by (simp_all add: limit_window_def Let_def)

lemma capture_limited:
  assumes "fst (capture kh fh r x) = ContextSuppressed RateLimited (Some h)"
  shows "\<exists>queue. map_of (s_keys (r_shards r ! shard_for kh r (correlation_key_of x))) (correlation_key_of x) = Some queue
    \<and> context_of (r_config r) queue x \<noteq> [] \<and> flow_hash fh (context_of (r_config r) queue x) (template_id x) = h
    \<and> map_of (recent_flows (snd (capture kh fh r x))) h = Some (observed_unix_nano x, 0)"
proof (cases "map_of (s_keys (r_shards r ! shard_for kh r (correlation_key_of x))) (correlation_key_of x)")
  case None
  then show ?thesis using assms by (simp add: capture_def)
next
  case (Some queue)
  let ?c = "context_of (r_config r) queue x"
  have ne: "?c \<noteq> []"
    using assms Some by (auto simp: capture_def)
  have lim: "h' = h" if "fst (limit_window r' x ctx h' n) = ContextSuppressed RateLimited (Some h)" for r' ctx h' n
    using that by (auto simp: limit_window_def Let_def split: if_splits)
  show ?thesis
    using assms ne Some lim
    by (cases "map_of (recent_flows r) (flow_hash fh ?c (template_id x))") (fastforce simp: capture_def Let_def update_conv' split: if_splits)+
qed

text \<open>
  A flow that was refused by a rate limit is remembered as if it had been forwarded: the same error
  again is suppressed as the duplicate of a window that was never sent.
\<close>

theorem limited_flow_counts_as_sent:
  assumes "fst (capture kh fh r x) = ContextSuppressed RateLimited (Some h)" "0 < as_u64 (dedupe_window (r_config r))"
  shows "fst (capture kh fh (snd (capture kh fh r x)) x) = ContextSuppressed DuplicateFlow (Some h)"
proof -
  obtain queue where q: "map_of (s_keys (r_shards r ! shard_for kh r (correlation_key_of x))) (correlation_key_of x) = Some queue"
    "context_of (r_config r) queue x \<noteq> []" "flow_hash fh (context_of (r_config r) queue x) (template_id x) = h"
    "map_of (recent_flows (snd (capture kh fh r x))) h = Some (observed_unix_nano x, 0)"
    using capture_limited [OF assms(1)] by blast
  let ?r = "snd (capture kh fh r x)"
  have same: "shard_for kh ?r k = shard_for kh r k" for k
    by (simp add: shard_for_def capture_facts)
  show ?thesis
    using q assms(2) unfolding capture_def [of kh fh ?r] by (simp add: capture_facts same Let_def)
qed

section \<open>Examples\<close>

text \<open>Two lines of one service, and an error half a second later.\<close>

definition sample_line :: "nat \<Rightarrow> nat \<Rightarrow> string \<Rightarrow> log_record" where
  "sample_line at sev b = (log_record_new 0 at sev b)\<lparr>service := Some ''api''\<rparr>"

definition sample_ops :: "ring_op list" where
  "sample_ops = [Observe (sample_line (60 * 10 ^ 9) DEBUG ''connect''), Observe (sample_line (61 * 10 ^ 9) DEBUG ''retry'')]"

lemmas ring_eval = ring_run_def ring_new_def ring_config_default_def sample_ops_def sample_line_def log_record_new_def
  observe_def observe_shard_def correlation_key_of_def unwrap_or_default_def shard_for_def shard_budget_def shard_default_def
  entry_of_def entry_bytes_def ring_bytes_held_def ring_stats_default_def capture_def context_of_def flow_hash_def
  prune_flows_def limit_window_def current_window_def budget_key_def window_of_def MINUTE_def as_u64_def
  DEBUG_def ERROR_def Let_def

lemma sample_capture:
  "\<exists>w. fst (capture (\<lambda>_. 0) (\<lambda>_. 7) (ring_run (\<lambda>_. 0) (\<lambda>_. 7) ring_config_default sample_ops)
      (sample_line (61500 * 10 ^ 6) ERROR ''failed'')) = Window w"
  by (simp add: ring_eval)

lemma sample_limited:
  "fst (capture (\<lambda>_. 0) (\<lambda>_. 7) (ring_run (\<lambda>_. 0) (\<lambda>_. 7) (ring_config_default\<lparr>windows_per_minute := 0\<rparr>) sample_ops)
      (sample_line (61500 * 10 ^ 6) ERROR ''failed'')) = ContextSuppressed RateLimited (Some 7)"
  by (simp add: ring_eval)

text \<open>Witnesses of the properties above.\<close>

theorem context_is_own_history_witness:
  "\<exists>w kept. fst (capture (\<lambda>_. 0) (\<lambda>_. 7) (ring_run (\<lambda>_. 0) (\<lambda>_. 7) ring_config_default sample_ops)
      (sample_line (61500 * 10 ^ 6) ERROR ''failed'')) = Window w
    \<and> suffix kept (same_key (correlation_key_of (sample_line (61500 * 10 ^ 6) ERROR ''failed'')) sample_ops) \<and> w_context w \<noteq> []"
  using sample_capture context_is_own_history by blast

theorem windows_are_rate_limited_witness:
  "length (filter (\<lambda>t. 61500 * 10 ^ 6 \<le> t \<and> t < 61500 * 10 ^ 6 + MINUTE) (window_times (\<lambda>_. 0) (\<lambda>_. 7)
      (\<lambda>e. budget_key e = (''api'', 0)) (ring_new ring_config_default)
      (sample_ops @ [Capture (sample_line (61500 * 10 ^ 6) ERROR ''failed'')]))) \<le> 2 * windows_per_minute ring_config_default"
proof -
  have "sorted (map op_time (sample_ops @ [Capture (sample_line (61500 * 10 ^ 6) ERROR ''failed'')]))"
    by (simp add: op_time_def sample_ops_def sample_line_def log_record_new_def)
  from windows_are_rate_limited [OF this] show ?thesis by blast
qed

theorem limited_flow_counts_as_sent_witness:
  "fst (capture (\<lambda>_. 0) (\<lambda>_. 7) (snd (capture (\<lambda>_. 0) (\<lambda>_. 7)
      (ring_run (\<lambda>_. 0) (\<lambda>_. 7) (ring_config_default\<lparr>windows_per_minute := 0\<rparr>) sample_ops)
      (sample_line (61500 * 10 ^ 6) ERROR ''failed''))) (sample_line (61500 * 10 ^ 6) ERROR ''failed''))
    = ContextSuppressed DuplicateFlow (Some 7)"
proof -
  have "r_config (ring_run (\<lambda>_. 0) (\<lambda>_. 7) (ring_config_default\<lparr>windows_per_minute := 0\<rparr>) sample_ops)
      = ring_config_default\<lparr>windows_per_minute := 0\<rparr>"
    using ring_run_inv by blast
  then show ?thesis
    by (intro limited_flow_counts_as_sent [OF sample_limited]) (simp add: ring_config_default_def as_u64_def)
qed

end
