(* ===== verification/Tenancy.thy ===== *)
theory Tenancy
  imports Model Partition "HOL-Library.Multiset"
begin

text \<open>
  Level buckets, tenants and index routing (the \<^verbatim>\<open>LevelBuckets\<close> and \<^verbatim>\<open>Tenancy\<close> types of \<^verbatim>\<open>config.rs\<close>).
  Durations are seconds. The decimal rendering of an \<^verbatim>\<open>f64\<close> attribute is an argument. Names reach
  \<^verbatim>\<open>to_lowercase\<close> only after they were found to be ASCII.
\<close>

section \<open>Level buckets\<close>

record level_bucket =
  lb_name :: string
  min_severity :: severity
  retention :: nat

text \<open>\<^verbatim>\<open>LevelBuckets\<close> is its vector of buckets.\<close>

type_synonym level_buckets = "level_bucket list"

datatype config_error =
    NoBuckets
  | UncoveredSeverity severity
  | DuplicateMinSeverity severity
  | DuplicateBucketName
  | BadBucketName string
  | ZeroRetention string
  | NoTenants
  | NoIndexes string
  | BadIdent string string
  | DuplicateIdent string string

definition level_buckets_default :: level_buckets where
  "level_buckets_default = [
     \<lparr>lb_name = ''debug'', min_severity = 0, retention = 24 * 3600\<rparr>,
     \<lparr>lb_name = ''info'', min_severity = INFO, retention = 7 * 24 * 3600\<rparr>,
     \<lparr>lb_name = ''warn_plus'', min_severity = WARN, retention = 30 * 24 * 3600\<rparr>]"

definition bucket_name_problem :: "string \<Rightarrow> string option" where
  "bucket_name_problem name = (
     if name = [] \<or> 64 < length name then Some ''must be 1 to 64 characters''
     else if \<not> list_all (\<lambda>c. is_ascii_alphanumeric c \<or> c \<in> set ''_-+'') name
     then Some ''may contain only ASCII letters, digits, _ - and + (it is a directory name on disk)''
     else (let upper = to_ascii_uppercase name;
               device = (upper \<in> {''CON'', ''PRN'', ''AUX'', ''NUL''}
                 \<or> (starts_with ''COM'' upper \<or> starts_with ''LPT'' upper) \<and> length upper = 4
                   \<and> is_ascii_digit (upper ! 3) \<and> upper ! 3 \<noteq> CHR ''0'')
           in if device then Some ''is a reserved device name on Windows filesystems'' else None))"

text \<open>The first of two neighbours that share a severity.\<close>

fun duplicate_severity :: "level_bucket list \<Rightarrow> severity option" where
  "duplicate_severity (a # b # bs) =
     (if min_severity a = min_severity b then Some (min_severity a) else duplicate_severity (b # bs))"
| "duplicate_severity _ = None"

fun bucket_problem :: "level_bucket list \<Rightarrow> config_error option" where
  "bucket_problem [] = None"
| "bucket_problem (b # bs) =
     (if bucket_name_problem (lb_name b) \<noteq> None then Some (BadBucketName (lb_name b))
      else if retention b = 0 then Some (ZeroRetention (lb_name b))
      else bucket_problem bs)"

definition level_buckets_new :: "level_bucket list \<Rightarrow> config_error + level_buckets" where
  "level_buckets_new buckets0 = (
     if buckets0 = [] then Inl NoBuckets
     else (let buckets = sort_key min_severity buckets0 in
       if min_severity (hd buckets) \<noteq> 0 then Inl (UncoveredSeverity 0)
       else case duplicate_severity buckets of
         Some s \<Rightarrow> Inl (DuplicateMinSeverity s)
       | None \<Rightarrow> (case bucket_problem buckets of
           Some e \<Rightarrow> Inl e
         | None \<Rightarrow>
             if \<not> distinct (map (\<lambda>b. to_ascii_lowercase (lb_name b)) buckets) then Inl DuplicateBucketName
             else Inr buckets)))"

text \<open>
  \<^verbatim>\<open>slice::partition_point\<close>, as the binary search of the standard library: \<open>base\<close> and \<open>n\<close> (its \<^verbatim>\<open>size\<close>) are its two
  variables.
\<close>

function pp_search :: "('a \<Rightarrow> bool) \<Rightarrow> 'a list \<Rightarrow> nat \<Rightarrow> nat \<Rightarrow> nat" where
  "pp_search pred xs base n =
     (if n \<le> 1 then base
      else (let half = n div 2; mid = base + half
            in pp_search pred xs (if pred (xs ! mid) then mid else base) (n - half)))"
  by pat_completeness auto
termination
  by (relation "measure (\<lambda>(_, _, _, n). n)") auto

declare pp_search.simps [simp del]

definition partition_point :: "('a \<Rightarrow> bool) \<Rightarrow> 'a list \<Rightarrow> nat" where
  "partition_point pred xs = (
     if xs = [] then 0
     else (let base = pp_search pred xs 0 (length xs) in if pred (xs ! base) then base + 1 else base))"

definition bucket_for :: "level_buckets \<Rightarrow> severity \<Rightarrow> level_bucket" where
  "bucket_for buckets sev = buckets ! (partition_point (\<lambda>b. min_severity b \<le> sev) buckets - 1)"

definition by_name :: "level_buckets \<Rightarrow> string \<Rightarrow> level_bucket option" where
  "by_name buckets name = List.find (\<lambda>b. lb_name b = name) buckets"

definition names_from :: "level_buckets \<Rightarrow> severity \<Rightarrow> string list" where
  "names_from buckets sev = map lb_name (drop (partition_point (\<lambda>b. min_severity b \<le> sev) buckets - 1) buckets)"

definition max_retention :: "level_buckets \<Rightarrow> nat" where
  "max_retention buckets = (if buckets = [] then 0 else Max (set (map retention buckets)))"

section \<open>Tenants\<close>

datatype unknown_index = Refuse | UseDefault

record index_config =
  ix_name :: string
  ix_retention :: level_buckets

record tenant_config =
  tn_id :: string
  tn_unknown_index :: unknown_index
  tn_indexes :: "index_config list"

definition default_indexes :: "index_config list" where
  "default_indexes = [\<lparr>ix_name = DEFAULT_INDEX, ix_retention = level_buckets_default\<rparr>]"

definition default_tenants :: "tenant_config list" where
  "default_tenants = [\<lparr>tn_id = DEFAULT_TENANT, tn_unknown_index = UseDefault, tn_indexes = default_indexes\<rparr>]"

definition ATTR_INDEX :: string where "ATTR_INDEX = ''logless.index''"
definition ATTR_TENANT :: string where "ATTR_TENANT = ''logless.tenant''"

datatype route = Known string | Defaulted string | Refused

record tenancy =
  tenants :: "tenant_config list"
  own_node :: string

fun check_indexes :: "string list \<Rightarrow> index_config list \<Rightarrow> config_error option" where
  "check_indexes names [] = None"
| "check_indexes names (i # is) =
     (if \<not> valid_ident (ix_name i) then Some (BadIdent ''index name'' (ix_name i))
      else if to_ascii_lowercase (ix_name i) \<in> set names then Some (DuplicateIdent ''index name'' (ix_name i))
      else (case level_buckets_new (ix_retention i) of
          Inl e \<Rightarrow> Some e
        | Inr _ \<Rightarrow> check_indexes (names @ [to_ascii_lowercase (ix_name i)]) is))"

fun check_tenants :: "string list \<Rightarrow> tenant_config list \<Rightarrow> config_error option" where
  "check_tenants seen [] = None"
| "check_tenants seen (t # ts) =
     (if \<not> valid_ident (tn_id t) then Some (BadIdent ''tenant id'' (tn_id t))
      else if to_ascii_lowercase (tn_id t) \<in> set seen then Some (DuplicateIdent ''tenant id'' (tn_id t))
      else if tn_indexes t = [] then Some (NoIndexes (tn_id t))
      else (case check_indexes [] (tn_indexes t) of
          Some e \<Rightarrow> Some e
        | None \<Rightarrow> check_tenants (seen @ [to_ascii_lowercase (tn_id t)]) ts))"

definition tenancy_new :: "tenant_config list \<Rightarrow> string \<Rightarrow> config_error + tenancy" where
  "tenancy_new ts node = (
     if \<not> valid_ident node then Inl (BadIdent ''node id'' node)
     else if ts = [] then Inl NoTenants
     else case check_tenants [] ts of
       Some e \<Rightarrow> Inl e
     | None \<Rightarrow> Inr \<lparr>tenants = ts, own_node = node\<rparr>)"

definition tenancy_single :: "level_buckets \<Rightarrow> tenancy" where
  "tenancy_single buckets = \<lparr>tenants = [(hd default_tenants)\<lparr>tn_indexes := [(hd default_indexes)\<lparr>ix_retention := buckets\<rparr>]\<rparr>],
     own_node = ''node-a''\<rparr>"

definition own_tenant :: "tenancy \<Rightarrow> string" where
  "own_tenant t = tn_id (hd (tenants t))"

text \<open>The position of the index named \<^verbatim>\<open>default\<close>, or the first.\<close>

definition default_of :: "tenant_config \<Rightarrow> string" where
  "default_of t = (case List.find (\<lambda>i. ix_name i = DEFAULT_INDEX) (tn_indexes t) of
     Some i \<Rightarrow> ix_name i
   | None \<Rightarrow> ix_name (hd (tn_indexes t)))"

definition default_index :: "tenancy \<Rightarrow> string" where
  "default_index t = default_of (hd (tenants t))"

definition configured :: "tenancy \<Rightarrow> string \<Rightarrow> tenant_config option" where
  "configured t tenant = List.find (\<lambda>c. tn_id c = tenant) (tenants t)"

definition find_index :: "tenant_config \<Rightarrow> string \<Rightarrow> index_config option" where
  "find_index t index = List.find (\<lambda>i. ix_name i = index) (tn_indexes t)"

definition tenancy_buckets :: "tenancy \<Rightarrow> string \<Rightarrow> string \<Rightarrow> level_buckets option" where
  "tenancy_buckets t tenant index = (case configured t tenant of
     None \<Rightarrow> None
   | Some c \<Rightarrow> map_option ix_retention (find_index c index))"

definition has_tenant :: "tenancy \<Rightarrow> string \<Rightarrow> bool" where
  "has_tenant t tenant \<longleftrightarrow> configured t tenant \<noteq> None"

definition default_index_of :: "tenancy \<Rightarrow> string \<Rightarrow> string option" where
  "default_index_of t tenant = map_option default_of (configured t tenant)"

definition index_of :: "tenancy \<Rightarrow> string \<Rightarrow> string \<Rightarrow> string option" where
  "index_of t tenant index = (case configured t tenant of None \<Rightarrow> None | Some c \<Rightarrow> map_option ix_name (find_index c index))"

text \<open>The list with its first element that satisfies \<open>P\<close> changed.\<close>

fun update_first :: "('a \<Rightarrow> bool) \<Rightarrow> ('a \<Rightarrow> 'a) \<Rightarrow> 'a list \<Rightarrow> 'a list" where
  "update_first P f [] = []"
| "update_first P f (x # xs) = (if P x then f x # xs else x # update_first P f xs)"

definition set_default_buckets :: "tenancy \<Rightarrow> level_buckets \<Rightarrow> tenancy" where
  "set_default_buckets t buckets = t\<lparr>tenants := (hd (tenants t))\<lparr>tn_indexes :=
     update_first (\<lambda>i. ix_name i = default_index t) (\<lambda>i. i\<lparr>ix_retention := buckets\<rparr>) (tn_indexes (hd (tenants t)))\<rparr>
     # tl (tenants t)\<rparr>"

definition route_in :: "tenancy \<Rightarrow> string \<Rightarrow> string option \<Rightarrow> route" where
  "route_in t tenant requested = (case configured t tenant of
     None \<Rightarrow> Refused
   | Some c \<Rightarrow> (case requested of
       None \<Rightarrow> Known (default_of c)
     | Some r \<Rightarrow> (case find_index c r of
         Some i \<Rightarrow> Known (ix_name i)
       | None \<Rightarrow> if tn_unknown_index c = UseDefault then Defaulted (default_of c) else Refused)))"

definition route_own :: "tenancy \<Rightarrow> string option \<Rightarrow> route" where
  "route_own t requested = route_in t (own_tenant t) requested"

fun attr_text :: "(u64 \<Rightarrow> string) \<Rightarrow> attr_value \<Rightarrow> string" where
  "attr_text f64_text (Str s) = s"
| "attr_text f64_text (I64 n) = (if n < 0 then ''-'' @ show_nat (nat (- n)) else show_nat (nat n))"
| "attr_text f64_text (F64 x) = f64_text x"
| "attr_text f64_text (Bool b) = (if b then ''true'' else ''false'')"

definition record_tenant :: "tenancy \<Rightarrow> log_record \<Rightarrow> string option" where
  "record_tenant t rec = (case List.find (\<lambda>a. attr_key a = ATTR_TENANT) (attributes rec) of
     None \<Rightarrow> Some (own_tenant t)
   | Some a \<Rightarrow> (case attr_val a of Str s \<Rightarrow> Some s | _ \<Rightarrow> None))"

definition requested_index :: "(u64 \<Rightarrow> string) \<Rightarrow> string \<Rightarrow> log_record \<Rightarrow> string option" where
  "requested_index f64_text key rec =
     map_option (\<lambda>a. attr_text f64_text (attr_val a)) (List.find (\<lambda>a. attr_key a = key \<or> attr_key a = ATTR_INDEX) (attributes rec))"

definition route_record :: "(u64 \<Rightarrow> string) \<Rightarrow> tenancy \<Rightarrow> log_record \<Rightarrow> string \<Rightarrow> route \<times> log_record" where
  "route_record f64_text t rec key = (case record_tenant t rec of
     None \<Rightarrow> (Refused, rec)
   | Some tenant \<Rightarrow>
       (let r = route_in t tenant (requested_index f64_text key rec);
            kept = filter (\<lambda>a. attr_key a \<noteq> key \<and> attr_key a \<noteq> ATTR_INDEX) (attributes rec);
            rewritten = (\<lambda>chosen. rec\<lparr>attributes := kept @
              (if Some chosen \<noteq> default_index_of t tenant then [\<lparr>attr_key = ATTR_INDEX, attr_val = Str chosen\<rparr>] else [])\<rparr>)
        in case r of
             Known chosen \<Rightarrow> (r, rewritten chosen)
           | Defaulted chosen \<Rightarrow> (r, rewritten chosen)
           | Refused \<Rightarrow> (r, rec)))"

section \<open>The binary search\<close>

definition partitioned :: "('a \<Rightarrow> bool) \<Rightarrow> 'a list \<Rightarrow> bool" where
  "partitioned pred xs \<longleftrightarrow> (\<forall>i j. i \<le> j \<longrightarrow> j < length xs \<longrightarrow> pred (xs ! j) \<longrightarrow> pred (xs ! i))"

lemma pp_search_spec:
  assumes "partitioned pred xs" "0 < n" "base + n \<le> length xs" "base = 0 \<or> pred (xs ! base)"
    "\<And>i. base + n \<le> i \<Longrightarrow> i < length xs \<Longrightarrow> \<not> pred (xs ! i)"
  shows "pp_search pred xs base n < length xs \<and> (pp_search pred xs base n = 0 \<or> pred (xs ! pp_search pred xs base n))
    \<and> (\<forall>i. pp_search pred xs base n < i \<and> i < length xs \<longrightarrow> \<not> pred (xs ! i))"
  using assms(2-)
proof (induction n arbitrary: base rule: less_induct)
  case (less n)
  show ?case
  proof (cases "n \<le> 1")
    case True
    then have "pp_search pred xs base n = base" by (simp add: pp_search.simps)
    then show ?thesis using True less.prems by auto
  next
    case False
    let ?half = "n div 2" and ?base = "if pred (xs ! (base + n div 2)) then base + n div 2 else base"
    have eq: "pp_search pred xs base n = pp_search pred xs ?base (n - ?half)"
      using False by (subst pp_search.simps) (simp add: Let_def)
    have "pp_search pred xs ?base (n - ?half) < length xs \<and> (pp_search pred xs ?base (n - ?half) = 0 \<or> pred (xs ! pp_search pred xs ?base (n - ?half)))
        \<and> (\<forall>i. pp_search pred xs ?base (n - ?half) < i \<and> i < length xs \<longrightarrow> \<not> pred (xs ! i))"
    proof (rule less.IH)
      show "\<not> pred (xs ! i)" if i: "?base + (n - ?half) \<le> i" "i < length xs" for i
      proof (cases "pred (xs ! (base + ?half))")
        case True
        then show ?thesis using i less.prems(4) [of i] by simp
      next
        case no: False
        then have "base + ?half \<le> i" using i(1) by simp
        then show ?thesis
          using no i(2) assms(1) unfolding partitioned_def by blast
      qed
    qed (use False less.prems in auto)
    then show ?thesis unfolding eq .
  qed
qed

lemma partition_point_takeWhile:
  assumes "partitioned pred xs"
  shows "partition_point pred xs = length (takeWhile pred xs)"
proof (cases "xs = []")
  case False
  define r where "r = pp_search pred xs 0 (length xs)"
  have r: "r < length xs" "r = 0 \<or> pred (xs ! r)" "\<And>i. r < i \<Longrightarrow> i < length xs \<Longrightarrow> \<not> pred (xs ! i)"
    using pp_search_spec [OF assms, of "length xs" 0] False unfolding r_def by auto
  define k where "k = partition_point pred xs"
  have k: "k = (if pred (xs ! r) then r + 1 else r)"
    using False by (simp add: k_def partition_point_def r_def Let_def)
  have "takeWhile pred xs = take k xs"
  proof (rule takeWhile_eq_take_P_nth)
    show "pred (xs ! i)" if "i < k" "i < length xs" for i
    proof -
      have "pred (xs ! r)" "i \<le> r" using that k r(2) by (auto split: if_splits)
      then show ?thesis using r(1) assms unfolding partitioned_def by blast
    qed
    show "\<not> pred (xs ! k)" if "k < length xs"
      using that k r(3) [of k] by (auto split: if_splits)
  qed
  moreover have "k \<le> length xs" using k r(1) by simp
  ultimately show ?thesis by (simp add: k_def)
qed (simp add: partition_point_def)

lemma partitioned_sorted: "sorted (map f xs) \<Longrightarrow> partitioned (\<lambda>x. f x \<le> (s :: nat)) xs"
  by (auto simp: partitioned_def sorted_iff_nth_mono intro: order_trans)

section \<open>Bucket lookup\<close>

lemma level_buckets_new_Inr:
  assumes "level_buckets_new bs = Inr lb"
  shows "lb = sort_key min_severity bs" "lb \<noteq> []" "min_severity (hd lb) = 0" "duplicate_severity lb = None"
    "bucket_problem lb = None" "distinct (map (\<lambda>b. to_ascii_lowercase (lb_name b)) lb)"
  using assms by (auto simp: level_buckets_new_def Let_def sort_key_Nil_iff split: if_splits option.splits)

lemma bucket_for_takeWhile:
  assumes "level_buckets_new bs = Inr lb"
  shows "partition_point (\<lambda>b. min_severity b \<le> sev) lb = length (takeWhile (\<lambda>b. min_severity b \<le> sev) lb)"
    "0 < length (takeWhile (\<lambda>b. min_severity b \<le> sev) lb)"
proof -
  have "sorted (map min_severity lb)"
    using level_buckets_new_Inr(1) [OF assms] by simp
  then show "partition_point (\<lambda>b. min_severity b \<le> sev) lb = length (takeWhile (\<lambda>b. min_severity b \<le> sev) lb)"
    by (intro partition_point_takeWhile partitioned_sorted)
  show "0 < length (takeWhile (\<lambda>b. min_severity b \<le> sev) lb)"
    using level_buckets_new_Inr(2,3) [OF assms] by (cases lb) simp_all
qed

lemma sorted_takeWhile_iff:
  assumes "sorted (map f xs)" "x \<in> set xs" "f x \<le> (s :: nat)"
  shows "x \<in> set (takeWhile (\<lambda>x. f x \<le> s) xs)"
  using assms by (induction xs) (auto intro: order_trans)

lemma last_takeWhile_greatest:
  assumes "sorted (map f xs)" "x \<in> set (takeWhile (\<lambda>x. f x \<le> (s :: nat)) xs)"
  shows "f x \<le> f (last (takeWhile (\<lambda>x. f x \<le> s) xs))"
proof -
  obtain ys where "xs = takeWhile (\<lambda>x. f x \<le> s) xs @ ys"
    by (metis takeWhile_dropWhile_id)
  then have "sorted (map f (takeWhile (\<lambda>x. f x \<le> s) xs))"
    using assms(1) by (metis map_append sorted_append)
  then show ?thesis using assms(2) by (rule sorted_le_last)
qed

lemma bucket_for_last:
  assumes "level_buckets_new bs = Inr lb"
  shows "bucket_for lb sev = last (takeWhile (\<lambda>b. min_severity b \<le> sev) lb)"
proof -
  let ?t = "takeWhile (\<lambda>b. min_severity b \<le> sev) lb"
  have t: "partition_point (\<lambda>b. min_severity b \<le> sev) lb = length ?t" "0 < length ?t"
    using bucket_for_takeWhile [OF assms] by blast+
  have "bucket_for lb sev = ?t ! (length ?t - 1)"
    unfolding bucket_for_def t(1) using t(2) takeWhile_nth by (metis diff_less zero_less_one)
  then show ?thesis using t(2) by (simp add: last_conv_nth)
qed

text \<open>
  C23. Accepted buckets cover every severity: the binary search finds the bucket with the greatest
  minimum at or below the severity, the buckets listed for reading a severity and above include the
  bucket of every such record, and no two names are the same directory on a filesystem that ignores
  case.
\<close>

theorem buckets_cover_severities:
  assumes "level_buckets_new bs = Inr lb"
  shows "bucket_for lb sev \<in> set bs \<and> min_severity (bucket_for lb sev) \<le> sev
    \<and> (\<forall>b \<in> set bs. min_severity b \<le> sev \<longrightarrow> min_severity b \<le> min_severity (bucket_for lb sev))
    \<and> (\<forall>s \<ge> sev. lb_name (bucket_for lb s) \<in> set (names_from lb sev))
    \<and> distinct (map (\<lambda>b. to_ascii_lowercase (lb_name b)) bs)"
proof -
  let ?t = "\<lambda>s. takeWhile (\<lambda>b. min_severity b \<le> s) lb"
  have sorted: "sorted (map min_severity lb)" and set: "set lb = set bs" and perm: "mset lb = mset bs"
    using level_buckets_new_Inr(1) [OF assms] by simp_all
  have last: "bucket_for lb s \<in> set (?t s)" "bucket_for lb s = last (?t s)" for s
    using bucket_for_last [OF assms] bucket_for_takeWhile(2) [OF assms, of s] by auto
  have greatest: "min_severity b \<le> min_severity (bucket_for lb sev)" if "b \<in> set bs" "min_severity b \<le> sev" for b
    using that last_takeWhile_greatest [OF sorted] sorted_takeWhile_iff [OF sorted] unfolding last(2) set [symmetric] by blast
  have names: "lb_name (bucket_for lb s) \<in> set (names_from lb sev)" if "sev \<le> s" for s
  proof -
    have "length (?t sev) \<le> length (?t s)"
      using that by (induction lb) auto
    moreover have pos: "0 < length (?t sev)" "0 < length (?t s)"
      using bucket_for_takeWhile(2) [OF assms] by blast+
    moreover have "length (?t s) \<le> length lb" by (rule length_takeWhile_le)
    ultimately have "bucket_for lb s = drop (length (?t sev) - 1) lb ! (length (?t s) - length (?t sev))"
      "length (?t s) - length (?t sev) < length (drop (length (?t sev) - 1) lb)"
      unfolding bucket_for_def bucket_for_takeWhile(1) [OF assms] by (simp_all add: Suc_leI)
    then have "bucket_for lb s \<in> set (drop (length (?t sev) - 1) lb)"
      by (metis nth_mem)
    then show ?thesis
      unfolding names_from_def bucket_for_takeWhile(1) [OF assms] by simp
  qed
  have "distinct (map (\<lambda>b. to_ascii_lowercase (lb_name b)) bs)"
    using level_buckets_new_Inr(6) [OF assms] perm
      mset_eq_imp_distinct_iff [of "map (\<lambda>b. to_ascii_lowercase (lb_name b)) lb" "map (\<lambda>b. to_ascii_lowercase (lb_name b)) bs"]
    by simp
  moreover have "bucket_for lb sev \<in> set bs" "min_severity (bucket_for lb sev) \<le> sev"
    using set_takeWhileD [OF last(1)] set by auto
  ultimately show ?thesis
    using greatest names by blast
qed

theorem buckets_cover_severities_witness:
  "bucket_for level_buckets_default 17 \<in> set level_buckets_default
    \<and> lb_name (bucket_for level_buckets_default 17) \<in> set (names_from level_buckets_default 10)"
proof -
  have "level_buckets_new level_buckets_default = Inr level_buckets_default"
    by (simp add: level_buckets_new_def level_buckets_default_def INFO_def WARN_def bucket_name_problem_def
        is_ascii_alphanumeric_def is_ascii_alphabetic_def is_ascii_lower_def is_ascii_upper_def is_ascii_digit_def
        to_ascii_uppercase_def to_ascii_upper_char_def to_ascii_lowercase_def to_ascii_lower_char_def starts_with_def Let_def)
  from buckets_cover_severities [OF this, of 17] buckets_cover_severities [OF this, of 10] show ?thesis
    by simp
qed

section \<open>Routing\<close>

lemma find_Some: "List.find P xs = Some x \<Longrightarrow> P x \<and> x \<in> set xs"
  by (auto simp: find_Some_iff)

lemma find_append: "List.find P (xs @ ys) = (case List.find P xs of Some x \<Rightarrow> Some x | None \<Rightarrow> List.find P ys)"
  by (induction xs) auto

lemma find_filter_keep: "(\<And>x. P x \<Longrightarrow> Q x) \<Longrightarrow> List.find P (filter Q xs) = List.find P xs"
  by (induction xs) auto

lemma find_filter_none: "(\<And>x. Q x \<Longrightarrow> \<not> P x) \<Longrightarrow> List.find P (filter Q xs) = None"
  by (induction xs) auto

text \<open>The tenants an accepted configuration has all have an index.\<close>

lemma check_tenants_indexes: "check_tenants seen ts = None \<Longrightarrow> t \<in> set ts \<Longrightarrow> tn_indexes t \<noteq> []"
  by (induction seen ts rule: check_tenants.induct) (auto split: if_splits option.splits)

lemma default_of_mem: "tn_indexes c \<noteq> [] \<Longrightarrow> \<exists>i. find_index c (default_of c) = Some i \<and> ix_name i = default_of c"
proof -
  assume ne: "tn_indexes c \<noteq> []"
  have "default_of c \<in> ix_name ` set (tn_indexes c)"
    using ne by (auto simp: default_of_def split: option.split dest: find_Some)
  then have "find_index c (default_of c) \<noteq> None"
    by (auto simp: find_index_def find_None_iff)
  then show ?thesis
    by (auto simp: find_index_def dest: find_Some)
qed

lemma route_in_chosen:
  assumes "configured t tenant = Some c" "tn_indexes c \<noteq> []" "route_in t tenant req \<in> {Known i, Defaulted i}"
  shows "\<exists>ix. find_index c i = Some ix \<and> ix_name ix = i"
  using assms default_of_mem [of c]
  by (auto simp: route_in_def find_index_def dest: find_Some split: option.splits if_splits)

text \<open>
  C24. Routing decides once. A record that is not refused is given an index its tenant really has, and
  the rewritten record asks for that index: routing it again, by the receiver's key or by \<^verbatim>\<open>logless.index\<close>,
  gives the same index as known and changes nothing.
\<close>

theorem routing_is_settled:
  assumes "tenancy_new ts node = Inr t" "key \<noteq> ATTR_TENANT" "key' = key \<or> key' = ATTR_INDEX"
    and "route_record f64_text t rec key = (r, rec')" "r = Known i \<or> r = Defaulted i"
  shows "(\<exists>tenant. record_tenant t rec = Some tenant \<and> tenancy_buckets t tenant i \<noteq> None)
    \<and> route_record f64_text t rec' key' = (Known i, rec')"
proof -
  have t: "tenants t = ts" "check_tenants [] ts = None"
    using assms(1) by (auto simp: tenancy_new_def split: if_splits option.splits)
  obtain tenant where tenant: "record_tenant t rec = Some tenant"
    using assms(4,5) by (auto simp: route_record_def split: option.splits)
  define route where "route = route_in t tenant (requested_index f64_text key rec)"
  have r: "route \<in> {Known i, Defaulted i}" "r = route"
    using assms(4,5) tenant by (auto simp: route_record_def route_def Let_def split: route.splits)
  define kept where "kept = filter (\<lambda>a. attr_key a \<noteq> key \<and> attr_key a \<noteq> ATTR_INDEX) (attributes rec)"
  define extra where "extra = (if Some i \<noteq> default_index_of t tenant then [\<lparr>attr_key = ATTR_INDEX, attr_val = Str i\<rparr>] else [])"
  have rec': "rec' = rec\<lparr>attributes := kept @ extra\<rparr>"
    using assms(4) tenant r unfolding route_record_def route_def [symmetric] kept_def extra_def
    by (auto simp: route_def [symmetric] Let_def)
  obtain c where c: "configured t tenant = Some c"
    using r by (cases "configured t tenant") (auto simp: route_def route_in_def)
  then have ne: "tn_indexes c \<noteq> []"
    using t check_tenants_indexes by (auto simp: configured_def dest: find_Some)
  obtain ix where ix: "find_index c i = Some ix" "ix_name ix = i"
    using route_in_chosen [OF c ne] r unfolding route_def by blast
  have idx_ne: "ATTR_INDEX \<noteq> ATTR_TENANT" by (simp add: ATTR_INDEX_def ATTR_TENANT_def)
  have "List.find (\<lambda>a. attr_key a = ATTR_TENANT) kept = List.find (\<lambda>a. attr_key a = ATTR_TENANT) (attributes rec)"
    unfolding kept_def using assms(2) idx_ne by (intro find_filter_keep) auto
  moreover have "List.find (\<lambda>a. attr_key a = ATTR_TENANT) extra = None"
    using idx_ne by (simp add: extra_def)
  ultimately have tenant': "record_tenant t rec' = Some tenant"
    using tenant by (auto simp: record_tenant_def rec' find_append split: option.splits)
  have gone: "List.find (\<lambda>a. attr_key a = key' \<or> attr_key a = ATTR_INDEX) kept = None"
    using assms(3) by (auto simp: kept_def find_None_iff)
  then have req: "requested_index f64_text key' rec' = (if Some i \<noteq> default_index_of t tenant then Some i else None)"
    by (simp add: requested_index_def rec' find_append extra_def)
  have route': "route_in t tenant (requested_index f64_text key' rec') = Known i"
    unfolding req using c ix by (auto simp: route_in_def default_index_of_def)
  have keep: "filter (\<lambda>a. attr_key a \<noteq> key' \<and> attr_key a \<noteq> ATTR_INDEX) (kept @ extra) = kept"
    using assms(3) by (auto simp: kept_def extra_def intro!: filter_cong)
  have "route_record f64_text t rec' key' = (Known i, rec')"
    using tenant' route' keep by (simp add: route_record_def Let_def rec' extra_def)
  moreover have "tenancy_buckets t tenant i \<noteq> None"
    using c ix by (simp add: tenancy_buckets_def)
  ultimately show ?thesis using tenant by blast
qed

definition acme :: tenant_config where
  "acme = \<lparr>tn_id = ''acme'', tn_unknown_index = UseDefault, tn_indexes = [
     \<lparr>ix_name = ''main'', ix_retention = level_buckets_default\<rparr>,
     \<lparr>ix_name = ''audit'', ix_retention = [
        \<lparr>lb_name = ''warn_plus'', min_severity = 13, retention = 30 * 24 * 3600\<rparr>,
        \<lparr>lb_name = ''debug'', min_severity = 0, retention = 24 * 3600\<rparr>]\<rparr>]\<rparr>"

lemmas tenancy_eval = tenancy_new_def acme_def level_buckets_new_def level_buckets_default_def INFO_def WARN_def
  bucket_name_problem_def valid_ident_def is_ascii_alphanumeric_def is_ascii_alphabetic_def is_ascii_lower_def
  is_ascii_upper_def is_ascii_digit_def to_ascii_uppercase_def to_ascii_upper_char_def to_ascii_lowercase_def
  to_ascii_lower_char_def starts_with_def Let_def

lemma acme_accepted: "tenancy_new [acme] ''node-a'' = Inr \<lparr>tenants = [acme], own_node = ''node-a''\<rparr>"
  by (simp add: tenancy_eval)

theorem routing_is_settled_witness:
  "route_record (\<lambda>_. []) \<lparr>tenants = [acme], own_node = ''node-a''\<rparr>
     (snd (route_record (\<lambda>_. []) \<lparr>tenants = [acme], own_node = ''node-a''\<rparr>
       ((log_record_new 0 0 9 ''x'')\<lparr>attributes := [\<lparr>attr_key = ''index'', attr_val = Str ''audit''\<rparr>]\<rparr>) ''index'')) ATTR_INDEX
   = (Known ''audit'', snd (route_record (\<lambda>_. []) \<lparr>tenants = [acme], own_node = ''node-a''\<rparr>
       ((log_record_new 0 0 9 ''x'')\<lparr>attributes := [\<lparr>attr_key = ''index'', attr_val = Str ''audit''\<rparr>]\<rparr>) ''index''))"
proof -
  let ?t = "\<lparr>tenants = [acme], own_node = ''node-a''\<rparr>"
  let ?r = "(log_record_new 0 0 9 ''x'')\<lparr>attributes := [\<lparr>attr_key = ''index'', attr_val = Str ''audit''\<rparr>]\<rparr>"
  have "fst (route_record (\<lambda>_. []) ?t ?r ''index'') = Known ''audit''"
    by (simp add: route_record_def record_tenant_def own_tenant_def requested_index_def ATTR_TENANT_def ATTR_INDEX_def
        route_in_def configured_def find_index_def acme_def log_record_new_def Let_def)
  then have "route_record (\<lambda>_. []) ?t ?r ''index'' = (Known ''audit'', snd (route_record (\<lambda>_. []) ?t ?r ''index''))"
    by (metis prod.collapse)
  from routing_is_settled [OF acme_accepted _ _ this, of ATTR_INDEX "''audit''"] show ?thesis
    by (simp add: ATTR_TENANT_def)
qed

text \<open>
  C25. A configured index keeps its buckets in the order of the configuration file: validation sorts a
  copy and drops it. An index whose buckets are listed from the highest severity down is accepted, and
  its errors are then filed in the bucket of the debug lines, with their retention.
\<close>

theorem unsorted_buckets_misfile:
  "\<exists>t lb. tenancy_new [acme] ''node-a'' = Inr t \<and> tenancy_buckets t ''acme'' ''audit'' = Some lb
    \<and> min_severity (hd lb) \<le> ERROR \<and> lb_name (hd lb) = ''warn_plus'' \<and> lb_name (bucket_for lb ERROR) = ''debug''
    \<and> retention (bucket_for lb ERROR) = 24 * 3600"
proof -
  let ?lb = "[\<lparr>lb_name = ''warn_plus'', min_severity = 13, retention = 30 * 24 * 3600\<rparr>,
    \<lparr>lb_name = ''debug'', min_severity = 0, retention = 24 * 3600\<rparr>] :: level_bucket list"
  have buckets: "tenancy_buckets \<lparr>tenants = [acme], own_node = ''node-a''\<rparr> ''acme'' ''audit'' = Some ?lb"
    by (simp add: tenancy_buckets_def configured_def find_index_def acme_def)
  have "pp_search (\<lambda>b. min_severity b \<le> ERROR) ?lb 0 2 = 1"
    by (simp add: pp_search.simps [of _ _ 0 2] pp_search.simps [of _ _ "Suc 0" "Suc 0"] ERROR_def Let_def)
  then have "bucket_for ?lb ERROR = ?lb ! 1"
    by (simp add: bucket_for_def partition_point_def ERROR_def numeral_2_eq_2)
  then show ?thesis
    using acme_accepted buckets by (intro exI conjI) (assumption, assumption, simp_all add: ERROR_def)
qed

end
