(* ===== verification/Disk_Budget.thy ===== *)
theory Disk_Budget
  imports Tenancy Float64 "HOL-Library.List_Lexorder" "HOL-Library.Char_ord" "HOL-Library.Product_Lexorder"
begin

text \<open>
  The disk budget (\<^verbatim>\<open>budget.rs\<close>): pressure from the watermarks, and the selection loop that frees space
  by deleting files ahead of their retention. The catalog is the list of its file rows; whether its
  statements succeed, and what deleting a file answers, are arguments.
\<close>

section \<open>Definitions\<close>

record watermarks =
  wm_high :: rat
  wm_critical :: rat
  wm_reclaim_target :: rat

text \<open>The doubles nearest to 0.80, 0.95 and 0.70.\<close>

definition watermarks_default :: watermarks where
  "watermarks_default = \<lparr>wm_high = f64_div 80 100, wm_critical = f64_div 95 100, wm_reclaim_target = f64_div 70 100\<rparr>"

datatype pressure = Normal | High | Critical

definition admits_debug :: "pressure \<Rightarrow> bool" where
  "admits_debug p \<longleftrightarrow> p \<noteq> Critical"

record disk_usage =
  wal_bytes :: nat
  store_bytes :: nat
  budget_bytes :: nat

record file_stats =
  fs_rows :: nat
  fs_bytes :: nat
  fs_min_ts :: int

record file_entry =
  fe_path :: path
  fe_key :: partition_key
  fe_stats :: file_stats

text \<open>The bytes of the two WAL directories, and the catalog's total where it can be read.\<close>

definition measure_usage :: "nat \<Rightarrow> nat \<Rightarrow> nat option \<Rightarrow> nat \<Rightarrow> disk_usage" where
  "measure_usage wal late totals budget =
     \<lparr>wal_bytes = wal + late, store_bytes = (case totals of Some b \<Rightarrow> b | None \<Rightarrow> 0), budget_bytes = budget\<rparr>"

definition used :: "disk_usage \<Rightarrow> nat" where
  "used u = wal_bytes u + store_bytes u"

definition fraction :: "disk_usage \<Rightarrow> rat" where
  "fraction u = (if budget_bytes u = 0 then 0 else f64_quot (f64_of_u64 (used u)) (f64_of_u64 (budget_bytes u)))"

definition pressure_of :: "disk_usage \<Rightarrow> watermarks \<Rightarrow> pressure" where
  "pressure_of u wm = (let f = fraction u in
     if wm_critical wm \<le> f then Critical else if wm_high wm \<le> f then High else Normal)"

record reclaim_report =
  files_dropped :: "path list"
  partitions_touched :: "partition_key list"
  bytes_reclaimed :: nat
  rows_lost :: nat
  exhausted :: bool
  rr_pinned_kept :: nat

definition reclaim_report_default :: reclaim_report where
  "reclaim_report_default = \<lparr>files_dropped = [], partitions_touched = [], bytes_reclaimed = 0, rows_lost = 0,
     exhausted = False, rr_pinned_kept = 0\<rparr>"

text \<open>The derived order of \<^verbatim>\<open>PartitionKey\<close>.\<close>

definition key_order :: "partition_key \<Rightarrow> string \<times> string \<times> nat \<times> string \<times> string" where
  "key_order k = (pk_tenant k, pk_index k, pk_epoch_hour k, pk_bucket k, pk_node k)"

definition cost_order :: "tenancy \<Rightarrow> file_entry \<Rightarrow> nat \<times> int \<times> path" where
  "cost_order t f = (
     case Option.bind (tenancy_buckets t (pk_tenant (fe_key f)) (pk_index (fe_key f))) (\<lambda>b. by_name b (pk_bucket (fe_key f))) of
       Some b \<Rightarrow> retention b
     | None \<Rightarrow> u64_max,
     fs_min_ts (fe_stats f), fe_path f)"

definition target_bytes :: "disk_usage \<Rightarrow> watermarks \<Rightarrow> nat" where
  "target_bytes u wm = f64_as_u64 (f64_mult (f64_of_u64 (budget_bytes u)) (wm_reclaim_target wm))"

text \<open>
  The loop over the sorted files: the bytes still in use, the dropped files, and the state in which
  \<open>delete\<close> runs (the source's \<^verbatim>\<open>FnMut\<close>).
\<close>

fun reclaim_loop :: "path \<Rightarrow> nat \<Rightarrow> ('s \<Rightarrow> path \<Rightarrow> bool \<times> 's) \<Rightarrow> file_entry list \<Rightarrow> nat \<Rightarrow> 's \<Rightarrow> nat \<times> file_entry list \<times> 's" where
  "reclaim_loop store_dir target delete [] u s = (u, [], s)"
| "reclaim_loop store_dir target delete (f # fs) u s =
     (if u \<le> target then (u, [], s)
      else if \<not> starts_with store_dir (fe_path f) then reclaim_loop store_dir target delete fs u s
      else (case delete s (fe_path f) of
          (False, s') \<Rightarrow> reclaim_loop store_dir target delete fs u s'
        | (True, s') \<Rightarrow>
            (let (u', dropped, s'') = reclaim_loop store_dir target delete fs (u - fs_bytes (fe_stats f)) s'
             in (u', f # dropped, s''))))"

definition reclaim_files :: "('s \<Rightarrow> path \<Rightarrow> bool \<times> 's) \<Rightarrow> file_entry list \<Rightarrow> path \<Rightarrow> tenancy \<Rightarrow> disk_usage \<Rightarrow> watermarks \<Rightarrow> 's
    \<Rightarrow> reclaim_report \<times> 's" where
  "reclaim_files delete files store_dir t usage wm s = (
     let target = target_bytes usage wm in
     if used usage \<le> target then (reclaim_report_default, s)
     else (let (u, dropped, s') = reclaim_loop store_dir target delete (sort_key (cost_order t) files) (used usage) s
           in (\<lparr>files_dropped = map fe_path dropped,
                partitions_touched = sort_key key_order (remdups (map fe_key dropped)),
                bytes_reclaimed = sum_list (map (fs_bytes \<circ> fe_stats) dropped),
                rows_lost = sum_list (map (fs_rows \<circ> fe_stats) dropped),
                exhausted = (target < u), rr_pinned_kept = 0\<rparr>, s')))"

datatype catalog_error = CatalogError

text \<open>
  The catalog rows and the files on disk. \<open>listed\<close> and \<open>forgets\<close> say whether the two catalog statements
  succeed, \<open>removes\<close> whether a file on disk can be unlinked.
\<close>

record disk =
  rows_of :: "file_entry list"
  on_disk :: "path list"

definition remove_file :: "bool \<Rightarrow> (path \<Rightarrow> bool) \<Rightarrow> path list \<Rightarrow> path \<Rightarrow> bool \<times> path list" where
  "remove_file dry_run removes paths p = (
     if dry_run then (True, paths)
     else if p \<in> set paths \<and> removes p then (True, removeAll p paths)
     else (False, paths))"

definition reclaim_pinned :: "bool \<Rightarrow> bool \<Rightarrow> (path \<Rightarrow> bool) \<Rightarrow> path \<Rightarrow> disk \<Rightarrow> tenancy \<Rightarrow> disk_usage \<Rightarrow> watermarks \<Rightarrow> bool
    \<Rightarrow> path set \<Rightarrow> (catalog_error + reclaim_report) \<times> disk" where
  "reclaim_pinned listed forgets removes store_dir d t usage wm dry_run pinned = (
     if \<not> listed then (Inl CatalogError, d)
     else (let kept = filter (\<lambda>f. fe_path f \<in> pinned) (rows_of d);
               files = filter (\<lambda>f. fe_path f \<notin> pinned) (rows_of d);
               (report, disk') = reclaim_files (remove_file dry_run removes) files store_dir t usage wm (on_disk d);
               report' = report\<lparr>rr_pinned_kept := length kept\<rparr>;
               d' = d\<lparr>on_disk := disk'\<rparr>
           in if \<not> dry_run \<and> files_dropped report' \<noteq> [] then
                (if forgets then (Inr report', d'\<lparr>rows_of := filter (\<lambda>f. fe_path f \<notin> set (files_dropped report')) (rows_of d)\<rparr>)
                 else (Inl CatalogError, d'))
              else (Inr report', d')))"

definition reclaim :: "bool \<Rightarrow> bool \<Rightarrow> (path \<Rightarrow> bool) \<Rightarrow> path \<Rightarrow> disk \<Rightarrow> tenancy \<Rightarrow> disk_usage \<Rightarrow> watermarks \<Rightarrow> bool
    \<Rightarrow> (catalog_error + reclaim_report) \<times> disk" where
  "reclaim listed forgets removes store_dir d t usage wm dry_run =
     reclaim_pinned listed forgets removes store_dir d t usage wm dry_run {}"

section \<open>Specification\<close>

text \<open>The shortest front part of the candidates that brings the use down to the target.\<close>

fun spend :: "nat \<Rightarrow> nat \<Rightarrow> file_entry list \<Rightarrow> file_entry list" where
  "spend target u [] = []"
| "spend target u (f # fs) = (if u \<le> target then [] else f # spend target (u - fs_bytes (fe_stats f)) fs)"

abbreviation total_bytes_of :: "file_entry list \<Rightarrow> nat" where
  "total_bytes_of fs \<equiv> sum_list (map (fs_bytes \<circ> fe_stats) fs)"

lemma spend_prefix: "prefix (spend target u fs) fs"
  by (induction target u fs rule: spend.induct) auto

lemma spend_minimal: "spend target u fs \<noteq> [] \<Longrightarrow> target < u - total_bytes_of (butlast (spend target u fs))"
proof (induction target u fs rule: spend.induct)
  case (2 target u f fs)
  then show ?case by (cases "spend target (u - fs_bytes (fe_stats f)) fs = []") (auto split: if_splits)
qed simp

lemma spend_all: "target < u - total_bytes_of (spend target u fs) \<Longrightarrow> spend target u fs = fs"
  by (induction target u fs rule: spend.induct) (auto split: if_splits)

lemma spend_under: "u \<le> target \<Longrightarrow> spend target u fs = []"
  by (cases fs) simp_all

text \<open>The loop with real deletions, and the loop of a dry run.\<close>

lemma reclaim_loop_removes:
  assumes "distinct (map fe_path fs)"
  shows "reclaim_loop store_dir target (remove_file False removes) fs u s = (
    let spent = spend target u (filter (\<lambda>f. starts_with store_dir (fe_path f) \<and> fe_path f \<in> set s \<and> removes (fe_path f)) fs)
    in (u - total_bytes_of spent, spent, filter (\<lambda>p. p \<notin> fe_path ` set spent) s))"
  using assms
proof (induction fs arbitrary: u s)
  case Nil
  show ?case by simp
next
  case (Cons f fs)
  let ?P = "\<lambda>s f. starts_with store_dir (fe_path f) \<and> fe_path f \<in> set s \<and> removes (fe_path f)"
  show ?case
  proof (cases "u \<le> target")
    case True
    then show ?thesis by (simp add: spend_under)
  next
    case over: False
    show ?thesis
    proof (cases "?P s f")
      case False
      then have "reclaim_loop store_dir target (remove_file False removes) (f # fs) u s
          = reclaim_loop store_dir target (remove_file False removes) fs u s"
        "filter (?P s) (f # fs) = filter (?P s) fs"
        using over by (auto simp: remove_file_def)
      moreover have "distinct (map fe_path fs)"
        using Cons.prems by simp
      ultimately show ?thesis by (simp only: Cons.IH)
    next
      case True
      let ?s = "removeAll (fe_path f) s"
      have cand: "filter (?P ?s) fs = filter (?P s) fs"
        using Cons.prems by (intro filter_cong) (auto simp: image_iff)
      have gone: "filter (\<lambda>p. p \<notin> X) (removeAll q s) = filter (\<lambda>p. p \<notin> insert q X) s" for X q
        by (auto simp: removeAll_filter_not_eq intro!: filter_cong)
      have rm: "remove_file False removes s (fe_path f) = (True, ?s)"
        using True by (simp add: remove_file_def)
      have "distinct (map fe_path fs)"
        using Cons.prems by simp
      note ih = Cons.IH [OF this, of "u - fs_bytes (fe_stats f)" ?s, unfolded cand]
      show ?thesis
        using over True by (simp add: rm ih Let_def gone del: set_removeAll)
    qed
  qed
qed

lemma reclaim_loop_dry:
  "reclaim_loop store_dir target (remove_file True removes) fs u s = (
    let spent = spend target u (filter (\<lambda>f. starts_with store_dir (fe_path f)) fs) in (u - total_bytes_of spent, spent, s))"
  by (induction fs arbitrary: u) (auto simp: remove_file_def Let_def spend_under)

definition removable :: "(path \<Rightarrow> bool) \<Rightarrow> path \<Rightarrow> path list \<Rightarrow> path set \<Rightarrow> file_entry \<Rightarrow> bool" where
  "removable removes store_dir paths pinned f \<longleftrightarrow>
     fe_path f \<notin> pinned \<and> starts_with store_dir (fe_path f) \<and> fe_path f \<in> set paths \<and> removes (fe_path f)"

definition report_of :: "nat \<Rightarrow> nat \<Rightarrow> file_entry list \<Rightarrow> nat \<Rightarrow> reclaim_report" where
  "report_of target u spent kept = \<lparr>files_dropped = map fe_path spent,
     partitions_touched = sort_key key_order (remdups (map fe_key spent)),
     bytes_reclaimed = total_bytes_of spent, rows_lost = sum_list (map (fs_rows \<circ> fe_stats) spent),
     exhausted = (target < u - total_bytes_of spent), rr_pinned_kept = kept\<rparr>"

lemma distinct_map_sort_key: "distinct (map f (sort_key k xs)) = distinct (map f xs)"
  by (intro mset_eq_imp_distinct_iff) simp

lemma reclaim_pinned_spends:
  assumes "distinct (map fe_path (rows_of d))"
    and "spent = spend (target_bytes usage wm) (used usage)
      (filter (removable removes store_dir (on_disk d) pinned) (sort_key (cost_order t) (rows_of d)))"
  shows "reclaim_pinned True True removes store_dir d t usage wm False pinned =
    (Inr (report_of (target_bytes usage wm) (used usage) spent (length (filter (\<lambda>f. fe_path f \<in> pinned) (rows_of d)))),
     d\<lparr>rows_of := filter (\<lambda>f. fe_path f \<notin> fe_path ` set spent) (rows_of d),
       on_disk := filter (\<lambda>p. p \<notin> fe_path ` set spent) (on_disk d)\<rparr>)"
proof -
  let ?files = "sort_key (cost_order t) (filter (\<lambda>f. fe_path f \<notin> pinned) (rows_of d))"
  have "distinct (map fe_path ?files)"
    using assms(1) by (simp add: distinct_map_sort_key distinct_map_filter)
  note loop = reclaim_loop_removes [OF this, of store_dir "target_bytes usage wm" removes "used usage" "on_disk d"]
  have cand: "filter (\<lambda>f. starts_with store_dir (fe_path f) \<and> fe_path f \<in> set (on_disk d) \<and> removes (fe_path f)) ?files
      = filter (removable removes store_dir (on_disk d) pinned) (sort_key (cost_order t) (rows_of d))"
    by (auto simp: filter_sort [symmetric] removable_def intro!: arg_cong [where f = "sort_key (cost_order t)"] filter_cong)
  show ?thesis
  proof (cases "used usage \<le> target_bytes usage wm")
    case True
    then show ?thesis
      using assms(2) by (simp add: reclaim_pinned_def reclaim_files_def reclaim_report_default_def report_of_def spend_under Let_def)
  next
    case False
    then show ?thesis
      using loop assms(2) unfolding cand
      by (auto simp: reclaim_pinned_def reclaim_files_def report_of_def Let_def)
  qed
qed

section \<open>Properties\<close>


definition sample_entry :: "string \<Rightarrow> string \<Rightarrow> nat \<Rightarrow> file_entry" where
  "sample_entry level name b = \<lparr>fe_path = [''store'', ''tenant=default'', level, name],
     fe_key = partition_key_new ''default'' ''default'' 0 level ''node-a'',
     fe_stats = \<lparr>fs_rows = 1, fs_bytes = b, fs_min_ts = 0\<rparr>\<rparr>"

definition sample_disk :: disk where
  "sample_disk = \<lparr>rows_of = [sample_entry ''info'' ''a'' 10, sample_entry ''debug'' ''b'' 20],
     on_disk = [fe_path (sample_entry ''info'' ''a'' 10), fe_path (sample_entry ''debug'' ''b'' 20)]\<rparr>"

definition sample_usage :: disk_usage where
  "sample_usage = \<lparr>wal_bytes = 0, store_bytes = 30, budget_bytes = 20\<rparr>"

lemma sample_disk_rows:
  "distinct (map fe_path (rows_of sample_disk))"
  "list_all (\<lambda>f. fe_path f \<in> set (on_disk sample_disk) \<and> True) (rows_of sample_disk)"
  by (simp_all add: sample_disk_def sample_entry_def)




end
