(* ===== verification/Base64url.thy ===== *)
theory Base64url
  imports Prelude
begin

text \<open>
  Base64url without padding, as the tokens use it: the strict decoder of \<^verbatim>\<open>auth.rs\<close> (\<^verbatim>\<open>b64url\<close>) and the
  encoder of \<^verbatim>\<open>auth/s3.rs\<close> (\<^verbatim>\<open>b64\<close>). The decoder's accumulator never holds more than 12 bits, so its
  32-bit shifts are multiplications and divisions of naturals.
\<close>

section \<open>Definitions\<close>

definition ALPHABET :: string where
  "ALPHABET = ''ABCDEFGHIJKLMNOPQRSTUVWXYZabcdefghijklmnopqrstuvwxyz0123456789-_''"

definition b64url_val :: "char \<Rightarrow> nat option" where
  "b64url_val c = (let b = of_char c :: nat in
     if 65 \<le> b \<and> b \<le> 90 then Some (b - 65)
     else if 97 \<le> b \<and> b \<le> 122 then Some (b - 97 + 26)
     else if 48 \<le> b \<and> b \<le> 57 then Some (b - 48 + 52)
     else if c = CHR ''-'' then Some 62
     else if c = CHR ''_'' then Some 63
     else None)"

fun b64url_loop :: "nat \<Rightarrow> nat \<Rightarrow> string \<Rightarrow> bytes option" where
  "b64url_loop acc bits [] = (if acc = 0 then Some [] else None)"
| "b64url_loop acc bits (c # s) = (case b64url_val c of
     None \<Rightarrow> None
   | Some v \<Rightarrow>
       let acc = acc * 64 + v; bits = bits + 6
       in if 8 \<le> bits
          then map_option ((#) (of_nat (acc div 2 ^ (bits - 8)))) (b64url_loop (acc mod 2 ^ (bits - 8)) (bits - 8) s)
          else b64url_loop acc bits s)"

definition b64url :: "string \<Rightarrow> bytes option" where
  "b64url s = (if length s mod 4 = 1 then None else b64url_loop 0 0 s)"

definition b64_chunk :: "bytes \<Rightarrow> string" where
  "b64_chunk chunk = (let n = foldl (\<lambda>acc b. acc * 256 + unat b) 0 chunk * 2 ^ (8 * (3 - length chunk)) in
     map (\<lambda>i. ALPHABET ! (n div 2 ^ (18 - 6 * i) mod 64)) [0..<length chunk + 1])"

fun b64 :: "bytes \<Rightarrow> string" where
  "b64 (a # b # c # rest) = b64_chunk [a, b, c] @ b64 rest"
| "b64 [] = []"
| "b64 chunk = b64_chunk chunk"

section \<open>The alphabet\<close>

definition letter_code :: "nat \<Rightarrow> nat" where
  "letter_code v = (if v < 26 then 65 + v else if v < 52 then 71 + v else if v < 62 then v - 4 else if v = 62 then 45 else 95)"

lemma alphabet_letters: "map of_char ALPHABET = map letter_code [0..<64]"
  by (simp add: ALPHABET_def upt_rec letter_code_def del: upt_Suc)

lemma alphabet_nth: "i < 64 \<Longrightarrow> of_char (ALPHABET ! i) = letter_code i"
  using arg_cong [OF alphabet_letters, of "\<lambda>xs. xs ! i"] arg_cong [OF alphabet_letters, of length] by simp

lemma of_char_inj: "of_char c = (of_char d :: nat) \<Longrightarrow> c = d"
  by simp

lemma b64url_val_code:
  "b64url_val c = Some v \<longleftrightarrow> v < 64 \<and> of_char c = letter_code v"
proof -
  have dash: "c = CHR ''-'' \<longleftrightarrow> of_char c = (45 :: nat)"
    using of_char_inj [of c "CHR ''-''"] by auto
  have under: "c = CHR ''_'' \<longleftrightarrow> of_char c = (95 :: nat)"
    using of_char_inj [of c "CHR ''_''"] by auto
  show ?thesis
    unfolding b64url_val_def Let_def dash under letter_code_def by auto
qed

lemma alphabet_val [simp]: "i < 64 \<Longrightarrow> b64url_val (ALPHABET ! i) = Some i"
  by (simp add: b64url_val_code alphabet_nth)

lemma val_alphabet:
  assumes "b64url_val c = Some v"
  shows "v < 64" "ALPHABET ! v = c"
  using assms alphabet_nth [of v] of_char_inj [of "ALPHABET ! v" c] by (simp_all add: b64url_val_code)

section \<open>Groups of four characters\<close>

definition sextets :: "bytes \<Rightarrow> nat list" where
  "sextets chunk = (case chunk of
     [a] \<Rightarrow> [unat a div 4, unat a mod 4 * 16]
   | [a, b] \<Rightarrow> [unat a div 4, unat a mod 4 * 16 + unat b div 16, unat b mod 16 * 4]
   | [a, b, c] \<Rightarrow> [unat a div 4, unat a mod 4 * 16 + unat b div 16, unat b mod 16 * 4 + unat c div 64, unat c mod 64]
   | _ \<Rightarrow> [])"

lemma unat_byte [simp]: "unat (b :: byte) < 256"
  using unsigned_less [of b] by simp

lemma sextet_arith:
  fixes a b c :: nat
  assumes "a < 256" "b < 256" "c < 256"
  shows "((a * 256 + b) * 256 + c) div 262144 mod 64 = a div 4"
    "((a * 256 + b) * 256 + c) div 4096 mod 64 = a mod 4 * 16 + b div 16"
    "((a * 256 + b) * 256 + c) div 64 mod 64 = b mod 16 * 4 + c div 64"
    "((a * 256 + b) * 256 + c) mod 64 = c mod 64"
proof -
  have m2: "(x * 16 + q) mod 64 = x mod 4 * 16 + q" if "q < 16" for x q :: nat
    using that mod_mult2_eq [of "x * 16 + q" 16 4] by simp
  have m3: "(x * 4 + q) mod 64 = x mod 16 * 4 + q" if "q < 4" for x q :: nat
    using that mod_mult2_eq [of "x * 4 + q" 4 16] by simp
  have d4: "(x * 256 + y) div 16 = x * 16 + y div 16" for x y :: nat by presburger
  have d6: "(x * 256 + y) div 64 = x * 4 + y div 64" for x y :: nat by presburger
  have lo: "(x * 256 + y) mod 16 = y mod 16" "(x * 256 + y) mod 64 = y mod 64" for x y :: nat
    using mod_mult_self3 [of "x * 16" 16 y] mod_mult_self3 [of "x * 4" 64 y] by (simp_all add: mult.commute)
  have "((a * 256 + b) * 256 + c) div 262144 = a div 4"
    using assms div_mult2_eq [of "(a * 256 + b) * 256 + c" 256 1024] div_mult2_eq [of "a * 256 + b" 256 4] by simp
  then show "((a * 256 + b) * 256 + c) div 262144 mod 64 = a div 4"
    using assms(1) by simp
  have "((a * 256 + b) * 256 + c) div 4096 = a * 16 + b div 16"
    using assms(3) div_mult2_eq [of "(a * 256 + b) * 256 + c" 256 16] d4 [of a b] by simp
  then show "((a * 256 + b) * 256 + c) div 4096 mod 64 = a mod 4 * 16 + b div 16"
    using m2 [of "b div 16" a] assms(2) by simp
  show "((a * 256 + b) * 256 + c) div 64 mod 64 = b mod 16 * 4 + c div 64"
    using m3 [of "c div 64" "a * 256 + b"] d6 [of "a * 256 + b" c] lo(1) [of a b] assms(3) by simp
  show "((a * 256 + b) * 256 + c) mod 64 = c mod 64"
    by (rule lo(2))
qed

lemma b64_chunk_sextets:
  "b64_chunk [a] = map ((!) ALPHABET) (sextets [a])"
  "b64_chunk [a, b] = map ((!) ALPHABET) (sextets [a, b])"
  "b64_chunk [a, b, c] = map ((!) ALPHABET) (sextets [a, b, c])"
proof -
  define n where "n x y z = (x * 256 + y) * 256 + z" for x y z :: nat
  have n: "foldl (\<lambda>acc b. acc * 256 + unat b) 0 [a] * 2 ^ (8 * (3 - length [a])) = n (unat a) 0 0"
    "foldl (\<lambda>acc b. acc * 256 + unat b) 0 [a, b] * 2 ^ (8 * (3 - length [a, b])) = n (unat a) (unat b) 0"
    "foldl (\<lambda>acc b. acc * 256 + unat b) 0 [a, b, c] * 2 ^ (8 * (3 - length [a, b, c])) = n (unat a) (unat b) (unat c)"
    by (simp_all add: n_def)
  have arith: "n x y z div 262144 mod 64 = x div 4" "n x y z div 4096 mod 64 = x mod 4 * 16 + y div 16"
    "n x y z div 64 mod 64 = y mod 16 * 4 + z div 64" "n x y z mod 64 = z mod 64" if "x < 256" "y < 256" "z < 256" for x y z
    unfolding n_def by (rule sextet_arith [OF that])+
  have upt: "[0..<2] = [0, 1 :: nat]" "[0..<3] = [0, 1, 2 :: nat]" "[0..<4] = [0, 1, 2, 3 :: nat]"
    by (simp_all add: upt_rec)
  show "b64_chunk [a] = map ((!) ALPHABET) (sextets [a])"
    unfolding b64_chunk_def Let_def n by (simp add: sextets_def upt arith)
  show "b64_chunk [a, b] = map ((!) ALPHABET) (sextets [a, b])"
    unfolding b64_chunk_def Let_def n by (simp add: sextets_def upt arith)
  show "b64_chunk [a, b, c] = map ((!) ALPHABET) (sextets [a, b, c])"
    unfolding b64_chunk_def Let_def n by (simp add: sextets_def upt arith)
qed

text \<open>What the decoder does with the sextets of a chunk, and with four characters of any input.\<close>

lemma regroup:
  fixes a p m q :: nat
  shows "q < 16 \<Longrightarrow> (a div 4 * 64 + (a mod 4 * 16 + q)) div 16 = a"
    "q < 16 \<Longrightarrow> (a div 4 * 64 + (a mod 4 * 16 + q)) mod 16 = q"
    "q < 4 \<Longrightarrow> (p * 64 + (m * 4 + q)) div 4 = p * 16 + m"
    "q < 4 \<Longrightarrow> (p * 64 + (m * 4 + q)) mod 4 = q"
proof -
  have one: "a div 4 * 64 + (a mod 4 * 16 + q) = a * 16 + q"
    using div_mult_mod_eq [of a 4] by linarith
  show "q < 16 \<Longrightarrow> (a div 4 * 64 + (a mod 4 * 16 + q)) div 16 = a"
    "q < 16 \<Longrightarrow> (a div 4 * 64 + (a mod 4 * 16 + q)) mod 16 = q"
    unfolding one by simp_all
  have two: "p * 64 + (m * 4 + q) = (p * 16 + m) * 4 + q"
    by simp
  show "q < 4 \<Longrightarrow> (p * 64 + (m * 4 + q)) div 4 = p * 16 + m"
    "q < 4 \<Longrightarrow> (p * 64 + (m * 4 + q)) mod 4 = q"
    unfolding two using mod_mult_self3 [of "p * 16 + m" 4 q] by simp_all
qed

lemma sextets_small: "unat (a :: byte) div 4 < 64" "unat (a :: byte) mod 4 * 16 + unat (b :: byte) div 16 < 64"
  "unat (b :: byte) mod 16 * 4 + unat (c :: byte) div 64 < 64" "unat (a :: byte) mod 4 * 16 < 64" "unat (b :: byte) mod 16 * 4 < 64"
proof -
  have "unat a mod 4 < 4" "unat b mod 16 < 16" "unat a < 256" "unat b < 256" "unat c < 256"
    by simp_all
  then show "unat a div 4 < 64" "unat a mod 4 * 16 + unat b div 16 < 64"
    "unat b mod 16 * 4 + unat c div 64 < 64" "unat a mod 4 * 16 < 64" "unat b mod 16 * 4 < 64"
    by linarith+
qed

lemma b64url_steps:
  assumes "b64url_val c = Some v"
  shows "b64url_loop 0 0 (c # s) = b64url_loop v 6 s"
    "b64url_loop acc 6 (c # s)
      = map_option ((#) (of_nat ((acc * 64 + v) div 16))) (b64url_loop ((acc * 64 + v) mod 16) 4 s)"
    "b64url_loop acc 4 (c # s)
      = map_option ((#) (of_nat ((acc * 64 + v) div 4))) (b64url_loop ((acc * 64 + v) mod 4) 2 s)"
    "b64url_loop acc 2 (c # s) = map_option ((#) (of_nat (acc * 64 + v))) (b64url_loop 0 0 s)"
  using assms by (simp_all add: Let_def del: of_nat_add of_nat_mult)

declare b64url_loop.simps(2) [simp del]

lemma of_unat [simp]: "of_nat (unat (b :: byte)) = b"
  by simp

lemma decode_chunk:
  "b64url_loop 0 0 (b64_chunk [a, b, c] @ s) = map_option (\<lambda>bs. a # b # c # bs) (b64url_loop 0 0 s)"
  "b64url_loop 0 0 (b64_chunk [a, b]) = Some [a, b]"
  "b64url_loop 0 0 (b64_chunk [a]) = Some [a]"
proof -
  have b: "unat b div 16 < 16" and c: "unat c div 64 < 4"
    using unat_byte [of b] unat_byte [of c] by linarith+
  note v = sextets_small [THEN alphabet_val]
  have bytes: "(unat a div 4 * 64 + (unat a mod 4 * 16 + unat b div 16)) div 16 = unat a"
    "(unat a div 4 * 64 + (unat a mod 4 * 16 + unat b div 16)) mod 16 = unat b div 16"
    "(unat b div 16 * 64 + (unat b mod 16 * 4 + unat c div 64)) div 4 = unat b"
    "(unat b div 16 * 64 + (unat b mod 16 * 4 + unat c div 64)) mod 4 = unat c div 64"
    "unat c div 64 * 64 + unat c mod 64 = unat c"
    using regroup(1,2) [OF b, of "unat a"] regroup(3,4) [OF c, of "unat b div 16" "unat b mod 16"] by simp_all
  have ends: "(unat b div 16 * 64 + unat b mod 16 * 4) div 4 = unat b" "(unat b div 16 * 64 + unat b mod 16 * 4) mod 4 = 0"
    "(unat a div 4 * 64 + unat a mod 4 * 16) div 16 = unat a" "(unat a div 4 * 64 + unat a mod 4 * 16) mod 16 = 0"
    using regroup(3,4) [of 0 "unat b div 16" "unat b mod 16"] regroup(1,2) [of 0 "unat a"] by simp_all
  have last: "b64url_val (ALPHABET ! (unat c mod 64)) = Some (unat c mod 64)"
    by simp
  have s3: "b64_chunk [a, b, c] = [ALPHABET ! (unat a div 4), ALPHABET ! (unat a mod 4 * 16 + unat b div 16),
      ALPHABET ! (unat b mod 16 * 4 + unat c div 64), ALPHABET ! (unat c mod 64)]"
    and s2: "b64_chunk [a, b] = [ALPHABET ! (unat a div 4), ALPHABET ! (unat a mod 4 * 16 + unat b div 16), ALPHABET ! (unat b mod 16 * 4)]"
    and s1: "b64_chunk [a] = [ALPHABET ! (unat a div 4), ALPHABET ! (unat a mod 4 * 16)]"
    by (simp_all only: b64_chunk_sextets sextets_def list.case list.map)
  show "b64url_loop 0 0 (b64_chunk [a, b, c] @ s) = map_option (\<lambda>bs. a # b # c # bs) (b64url_loop 0 0 s)"
    unfolding s3 append.simps b64url_steps(1) [OF v(1)] b64url_steps(2) [OF v(2)] b64url_steps(3) [OF v(3)]
      b64url_steps(4) [OF last] bytes of_unat by (simp add: option.map_comp comp_def)
  show "b64url_loop 0 0 (b64_chunk [a, b]) = Some [a, b]"
    unfolding s2 b64url_steps(1) [OF v(1)] b64url_steps(2) [OF v(2)] bytes b64url_steps(3) [OF v(5)] ends of_unat by simp
  show "b64url_loop 0 0 (b64_chunk [a]) = Some [a]"
    unfolding s1 b64url_steps(1) [OF v(1)] b64url_steps(2) [OF v(4)] ends of_unat by simp
qed

lemma length_b64_chunk [simp]: "length (b64_chunk chunk) = length chunk + 1"
  by (simp add: b64_chunk_def Let_def del: upt_Suc)

lemma length_b64: "length (b64 bs) mod 4 \<noteq> 1"
  by (induction bs rule: b64.induct) simp_all

lemma decode_encode: "b64url (b64 bs) = Some bs"
proof -
  have "b64url_loop 0 0 (b64 bs) = Some bs"
    by (induction bs rule: b64.induct) (simp_all add: decode_chunk)
  then show ?thesis
    using length_b64 [of bs] by (simp add: b64url_def)
qed

text \<open>The other direction: a string the decoder accepts is the encoding of what it gives.\<close>

lemma unat_of_byte: "n < 256 \<Longrightarrow> unat (of_nat n :: byte) = n"
  by (simp add: unat_of_nat)

lemma b64url_loop_Cons:
  "b64url_loop acc bits (c # s) = Some bs \<Longrightarrow> \<exists>v. b64url_val c = Some v"
  by (cases "b64url_val c") (simp_all add: b64url_loop.simps(2))

lemma encode_bytes:
  assumes "v1 < 64" "v2 < 64" "v3 < 64" "v4 < 64"
  defines "a \<equiv> of_nat ((v1 * 64 + v2) div 16) :: byte" and "b \<equiv> of_nat ((v2 mod 16 * 64 + v3) div 4) :: byte"
    and "c \<equiv> of_nat (v3 mod 4 * 64 + v4) :: byte"
  shows "sextets [a, b, c] = [v1, v2, v3, v4]" "v3 mod 4 = 0 \<Longrightarrow> sextets [a, b] = [v1, v2, v3]"
    "v2 mod 16 = 0 \<Longrightarrow> sextets [a] = [v1, v2]"
proof -
  have a: "unat a = v1 * 4 + v2 div 16"
    unfolding a_def using assms(1,2) div_mult_self3 [of 16 "v1 * 4" v2]
    by (subst unat_of_byte) (simp_all add: mult.commute less_mult_imp_div_less)
  have b: "unat b = v2 mod 16 * 16 + v3 div 4"
    unfolding b_def using assms(3) div_mult_self3 [of 4 "v2 mod 16 * 16" v3] pos_mod_bound
    by (subst unat_of_byte) (simp_all add: mult.commute less_mult_imp_div_less)
  have c: "unat c = v3 mod 4 * 64 + v4"
    unfolding c_def using assms(4) by (intro unat_of_byte) (simp add: mod_less_divisor)
  have q: "v2 div 16 < 4" "v3 div 4 < 16"
    using assms(2,3) by linarith+
  then have "(v1 * 4 + v2 div 16) div 4 = v1" "(v1 * 4 + v2 div 16) mod 4 = v2 div 16"
    "(v2 mod 16 * 16 + v3 div 4) div 16 = v2 mod 16" "(v2 mod 16 * 16 + v3 div 4) mod 16 = v3 div 4"
    "(v3 mod 4 * 64 + v4) div 64 = v3 mod 4" "(v3 mod 4 * 64 + v4) mod 64 = v4"
    using assms(4) by simp_all
  note parts = this a b c
  show "sextets [a, b, c] = [v1, v2, v3, v4]"
    using q assms(4) by (simp add: sextets_def parts)
  show "v3 mod 4 = 0 \<Longrightarrow> sextets [a, b] = [v1, v2, v3]"
    using q div_mult_mod_eq [of v3 4] by (simp add: sextets_def parts)
  show "v2 mod 16 = 0 \<Longrightarrow> sextets [a] = [v1, v2]"
    using q div_mult_mod_eq [of v2 16] by (simp add: sextets_def parts)
qed

lemma decoded_chunk:
  assumes "b64url_loop 0 0 s = Some bs" "length s mod 4 \<noteq> 1"
  shows "b64 bs = s"
  using assms
proof (induction s arbitrary: bs rule: length_induct)
  case (1 s)
  have "s = [] \<or> (\<exists>c1 c2 r. s = c1 # c2 # r)"
    using "1.prems"(2) by (cases s; cases "tl s") auto
  then show ?case
  proof (elim disjE exE)
    assume "s = []"
    then show ?thesis using "1.prems"(1) by simp
  next
    fix c1 c2 r
    assume s: "s = c1 # c2 # r"
    obtain v1 where v1: "b64url_val c1 = Some v1"
      using "1.prems"(1) b64url_loop_Cons unfolding s by blast
    note one = "1.prems"(1) [unfolded s b64url_steps(1) [OF v1]]
    obtain v2 where v2: "b64url_val c2 = Some v2"
      using one b64url_loop_Cons by blast
    let ?a = "of_nat ((v1 * 64 + v2) div 16) :: byte"
    have m2: "(v1 * 64 + v2) mod 16 = v2 mod 16"
      using mod_mult_self3 [of "v1 * 4" 16 v2] by (simp add: mult.commute)
    obtain b1 where b1: "bs = ?a # b1" "b64url_loop (v2 mod 16) 4 r = Some b1"
      using one unfolding b64url_steps(2) [OF v2] m2 by auto
    note al = val_alphabet [OF v1] val_alphabet [OF v2]
    show ?thesis
    proof (cases r)
      case Nil
      then have "v2 mod 16 = 0" "b1 = []" using b1(2) by (auto split: if_splits)
      then show ?thesis
        using encode_bytes(3) [of v1 v2 0 0] al by (simp add: b1(1) b64_chunk_sextets s Nil)
    next
      case (Cons c3 r3)
      obtain v3 where v3: "b64url_val c3 = Some v3"
        using b1(2) b64url_loop_Cons unfolding Cons by blast
      let ?b = "of_nat ((v2 mod 16 * 64 + v3) div 4) :: byte"
      have m3: "(v2 mod 16 * 64 + v3) mod 4 = v3 mod 4"
        using mod_mult_self3 [of "v2 mod 16 * 16" 4 v3] by (simp add: mult.commute)
      obtain b2 where b2: "b1 = ?b # b2" "b64url_loop (v3 mod 4) 2 r3 = Some b2"
        using b1(2) unfolding Cons b64url_steps(3) [OF v3] m3 by auto
      note al = al val_alphabet [OF v3]
      show ?thesis
      proof (cases r3)
        case Nil
        then have "v3 mod 4 = 0" "b2 = []" using b2(2) by (auto split: if_splits)
        then show ?thesis
          using encode_bytes(2) [of v1 v2 v3 0] al by (simp add: b1(1) b2(1) b64_chunk_sextets s Cons Nil)
      next
        case (Cons c4 r4)
        obtain v4 where v4: "b64url_val c4 = Some v4"
          using b2(2) b64url_loop_Cons unfolding Cons by blast
        let ?c = "of_nat (v3 mod 4 * 64 + v4) :: byte"
        obtain b3 where b3: "b2 = ?c # b3" "b64url_loop 0 0 r4 = Some b3"
          using b2(2) unfolding Cons b64url_steps(4) [OF v4] by auto
        have "b64 b3 = r4"
          using "1.IH" b3(2) "1.prems"(2) by (simp add: s \<open>r = c3 # r3\<close> Cons)
        then show ?thesis
          using encode_bytes(1) [of v1 v2 v3 v4] al val_alphabet [OF v4]
          by (simp add: b1(1) b2(1) b3(1) b64_chunk_sextets s \<open>r = c3 # r3\<close> Cons del: of_nat_add of_nat_mult)
      qed
    qed
  qed
qed

text \<open>
  C28. The token encoding is one to one: the decoder gives every byte string back from its encoding, and
  a string it accepts is exactly the encoding of what it gives. So no byte string has a second
  spelling: padding, characters of the other alphabet and stray bits are all refused.
\<close>

theorem b64_one_to_one: "b64url s = Some bs \<longleftrightarrow> s = b64 bs"
  using decode_encode [of bs] decoded_chunk [of s bs] by (auto simp: b64url_def split: if_splits)

end
