(* ===== verification/Auth.thy ===== *)
theory Auth
  imports Tenancy Base64url Float64 "HOL-Library.AList"
begin

text \<open>
  Who may do what (\<^verbatim>\<open>auth.rs\<close>): principals and the permission table, tokens signed by the broker with
  the cache of its keys, the decision for a request, the counters per principal, and the binding of a
  batch of records to its principal before it enters the pipeline. SHA-256, the JSON parser and the
  Ed25519 verification are arguments (\<open>auth_env\<close>), and so is what a fetch of the key set answers. A
  JSON number that is not an integer is carried as the rational value of its double. The cache file of
  the key set and the log lines are not modelled.
\<close>

section \<open>Principals\<close>

datatype kind = KIngest | KNode | KReplica | KReader | KAdmin | KUser
datatype op = OIngest | OParts | OReplica | OAdmin | ORead | OS3Credentials
datatype listener = LPeer | LHec | LOtlp | LSentry | LAdmin | LS3
datatype indexes = AllIndexes | Only "string list"
datatype source = Static | Token | Anonymous | Session

fun kind_as_str :: "kind \<Rightarrow> string" where
  "kind_as_str KIngest = ''ingest''"
| "kind_as_str KNode = ''node''"
| "kind_as_str KReplica = ''replica''"
| "kind_as_str KReader = ''reader''"
| "kind_as_str KAdmin = ''admin''"
| "kind_as_str KUser = ''user''"

definition kind_parse :: "string \<Rightarrow> kind option" where
  "kind_parse s =
     (if s = ''ingest'' then Some KIngest else if s = ''node'' then Some KNode
      else if s = ''replica'' then Some KReplica else if s = ''reader'' then Some KReader
      else if s = ''admin'' then Some KAdmin else if s = ''user'' then Some KUser else None)"

fun may :: "kind \<Rightarrow> op \<Rightarrow> bool" where
  "may KIngest OIngest = True"
| "may KNode OIngest = True"
| "may KNode OParts = True"
| "may KReplica OReplica = True"
| "may KAdmin OAdmin = True"
| "may KReader ORead = True"
| "may KUser OS3Credentials = True"
| "may KReader OS3Credentials = True"
| "may _ _ = False"

fun source_as_str :: "source \<Rightarrow> string" where
  "source_as_str Static = ''static''"
| "source_as_str Token = ''token''"
| "source_as_str Anonymous = ''anonymous''"
| "source_as_str Session = ''s3-session''"

definition allows :: "indexes \<Rightarrow> string \<Rightarrow> bool" where
  "allows ix index = (case ix of AllIndexes \<Rightarrow> True | Only list \<Rightarrow> list_ex (\<lambda>i. i = index) list)"

definition indexes_from_list :: "string list \<Rightarrow> indexes" where
  "indexes_from_list list = (if list_ex (\<lambda>i. i = ''*'') list then AllIndexes else Only list)"

definition indexes_to_list :: "indexes \<Rightarrow> string list" where
  "indexes_to_list ix = (case ix of AllIndexes \<Rightarrow> [''*''] | Only list \<Rightarrow> list)"

record principal =
  pr_id :: string
  pr_kind :: kind
  pr_tenant :: string
  pr_indexes :: indexes
  pr_scopes :: "string list"
  pr_roles :: "string list"
  pr_source :: source
  pr_expires :: "nat option"
  pr_only_at :: "listener option"

definition counter_key :: "principal \<Rightarrow> string" where
  "counter_key p = pr_tenant p @ ''/'' @ pr_id p"

text \<open>\<^verbatim>\<open>find_map\<close>.\<close>

fun find_map :: "('a \<Rightarrow> 'b option) \<Rightarrow> 'a list \<Rightarrow> 'b option" where
  "find_map f [] = None"
| "find_map f (x # xs) = (case f x of Some y \<Rightarrow> Some y | None \<Rightarrow> find_map f xs)"

definition principal_default_index :: "tenancy \<Rightarrow> principal \<Rightarrow> string option" where
  "principal_default_index t p = (case default_index_of t (pr_tenant p) of
     None \<Rightarrow> None
   | Some def \<Rightarrow>
       if allows (pr_indexes p) def then Some def
       else (case pr_indexes p of
           AllIndexes \<Rightarrow> Some def
         | Only list \<Rightarrow> find_map (\<lambda>i. index_of t (pr_tenant p) i) list))"

datatype refusal = Missing | UnknownKey | Malformed | Alg | UnknownKid | Signature | Claims | Issuer
  | Audience | Expired | NotYetValid | UnknownTenant | WrongKind | NodeMismatch | WrongTenant | Scope

definition is_token_failure :: "refusal \<Rightarrow> bool" where
  "is_token_failure r \<longleftrightarrow> r \<noteq> Missing \<and> r \<noteq> UnknownKey"

section \<open>JSON\<close>

datatype json = JNull | JBool bool | JU64 nat | JNeg int | JF64 rat | JStr string
  | JArr "json list" | JObj "(string \<times> json) list"

fun json_as_str :: "json \<Rightarrow> string option" where
  "json_as_str (JStr s) = Some s"
| "json_as_str _ = None"

fun json_as_object :: "json \<Rightarrow> (string \<times> json) list option" where
  "json_as_object (JObj ob) = Some ob"
| "json_as_object _ = None"

fun json_as_u64 :: "json \<Rightarrow> nat option" where
  "json_as_u64 (JU64 n) = Some n"
| "json_as_u64 _ = None"

definition json_text :: "(string \<times> json) list \<Rightarrow> string \<Rightarrow> string option" where
  "json_text ob name = (case Option.bind (map_of ob name) json_as_str of
     Some s \<Rightarrow> if s \<noteq> [] then Some s else None | None \<Rightarrow> None)"

definition json_seconds :: "(string \<times> json) list \<Rightarrow> string \<Rightarrow> nat option" where
  "json_seconds ob name = (case map_of ob name of
     Some (JU64 n) \<Rightarrow> Some n
   | Some (JF64 x) \<Rightarrow> if 0 \<le> x then Some (f64_as_u64 x) else None
   | _ \<Rightarrow> None)"

fun all_strings :: "json list \<Rightarrow> string list option" where
  "all_strings [] = Some []"
| "all_strings (j # js) = (case json_as_str j of
     None \<Rightarrow> None | Some s \<Rightarrow> map_option ((#) s) (all_strings js))"

definition json_list :: "(string \<times> json) list \<Rightarrow> string \<Rightarrow> string list option" where
  "json_list ob name = (case map_of ob name of
     None \<Rightarrow> Some []
   | Some (JArr items) \<Rightarrow> all_strings items
   | Some _ \<Rightarrow> None)"

section \<open>Tokens of the broker\<close>

definition UNKNOWN_KID_REFRESH_SECS :: nat where "UNKNOWN_KID_REFRESH_SECS = 60"
definition MAX_TOKEN_LEN :: nat where "MAX_TOKEN_LEN = 8 * 1024"
definition MAX_COUNTED_PRINCIPALS :: nat where "MAX_COUNTED_PRINCIPALS = 1024"

record auth_env =
  sha256 :: "string \<Rightarrow> bytes"
  json_parse :: "bytes \<Rightarrow> json option"
  ed25519_ok :: "bytes \<Rightarrow> string \<Rightarrow> bytes \<Rightarrow> bool"

record claims =
  cl_sub :: string
  cl_name :: "string option"
  cl_tenant :: string
  cl_kind :: kind
  cl_indexes :: indexes
  cl_scopes :: "string list"
  cl_roles :: "string list"
  cl_exp :: nat

record key_set =
  ks_keys :: "(string \<times> string) list"
  ks_fetched :: nat
  ks_etag :: "string option"
  ks_issuer :: string

record refresh_state =
  rs_last_attempt :: nat
  rs_last_error :: "string option"
  rs_last_error_at :: nat
  rs_refreshes :: nat
  rs_failures :: nat

record jwt =
  jw_issuer :: string
  jw_audience :: string
  jw_skew :: nat
  jw_keys :: key_set
  jw_has_source :: bool
  jw_state :: refresh_state

datatype fetched = NotModified | Body bytes "string option"

definition jwt_new :: "string \<Rightarrow> string \<Rightarrow> nat \<Rightarrow> bool \<Rightarrow> jwt" where
  "jwt_new issuer audience skew source =
     \<lparr>jw_issuer = issuer, jw_audience = audience, jw_skew = skew,
      jw_keys = \<lparr>ks_keys = [], ks_fetched = 0, ks_etag = None, ks_issuer = issuer\<rparr>, jw_has_source = source,
      jw_state = \<lparr>rs_last_attempt = 0, rs_last_error = None, rs_last_error_at = 0, rs_refreshes = 0, rs_failures = 0\<rparr>\<rparr>"

definition jwt_key :: "jwt \<Rightarrow> string \<Rightarrow> bytes option" where
  "jwt_key j kid = Option.bind (map_of (ks_keys (jw_keys j)) kid) b64url"

text \<open>One entry of the \<^verbatim>\<open>keys\<close> array: an entry that is not an Ed25519 key is passed over.\<close>

definition jwks_entry :: "json \<Rightarrow> (string \<times> string) option" where
  "jwks_entry key = (
     let field = (\<lambda>name. Option.bind (Option.bind (json_as_object key) (\<lambda>ob. map_of ob name)) json_as_str)
     in if field ''kty'' \<noteq> Some ''OKP'' \<or> field ''crv'' \<noteq> Some ''Ed25519'' then None
        else (case (field ''kid'', field ''x'') of
            (Some kid, Some x) \<Rightarrow>
              (case b64url x of Some raw \<Rightarrow> if length raw = 32 then Some (kid, x) else None | None \<Rightarrow> None)
          | _ \<Rightarrow> None))"

definition parse_jwks :: "auth_env \<Rightarrow> bytes \<Rightarrow> string + (string \<times> string) list" where
  "parse_jwks env bs = (case json_parse env bs of
     None \<Rightarrow> Inl ''the key set is not JSON''
   | Some doc \<Rightarrow>
       (case Option.bind (json_as_object doc) (\<lambda>ob. map_of ob ''keys'') of
          Some (JArr keys) \<Rightarrow>
            (let out = fold (\<lambda>key m. case jwks_entry key of Some (kid, x) \<Rightarrow> AList.update kid x m | None \<Rightarrow> m) keys []
             in if out = [] then Inl ''the key set holds no Ed25519 key'' else Inr out)
        | _ \<Rightarrow> Inl ''the key set has no `keys` array''))"

definition jwt_refresh :: "auth_env \<Rightarrow> string + fetched \<Rightarrow> nat \<Rightarrow> jwt \<Rightarrow> bool \<times> jwt" where
  "jwt_refresh env answer now j = (
     if \<not> jw_has_source j then (False, j)
     else
       let outcome = (case answer of
             Inl e \<Rightarrow> Inl e
           | Inr NotModified \<Rightarrow> Inr None
           | Inr (Body bs etag) \<Rightarrow> (case parse_jwks env bs of Inl e \<Rightarrow> Inl e | Inr keys \<Rightarrow> Inr (Some (keys, etag))));
           st = (jw_state j)\<lparr>rs_last_attempt := max now 1\<rparr>
       in case outcome of
            Inr new \<Rightarrow>
              (let ks = (case new of None \<Rightarrow> jw_keys j
                         | Some (keys, etag) \<Rightarrow> (jw_keys j)\<lparr>ks_keys := keys, ks_etag := etag\<rparr>)
               in (True, j\<lparr>jw_keys := ks\<lparr>ks_fetched := now\<rparr>,
                     jw_state := st\<lparr>rs_refreshes := rs_refreshes st + 1, rs_last_error := None\<rparr>\<rparr>))
          | Inl e \<Rightarrow> (False, j\<lparr>jw_state := st\<lparr>rs_failures := rs_failures st + 1, rs_last_error := Some e,
                rs_last_error_at := now\<rparr>\<rparr>))"

definition refresh_for_unknown_kid :: "auth_env \<Rightarrow> string + fetched \<Rightarrow> nat \<Rightarrow> jwt \<Rightarrow> bool \<times> jwt" where
  "refresh_for_unknown_kid env answer now j = (
     if \<not> jw_has_source j then (False, j)
     else if rs_last_attempt (jw_state j) \<noteq> 0 \<and> now - rs_last_attempt (jw_state j) < UNKNOWN_KID_REFRESH_SECS
     then (False, j)
     else jwt_refresh env answer now (j\<lparr>jw_state := (jw_state j)\<lparr>rs_last_attempt := max now 1\<rparr>\<rparr>))"

definition looks_like_jwt :: "string \<Rightarrow> bool" where
  "looks_like_jwt value \<longleftrightarrow> length value \<le> MAX_TOKEN_LEN \<and> starts_with ''eyJ'' value
     \<and> length (filter (\<lambda>b. b = CHR ''.'') value) = 2"

text \<open>Step 1 of \<^verbatim>\<open>verify_at\<close>: the header, and the key id it names.\<close>

definition token_kid :: "auth_env \<Rightarrow> string \<Rightarrow> refusal + string" where
  "token_kid env head = (case Option.bind (Option.bind (b64url head) (json_parse env)) json_as_object of
     None \<Rightarrow> Inl Malformed
   | Some header \<Rightarrow>
       if Option.bind (map_of header ''alg'') json_as_str \<noteq> Some ''EdDSA'' then Inl Alg
       else if (map_of header ''typ'' \<noteq> None \<and> map_of header ''typ'' \<noteq> Some (JStr ''JWT''))
               \<or> map_of header ''crit'' \<noteq> None then Inl Malformed
       else (case json_text header ''kid'' of None \<Rightarrow> Inl Malformed | Some kid \<Rightarrow> Inr kid))"

text \<open>Step 4: the claims, read only once the signature is good.\<close>

definition token_claims :: "auth_env \<Rightarrow> jwt \<Rightarrow> nat \<Rightarrow> string \<Rightarrow> refusal + claims" where
  "token_claims env j now payload = (case Option.bind (Option.bind (b64url payload) (json_parse env)) json_as_object of
     None \<Rightarrow> Inl Claims
   | Some ob \<Rightarrow>
       if map_of ob ''aud'' = None then Inl Claims
       else (case (json_text ob ''iss'', json_text ob ''sub'', json_seconds ob ''exp'', json_seconds ob ''iat'',
                   json_text ob ''jti'', json_text ob ''tenant'', json_text ob ''kind'') of
           (Some iss, Some sub, Some expires, Some iat, Some jti, Some tenant, Some kind) \<Rightarrow>
             if iss \<noteq> jw_issuer j then Inl Issuer
             else if Option.bind (map_of ob ''aud'') json_as_str \<noteq> Some (jw_audience j) then Inl Audience
             else if expires \<le> now - jw_skew j then Inl Expired
             else if saturating_add_u64 now (jw_skew j) < iat then Inl NotYetValid
             else (case kind_parse kind of
                 None \<Rightarrow> Inl Claims
               | Some k \<Rightarrow>
                   if \<not> valid_ident tenant then Inl Claims
                   else (case (json_list ob ''indexes'', json_list ob ''scopes'', json_list ob ''roles'') of
                       (Some ix, Some scopes, Some roles) \<Rightarrow>
                         Inr \<lparr>cl_sub = sub, cl_name = json_text ob ''name'', cl_tenant = tenant, cl_kind = k,
                              cl_indexes = indexes_from_list ix, cl_scopes = scopes, cl_roles = roles, cl_exp = expires\<rparr>
                     | _ \<Rightarrow> Inl Claims))
         | _ \<Rightarrow> Inl Claims))"

definition jwt_verify_at :: "auth_env \<Rightarrow> string + fetched \<Rightarrow> string \<Rightarrow> nat \<Rightarrow> jwt \<Rightarrow> (refusal + claims) \<times> jwt" where
  "jwt_verify_at env answer token now j = (case split_on (CHR ''.'') token of
     [head, payload, signature] \<Rightarrow>
       (case token_kid env head of
          Inl r \<Rightarrow> (Inl r, j)
        | Inr kid \<Rightarrow>
            (let (key, j') = (case jwt_key j kid of
                   Some key \<Rightarrow> (Some key, j)
                 | None \<Rightarrow> (case refresh_for_unknown_kid env answer now j of
                     (fresh, j') \<Rightarrow> (if fresh then jwt_key j' kid else None, j')))
             in case key of
                  None \<Rightarrow> (Inl UnknownKid, j')
                | Some key \<Rightarrow>
                    (case b64url signature of
                       None \<Rightarrow> (Inl Signature, j')
                     | Some sig \<Rightarrow>
                         if \<not> ed25519_ok env key (take (length head + 1 + length payload) token) sig then (Inl Signature, j')
                         else (token_claims env j' now payload, j'))))
   | _ \<Rightarrow> (Inl Malformed, j))"

section \<open>The decision for a request\<close>

record principal_counters =
  pc_kind :: string
  pc_source :: string
  pc_requests :: u64
  pc_records :: u64
  pc_index_defaulted :: u64
  pc_index_refused :: u64
  pc_refused :: u64
  pc_last_seen :: nat

definition counters_default :: principal_counters where
  "counters_default = \<lparr>pc_kind = [], pc_source = [], pc_requests = 0, pc_records = 0, pc_index_defaulted = 0,
     pc_index_refused = 0, pc_refused = 0, pc_last_seen = 0\<rparr>"

record verifier =
  vf_tenancy :: tenancy
  vf_statics :: "(bytes \<times> principal list) list"
  vf_readers :: "(principal \<times> string) list"
  vf_anonymous :: principal
  vf_jwt :: "jwt option"
  vf_s3_credentials_issued :: u64
  vf_route_indexes :: bool
  vf_routes_defaulted :: u64
  vf_routes_refused :: u64
  vf_refused :: "refusal \<Rightarrow> u64"
  vf_by_principal :: "(string \<times> principal_counters) list"

definition ct_eq :: "bytes \<Rightarrow> bytes \<Rightarrow> bool" where
  "ct_eq a b \<longleftrightarrow> fold (\<lambda>(x, y) diff. or diff (xor x y)) (zip a b) 0 = 0"

definition static_principal :: "listener \<Rightarrow> bytes \<Rightarrow> verifier \<Rightarrow> principal option" where
  "static_principal l presented_digest v = (case map_of (vf_statics v) presented_digest of
     None \<Rightarrow> None
   | Some found \<Rightarrow>
       (case List.find (\<lambda>p. case pr_only_at p of None \<Rightarrow> True | Some at_l \<Rightarrow> at_l = l) found of
          Some p \<Rightarrow> if ct_eq presented_digest presented_digest then Some p else None
        | None \<Rightarrow> None))"

definition verify_at :: "auth_env \<Rightarrow> string + fetched \<Rightarrow> listener \<Rightarrow> string \<Rightarrow> nat \<Rightarrow> verifier \<Rightarrow> (refusal + principal) \<times> verifier" where
  "verify_at env answer l presented now v =
     (case static_principal l (sha256 env presented) v of
          Some p \<Rightarrow> (Inr p, v)
        | None \<Rightarrow>
            (case vf_jwt v of
               None \<Rightarrow> (Inl UnknownKey, v)
             | Some j \<Rightarrow>
                 if \<not> looks_like_jwt presented then (Inl UnknownKey, v)
                 else (case jwt_verify_at env answer presented now j of
                     (Inl r, j') \<Rightarrow> (Inl r, v\<lparr>vf_jwt := Some j'\<rparr>)
                   | (Inr c, j') \<Rightarrow>
                       (if \<not> has_tenant (vf_tenancy v) (cl_tenant c) then Inl UnknownTenant
                        else Inr \<lparr>pr_id = (case cl_name c of Some n \<Rightarrow> n | None \<Rightarrow> cl_sub c), pr_kind = cl_kind c,
                               pr_tenant = cl_tenant c, pr_indexes = cl_indexes c, pr_scopes = cl_scopes c,
                               pr_roles = cl_roles c, pr_source = Token, pr_expires = Some (cl_exp c), pr_only_at = None\<rparr>,
                        v\<lparr>vf_jwt := Some j'\<rparr>))))"

definition count_principal :: "nat \<Rightarrow> principal \<Rightarrow> (principal_counters \<Rightarrow> principal_counters) \<Rightarrow> verifier \<Rightarrow> verifier" where
  "count_principal now p upd v = (
     let m = vf_by_principal v;
         key = (if MAX_COUNTED_PRINCIPALS \<le> length m \<and> map_of m (counter_key p) = None then ''(others)'' else counter_key p);
         entry = (case map_of m key of Some c \<Rightarrow> c | None \<Rightarrow> counters_default)
     in v\<lparr>vf_by_principal := AList.update key
          (upd (entry\<lparr>pc_kind := kind_as_str (pr_kind p), pc_source := source_as_str (pr_source p), pc_last_seen := now\<rparr>)) m\<rparr>)"

definition refuse :: "refusal \<Rightarrow> verifier \<Rightarrow> verifier" where
  "refuse r v = v\<lparr>vf_refused := (vf_refused v)(r := vf_refused v r + 1)\<rparr>"

definition authorize ::
  "auth_env \<Rightarrow> string + fetched \<Rightarrow> nat \<Rightarrow> listener \<Rightarrow> op \<Rightarrow> bool \<Rightarrow> string option \<Rightarrow> verifier \<Rightarrow> (refusal + principal) \<times> verifier" where
  "authorize env answer now l oper is_closed presented v = (
     let (who, v1) = (case presented of
           None \<Rightarrow> (if is_closed then Inl Missing else Inr (vf_anonymous v), v)
         | Some value \<Rightarrow>
             if MAX_TOKEN_LEN < length value then (Inl UnknownKey, v)
             else (case verify_at env answer l value now v of
                 (Inl reason, v1) \<Rightarrow>
                   (if \<not> is_closed \<and> \<not> is_token_failure reason then Inr (vf_anonymous v) else Inl reason, v1)
               | (Inr p, v1) \<Rightarrow> (Inr p, v1)));
         (who2, v2) = (case who of
           Inl r \<Rightarrow> (Inl r, v1)
         | Inr p \<Rightarrow>
             if may (pr_kind p) oper then (Inr p, v1)
             else (Inl WrongKind, count_principal now p (\<lambda>c. c\<lparr>pc_refused := pc_refused c + 1\<rparr>) v1))
     in (who2, case who2 of Inl r \<Rightarrow> refuse r v2 | Inr _ \<Rightarrow> v2))"

section \<open>Binding a batch to its principal\<close>

record admitted_counts =
  ad_defaulted :: nat
  ad_refused :: nat

datatype not_admitted = BatchWrongTenant | BatchIndex

definition unknown_index_of :: "tenancy \<Rightarrow> string \<Rightarrow> unknown_index option" where
  "unknown_index_of t tenant = map_option tn_unknown_index (configured t tenant)"

text \<open>The inner loop over the attributes of one record: \<open>None\<close> when the record names another tenant.\<close>

fun scan_attrs :: "(u64 \<Rightarrow> string) \<Rightarrow> string \<Rightarrow> string \<Rightarrow> string option \<Rightarrow> attr list \<Rightarrow> string option option" where
  "scan_attrs f64_text tenant key requested [] = Some requested"
| "scan_attrs f64_text tenant key requested (a # as) =
     (if attr_key a = ATTR_TENANT then
        (if attr_val a = Str tenant then scan_attrs f64_text tenant key requested as else None)
      else if requested = None \<and> (attr_key a = key \<or> attr_key a = ATTR_INDEX)
      then scan_attrs f64_text tenant key (Some (attr_text f64_text (attr_val a))) as
      else scan_attrs f64_text tenant key requested as)"

text \<open>The index chosen for a record, and whether it was sent to the default one.\<close>

definition choose_index :: "verifier \<Rightarrow> principal \<Rightarrow> string option \<Rightarrow> string option \<times> bool" where
  "choose_index v p requested = (
     let t = vf_tenancy v; d = principal_default_index t p
     in if \<not> vf_route_indexes v then (Some [], False)
        else case requested of
          None \<Rightarrow> (d, False)
        | Some r \<Rightarrow>
            (case (case index_of t (pr_tenant p) r of Some i \<Rightarrow> if allows (pr_indexes p) i then Some i else None | None \<Rightarrow> None) of
               Some i \<Rightarrow> (Some i, False)
             | None \<Rightarrow>
                 if unknown_index_of t (pr_tenant p) = Some UseDefault \<and> d \<noteq> None then (d, True) else (None, False)))"

fun choose_all :: "(u64 \<Rightarrow> string) \<Rightarrow> verifier \<Rightarrow> principal \<Rightarrow> string \<Rightarrow> log_record list \<Rightarrow> (string option \<times> bool) list option" where
  "choose_all f64_text v p key [] = Some []"
| "choose_all f64_text v p key (r # rs) =
     (case scan_attrs f64_text (pr_tenant p) key None (attributes r) of
        None \<Rightarrow> None
      | Some requested \<Rightarrow> map_option ((#) (choose_index v p requested)) (choose_all f64_text v p key rs))"

definition bind_record :: "verifier \<Rightarrow> principal \<Rightarrow> string \<Rightarrow> string \<Rightarrow> log_record \<Rightarrow> log_record" where
  "bind_record v p key index r = (
     if \<not> vf_route_indexes v then r\<lparr>attributes := filter (\<lambda>a. attr_key a \<noteq> ATTR_TENANT) (attributes r)\<rparr>
     else r\<lparr>attributes :=
       filter (\<lambda>a. attr_key a \<noteq> key \<and> attr_key a \<noteq> ATTR_INDEX \<and> attr_key a \<noteq> ATTR_TENANT) (attributes r)
       @ (if Some index \<noteq> default_index_of (vf_tenancy v) (pr_tenant p)
          then [\<lparr>attr_key = ATTR_INDEX, attr_val = Str index\<rparr>] else [])
       @ (if pr_tenant p \<noteq> own_tenant (vf_tenancy v)
          then [\<lparr>attr_key = ATTR_TENANT, attr_val = Str (pr_tenant p)\<rparr>] else [])\<rparr>)"

fun bind_all :: "verifier \<Rightarrow> principal \<Rightarrow> string \<Rightarrow> log_record list \<Rightarrow> (string option \<times> bool) list \<Rightarrow> log_record list" where
  "bind_all v p key (r # rs) ((Some index, _) # cs) = bind_record v p key index r # bind_all v p key rs cs"
| "bind_all v p key (r # rs) ((None, _) # cs) = bind_all v p key rs cs"
| "bind_all v p key _ _ = []"

definition admit ::
  "(u64 \<Rightarrow> string) \<Rightarrow> nat \<Rightarrow> principal \<Rightarrow> log_record list \<Rightarrow> string \<Rightarrow> bool \<Rightarrow> verifier
    \<Rightarrow> (not_admitted + admitted_counts \<times> log_record list) \<times> verifier" where
  "admit f64_text now p records key whole v = (case choose_all f64_text v p key records of
     None \<Rightarrow> (Inl BatchWrongTenant, count_principal now p (\<lambda>c. c\<lparr>pc_refused := pc_refused c + 1\<rparr>) v)
   | Some chosen \<Rightarrow>
       let defaulted = length (filter snd chosen); refused = length (filter (\<lambda>c. fst c = None) chosen);
           v1 = v\<lparr>vf_routes_defaulted := vf_routes_defaulted v + of_nat defaulted,
                  vf_routes_refused := vf_routes_refused v + of_nat refused\<rparr>
       in if whole \<and> 0 < refused
          then (Inl BatchIndex, count_principal now p (\<lambda>c. c\<lparr>pc_index_refused := pc_index_refused c + of_nat refused\<rparr>) v1)
          else let kept = bind_all v p key records chosen
               in (Inr (\<lparr>ad_defaulted = defaulted, ad_refused = refused\<rparr>, kept),
                   count_principal now p (\<lambda>c. c\<lparr>pc_requests := pc_requests c + 1, pc_records := pc_records c + of_nat (length kept),
                     pc_index_defaulted := pc_index_defaulted c + of_nat defaulted,
                     pc_index_refused := pc_index_refused c + of_nat refused\<rparr>) v1))"

section \<open>Tokens vouch for their principals\<close>

lemma kind_parse_as_str [simp]: "kind_parse (kind_as_str k) = Some k"
  by (cases k) (simp_all add: kind_parse_def)

lemma kind_parse_Some: "kind_parse s = Some k \<Longrightarrow> s = kind_as_str k"
  by (auto simp: kind_parse_def split: if_splits)

lemma fold_or_zero: "fold (\<lambda>(x, y) diff. or diff (xor x y)) xys d = 0 \<longleftrightarrow> d = (0 :: byte) \<and> (\<forall>(x, y) \<in> set xys. x = y)"
proof (induction xys arbitrary: d)
  case (Cons xy xys)
  have "xor x y = 0 \<longleftrightarrow> x = y" for x y :: byte
    by (metis xor.assoc xor.left_neutral xor.right_neutral xor_self_eq)
  then have "or d (xor x y) = 0 \<longleftrightarrow> d = 0 \<and> x = y" for x y :: byte
    by (simp add: or_eq_0_iff)
  with Cons show ?case by (cases xy) auto
qed simp

lemma ct_eq_iff: "length a = length b \<Longrightarrow> ct_eq a b \<longleftrightarrow> a = b"
  unfolding ct_eq_def fold_or_zero by (induction a b rule: list_induct2) auto

lemma token_claims_Inr:
  assumes "token_claims env j now payload = Inr c"
  shows "\<exists>ob. Option.bind (b64url payload) (json_parse env) = Some (JObj ob)
    \<and> json_text ob ''iss'' = Some (jw_issuer j) \<and> map_of ob ''aud'' = Some (JStr (jw_audience j))
    \<and> json_text ob ''tenant'' = Some (cl_tenant c) \<and> valid_ident (cl_tenant c)
    \<and> json_text ob ''kind'' = Some (kind_as_str (cl_kind c))
    \<and> map_option indexes_from_list (json_list ob ''indexes'') = Some (cl_indexes c)
    \<and> json_seconds ob ''exp'' = Some (cl_exp c) \<and> now - jw_skew j < cl_exp c
    \<and> (\<exists>iat. json_seconds ob ''iat'' = Some iat \<and> iat \<le> saturating_add_u64 now (jw_skew j))"
proof -
  have obj: "json_as_object d = Some ob \<longleftrightarrow> d = JObj ob" for d ob
    by (cases d) auto
  have str: "json_as_str d = Some x \<longleftrightarrow> d = JStr x" for d x
    by (cases d) auto
  show ?thesis
    using assms
    by (auto simp: token_claims_def obj str bind_eq_Some_conv not_le not_less dest!: kind_parse_Some
        split: option.splits if_splits)
qed

lemma split_three: "split_on c s = [x, y, z] \<Longrightarrow> s = x @ [c] @ y @ [c] @ z"
proof -
  have join: "join [c] (split_on c s) = s" for s
  proof (induction s)
    case (Cons x s)
    have "join [c] ((x # y) # ys) = x # join [c] (y # ys)" for y ys
      by (cases ys) simp_all
    with Cons show ?case
      by (cases "split_on c s") auto
  qed simp
  then show "split_on c s = [x, y, z] \<Longrightarrow> s = x @ [c] @ y @ [c] @ z"
    by (metis append.assoc join.simps(2,3))
qed

lemma refresh_keeps_identity:
  "refresh_for_unknown_kid env answer now j = (fresh, j') \<Longrightarrow>
     jw_issuer j' = jw_issuer j \<and> jw_audience j' = jw_audience j \<and> jw_skew j' = jw_skew j"
  by (auto simp: refresh_for_unknown_kid_def jwt_refresh_def Let_def split: if_splits sum.splits fetched.splits option.splits)

text \<open>What an accepted token is: three parts, a key of the broker's set, a good signature, good claims.\<close>

lemma jwt_verify_at_Inr:
  assumes "jwt_verify_at env answer token now j = (Inr c, j')"
  obtains head payload signature kid key sig where "token = head @ ''.'' @ payload @ ''.'' @ signature"
    "token_kid env head = Inr kid" "jwt_key j' kid = Some key" "b64url signature = Some sig"
    "ed25519_ok env key (head @ ''.'' @ payload) sig" "token_claims env j' now payload = Inr c"
    "jw_issuer j' = jw_issuer j" "jw_audience j' = jw_audience j" "jw_skew j' = jw_skew j"
proof -
  obtain head payload signature where parts: "split_on (CHR ''.'') token = [head, payload, signature]"
    using assms by (auto simp: jwt_verify_at_def split: list.splits)
  then have token: "token = head @ ''.'' @ payload @ ''.'' @ signature"
    using split_three by fastforce
  obtain kid where kid: "token_kid env head = Inr kid"
    using assms parts by (auto simp: jwt_verify_at_def split: sum.splits)
  obtain key where key: "jwt_key j' kid = Some key"
     "jw_issuer j' = jw_issuer j" "jw_audience j' = jw_audience j" "jw_skew j' = jw_skew j"
    and rest: "(case b64url signature of None \<Rightarrow> (Inl Signature, j') | Some sig \<Rightarrow>
      if \<not> ed25519_ok env key (take (length head + 1 + length payload) token) sig then (Inl Signature, j')
      else (token_claims env j' now payload, j')) = (Inr c, j')"
  proof (cases "jwt_key j kid")
    case None
    obtain fresh j1 where r: "refresh_for_unknown_kid env answer now j = (fresh, j1)"
      by (metis surj_pair)
    with None assms parts kid refresh_keeps_identity [OF r] that show ?thesis
      by (auto simp: jwt_verify_at_def split: if_splits option.splits)
  next
    case (Some key)
    with assms parts kid that show ?thesis
      by (auto simp: jwt_verify_at_def split: if_splits option.splits)
  qed
  have "take (length head + 1 + length payload) token = head @ ''.'' @ payload"
    by (simp add: token)
  with rest obtain sig where "b64url signature = Some sig" "ed25519_ok env key (head @ ''.'' @ payload) sig"
    "token_claims env j' now payload = Inr c"
    by (auto split: option.splits if_splits)
  with token kid key show ?thesis
    by (intro that) simp_all
qed

text \<open>
  C29. A token is believed only when the broker vouches for it. If a request is accepted as a principal
  that came from a token, then the token has three parts, the key its header names is in the broker's
  key set (the cached one, or the one just fetched), the signature is good over the first two parts as
  received, and what the principal is (tenant, kind, indexes, expiry) is what the signed claims say; the
  claims carry this instance's issuer and audience, have not expired by more than the allowed skew and
  were not issued in the future, the tenant is one this instance has, and the kind may do what is asked.
\<close>

theorem token_principal_is_vouched_for:
  assumes "authorize env answer now l oper is_closed (Some token) v = (Inr p, v')" and "pr_source p = Token"
    and "\<forall>(d, ps) \<in> set (vf_statics v). \<forall>q \<in> set ps. pr_source q \<noteq> Token" and "pr_source (vf_anonymous v) \<noteq> Token"
  shows "\<exists>j j' head payload signature kid key sig ob.
      vf_jwt v = Some j \<and> vf_jwt v' = Some j' \<and> token = head @ ''.'' @ payload @ ''.'' @ signature
    \<and> token_kid env head = Inr kid \<and> jwt_key j' kid = Some key
    \<and> b64url signature = Some sig \<and> ed25519_ok env key (head @ ''.'' @ payload) sig
    \<and> Option.bind (b64url payload) (json_parse env) = Some (JObj ob)
    \<and> json_text ob ''iss'' = Some (jw_issuer j) \<and> map_of ob ''aud'' = Some (JStr (jw_audience j))
    \<and> json_text ob ''tenant'' = Some (pr_tenant p) \<and> has_tenant (vf_tenancy v) (pr_tenant p)
    \<and> json_text ob ''kind'' = Some (kind_as_str (pr_kind p)) \<and> may (pr_kind p) oper
    \<and> map_option indexes_from_list (json_list ob ''indexes'') = Some (pr_indexes p)
    \<and> json_seconds ob ''exp'' = pr_expires p \<and> (\<exists>e. pr_expires p = Some e \<and> now - jw_skew j < e)
    \<and> (\<exists>iat. json_seconds ob ''iat'' = Some iat \<and> iat \<le> saturating_add_u64 now (jw_skew j))"
proof -
  have statics: "pr_source q \<noteq> Token" if "static_principal l d v = Some q" for d q
    using assms(3) that
    by (auto simp: static_principal_def split: option.splits if_splits dest!: map_of_SomeD find_Some)
  obtain v1 where verified: "verify_at env answer l token now v = (Inr p, v1)" and may: "may (pr_kind p) oper" and v': "v' = v1"
    using assms(1,2,4) by (auto simp: authorize_def Let_def split: prod.splits sum.splits if_splits)
  obtain j j' c where j: "vf_jwt v = Some j" "jwt_verify_at env answer token now j = (Inr c, j')" "v1 = v\<lparr>vf_jwt := Some j'\<rparr>"
    "has_tenant (vf_tenancy v) (cl_tenant c)" "pr_tenant p = cl_tenant c" "pr_kind p = cl_kind c" "pr_indexes p = cl_indexes c"
    "pr_expires p = Some (cl_exp c)"
  proof (cases "static_principal l (sha256 env token) v")
    case None
    then obtain j where j: "vf_jwt v = Some j" "looks_like_jwt token"
      using verified by (auto simp: verify_at_def split: option.splits if_splits)
    obtain r j' where r: "jwt_verify_at env answer token now j = (r, j')"
      by (metis surj_pair)
    with verified None j that show ?thesis
      by (cases r) (auto simp: verify_at_def split: if_splits)
  next
    case (Some q)
    then show ?thesis
      using verified assms(2) statics [OF Some] by (simp add: verify_at_def)
  qed
  obtain head payload signature kid key sig where t: "token = head @ ''.'' @ payload @ ''.'' @ signature"
    "token_kid env head = Inr kid" "jwt_key j' kid = Some key" "b64url signature = Some sig"
    "ed25519_ok env key (head @ ''.'' @ payload) sig" "token_claims env j' now payload = Inr c"
    "jw_issuer j' = jw_issuer j" "jw_audience j' = jw_audience j" "jw_skew j' = jw_skew j"
    using jwt_verify_at_Inr [OF j(2)] .
  obtain ob where "Option.bind (b64url payload) (json_parse env) = Some (JObj ob)"
    "json_text ob ''iss'' = Some (jw_issuer j)" "map_of ob ''aud'' = Some (JStr (jw_audience j))"
    "json_text ob ''tenant'' = Some (pr_tenant p)" "json_text ob ''kind'' = Some (kind_as_str (pr_kind p))"
    "map_option indexes_from_list (json_list ob ''indexes'') = Some (pr_indexes p)"
    "json_seconds ob ''exp'' = pr_expires p" "now - jw_skew j < cl_exp c"
    "\<exists>iat. json_seconds ob ''iat'' = Some iat \<and> iat \<le> saturating_add_u64 now (jw_skew j)"
    using token_claims_Inr [OF t(6)] unfolding t(7-9) j(5-8) by blast
  note facts = this
  show ?thesis
    by (rule exI [of _ j], rule exI [of _ j'], rule exI [of _ head], rule exI [of _ payload], rule exI [of _ signature],
      rule exI [of _ kid], rule exI [of _ key], rule exI [of _ sig], rule exI [of _ ob])
      (use facts j v' may t(1-5) in simp)
qed

section \<open>Admitted records stay with their tenant\<close>

lemma index_of_Some: "index_of t tenant i = Some i' \<Longrightarrow> i' = i \<and> (\<exists>c ix. configured t tenant = Some c \<and> find_index c i = Some ix \<and> ix_name ix = i)"
  by (auto simp: index_of_def find_index_def split: option.splits dest: find_Some)

lemma find_map_Some: "find_map f xs = Some y \<Longrightarrow> \<exists>x \<in> set xs. f x = Some y"
  by (induction xs) (auto split: option.splits)

lemma principal_default_ok:
  assumes "tenancy_new ts node = Inr t" "principal_default_index t p = Some i"
  shows "allows (pr_indexes p) i \<and> (\<exists>c ix. configured t (pr_tenant p) = Some c \<and> find_index c i = Some ix \<and> ix_name ix = i)"
proof -
  obtain c where c: "configured t (pr_tenant p) = Some c"
    using assms(2) by (auto simp: principal_default_index_def default_index_of_def split: option.splits)
  have t: "tenants t = ts" "check_tenants [] ts = None"
    using assms(1) by (auto simp: tenancy_new_def split: if_splits option.splits)
  then have "tn_indexes c \<noteq> []"
    using c check_tenants_indexes by (auto simp: configured_def dest: find_Some)
  from default_of_mem [OF this] obtain ix where "find_index c (default_of c) = Some ix" "ix_name ix = default_of c"
    by blast
  then show ?thesis
    using assms(2) c find_map_Some [of "\<lambda>i. index_of t (pr_tenant p) i" _ i] index_of_Some [of t "pr_tenant p" _ i]
    by (fastforce simp: principal_default_index_def default_index_of_def allows_def list_ex_iff
        split: option.splits if_splits indexes.splits)
qed

lemma choose_index_ok:
  assumes "tenancy_new ts node = Inr (vf_tenancy v)" "vf_route_indexes v" "choose_index v p requested = (Some i, b)"
  shows "allows (pr_indexes p) i \<and>
    (\<exists>c ix. configured (vf_tenancy v) (pr_tenant p) = Some c \<and> find_index c i = Some ix \<and> ix_name ix = i)"
  using assms(2,3) principal_default_ok [OF assms(1), of p i] index_of_Some [of "vf_tenancy v" "pr_tenant p" _ i]
  by (auto simp: choose_index_def Let_def split: option.splits if_splits)

text \<open>What the pipeline reads back from a bound record.\<close>

lemma bind_record_routes:
  assumes "vf_route_indexes v" "configured (vf_tenancy v) (pr_tenant p) = Some c" "find_index c i = Some ix" "ix_name ix = i"
  shows "record_tenant (vf_tenancy v) (bind_record v p key i r) = Some (pr_tenant p)
    \<and> fst (route_record f64_text (vf_tenancy v) (bind_record v p key i r) ATTR_INDEX) = Known i"
proof -
  let ?t = "vf_tenancy v" and ?r = "bind_record v p key i r"
  let ?base = "filter (\<lambda>a. attr_key a \<noteq> key \<and> attr_key a \<noteq> ATTR_INDEX \<and> attr_key a \<noteq> ATTR_TENANT) (attributes r)"
  have ne: "ATTR_INDEX \<noteq> ATTR_TENANT" "ATTR_TENANT \<noteq> ATTR_INDEX"
    by (simp_all add: ATTR_INDEX_def ATTR_TENANT_def)
  have base: "List.find (\<lambda>a. attr_key a = ATTR_TENANT) ?base = None" "List.find (\<lambda>a. attr_key a = ATTR_INDEX) ?base = None"
    by (auto simp: find_None_iff)
  have tenant: "record_tenant ?t ?r = Some (pr_tenant p)"
    using base(1) ne assms(1) by (simp add: record_tenant_def bind_record_def find_append)
  have "requested_index f64_text ATTR_INDEX ?r = (if Some i \<noteq> default_index_of ?t (pr_tenant p) then Some i else None)"
    using base(2) ne assms(1) by (simp add: requested_index_def bind_record_def find_append)
  then have "route_in ?t (pr_tenant p) (requested_index f64_text ATTR_INDEX ?r) = Known i"
    using assms(2-4) by (auto simp: route_in_def default_index_of_def)
  with tenant show ?thesis
    by (simp add: route_record_def Let_def)
qed

lemma bind_all_mem:
  "r \<in> set (bind_all v p key rs cs) \<Longrightarrow> \<exists>r0 \<in> set rs. \<exists>i b. (Some i, b) \<in> set cs \<and> r = bind_record v p key i r0"
  by (induction v p key rs cs rule: bind_all.induct) auto

lemma choose_all_mem:
  "choose_all f64_text v p key rs = Some cs \<Longrightarrow> length cs = length rs
    \<and> (\<forall>ch \<in> set cs. \<exists>requested. ch = choose_index v p requested)
    \<and> (\<forall>r \<in> set rs. \<forall>a \<in> set (attributes r). attr_key a = ATTR_TENANT \<longrightarrow> attr_val a = Str (pr_tenant p))"
proof (induction rs arbitrary: cs)
  case (Cons r rs)
  have "\<forall>a \<in> set as. attr_key a = ATTR_TENANT \<longrightarrow> attr_val a = Str (pr_tenant p)"
    if "scan_attrs f64_text (pr_tenant p) key req as = Some x" for req as x
    using that by (induction f64_text "pr_tenant p" key req as rule: scan_attrs.induct) (auto split: if_splits)
  with Cons show ?case
    by (auto split: option.splits)
qed simp

lemma length_bind_all:
  "length cs = length rs \<Longrightarrow> length (bind_all v p key rs cs) + length (filter (\<lambda>c. fst c = None) cs) = length rs"
proof (induction cs rs rule: list_induct2)
  case (Cons c cs r rs)
  then show ?case by (cases c; cases "fst c") simp_all
qed simp

text \<open>
  C30. Tenants are kept apart. A batch that is admitted for a principal holds no record that named
  another tenant, and each record that is let through is read by the rest of the pipeline as one of the
  principal's tenant, for an index that the tenant has and the principal may use, whatever attributes
  the sender put on it; nothing but its attributes is changed, and what is not let through is counted.
\<close>

theorem admitted_records_stay_in_tenant:
  assumes "tenancy_new ts node = Inr (vf_tenancy v)" and "vf_route_indexes v"
    and "admit f64_text now p records key whole v = (Inr (counts, kept), v')"
  shows "(\<forall>r \<in> set records. \<forall>a \<in> set (attributes r). attr_key a = ATTR_TENANT \<longrightarrow> attr_val a = Str (pr_tenant p))
    \<and> (\<forall>r \<in> set kept. record_tenant (vf_tenancy v) r = Some (pr_tenant p)
        \<and> (\<exists>i. fst (route_record f64_text (vf_tenancy v) r ATTR_INDEX) = Known i \<and> allows (pr_indexes p) i
             \<and> tenancy_buckets (vf_tenancy v) (pr_tenant p) i \<noteq> None)
        \<and> (\<exists>r0 \<in> set records. r = r0\<lparr>attributes := attributes r\<rparr>))
    \<and> length kept + ad_refused counts = length records"
proof -
  obtain cs where cs: "choose_all f64_text v p key records = Some cs" "kept = bind_all v p key records cs"
    "ad_refused counts = length (filter (\<lambda>c. fst c = None) cs)"
    using assms(3) by (auto simp: admit_def Let_def split: option.splits if_splits)
  note chosen = choose_all_mem [OF cs(1)]
  have "record_tenant (vf_tenancy v) r = Some (pr_tenant p)
      \<and> (\<exists>i. fst (route_record f64_text (vf_tenancy v) r ATTR_INDEX) = Known i \<and> allows (pr_indexes p) i
           \<and> tenancy_buckets (vf_tenancy v) (pr_tenant p) i \<noteq> None)
      \<and> (\<exists>r0 \<in> set records. r = r0\<lparr>attributes := attributes r\<rparr>)" if mem: "r \<in> set kept" for r
  proof -
    obtain r0 i b where r0: "r0 \<in> set records" "(Some i, b) \<in> set cs" "r = bind_record v p key i r0"
      using bind_all_mem [OF mem [unfolded cs(2)]] by blast
    then obtain requested where "choose_index v p requested = (Some i, b)"
      using chosen by metis
    from choose_index_ok [OF assms(1,2) this] obtain c ix where c: "allows (pr_indexes p) i"
      "configured (vf_tenancy v) (pr_tenant p) = Some c" "find_index c i = Some ix" "ix_name ix = i"
      by blast
    have "tenancy_buckets (vf_tenancy v) (pr_tenant p) i \<noteq> None" "r = r0\<lparr>attributes := attributes r\<rparr>"
      using c r0(3) by (simp_all add: tenancy_buckets_def bind_record_def)
    then show ?thesis
      using bind_record_routes [OF assms(2) c(2-4), of key r0 f64_text] c(1) r0(1,3) by blast
  qed
  then show ?thesis
    using chosen length_bind_all [of cs records v p key] cs(2,3) by simp
qed

section \<open>The key cache and the counters\<close>

text \<open>A refresh never leaves a set without keys, and one that fails leaves the set as it was.\<close>

lemma jwks_out:
  "fold (\<lambda>key m. case jwks_entry key of Some (kid, x) \<Rightarrow> AList.update kid x m | None \<Rightarrow> m) keys m = out \<Longrightarrow>
   (\<forall>x \<in> ran (map_of m). \<exists>raw. b64url x = Some raw \<and> length raw = 32) \<Longrightarrow>
   (\<forall>x \<in> ran (map_of out). \<exists>raw. b64url x = Some raw \<and> length raw = 32)"
proof (induction keys arbitrary: m)
  case (Cons key keys)
  have good: "\<exists>raw. b64url x = Some raw \<and> length raw = 32" if "jwks_entry key = Some (kid, x)" for kid x
    using that by (auto simp: jwks_entry_def Let_def split: if_splits option.splits)
  show ?case
  proof (cases "jwks_entry key")
    case None
    then show ?thesis using Cons by simp
  next
    case (Some e)
    obtain kid x where e: "e = (kid, x)" by fastforce
    have "\<forall>y \<in> ran (map_of (AList.update kid x m)). \<exists>raw. b64url y = Some raw \<and> length raw = 32"
      using Cons.prems(2) good Some unfolding e by (auto simp: update_conv' ran_def split: if_splits)
    then show ?thesis
      using Cons.IH [of "AList.update kid x m"] Cons.prems(1) Some by (simp add: e)
  qed
qed simp

lemma parse_jwks_Inr:
  assumes "parse_jwks env bs = Inr keys"
  shows "keys \<noteq> [] \<and> (\<forall>x \<in> ran (map_of keys). \<exists>raw. b64url x = Some raw \<and> length raw = 32)"
proof -
  obtain items where items: "keys = fold (\<lambda>key m. case jwks_entry key of Some (kid, x) \<Rightarrow> AList.update kid x m | None \<Rightarrow> m) items []" "keys \<noteq> []"
    using assms by (auto simp: parse_jwks_def Let_def split: option.splits json.splits if_splits)
  then show ?thesis
    using jwks_out [OF items(1) [symmetric]] by simp
qed

lemma refresh_keeps_keys:
  assumes "jwt_refresh env answer now j = (ok, j')"
  shows "ks_keys (jw_keys j') = ks_keys (jw_keys j)
    \<or> ok \<and> ks_keys (jw_keys j') \<noteq> [] \<and> (\<forall>x \<in> ran (map_of (ks_keys (jw_keys j'))). \<exists>raw. b64url x = Some raw \<and> length raw = 32)"
  using assms parse_jwks_Inr [of env]
  by (auto simp: jwt_refresh_def Let_def split: if_splits sum.splits fetched.splits)

text \<open>The table of counters holds one row per principal up to its limit, and one for the rest.\<close>

definition counters_bounded :: "verifier \<Rightarrow> bool" where
  "counters_bounded v \<longleftrightarrow> length (vf_by_principal v) \<le> MAX_COUNTED_PRINCIPALS
     \<or> length (vf_by_principal v) = MAX_COUNTED_PRINCIPALS + 1 \<and> map_of (vf_by_principal v) ''(others)'' \<noteq> None"

lemma count_principal_bounded:
  assumes "counters_bounded v"
  shows "counters_bounded (count_principal now p upd v)"
proof -
  have len: "length (AList.update k x m) = (if map_of m k = None then length m + 1 else length m)" for k x and m :: "(string \<times> principal_counters) list"
    by (induction m) auto
  show ?thesis
    using assms unfolding counters_bounded_def
    by (cases "map_of (vf_by_principal v) (counter_key p)"; cases "MAX_COUNTED_PRINCIPALS \<le> length (vf_by_principal v)")
      (auto simp: count_principal_def Let_def len update_conv')
qed

section \<open>Concrete requests\<close>

definition demo_auth_env :: auth_env where
  "demo_auth_env = \<lparr>sha256 = (\<lambda>s. []),
     json_parse = (\<lambda>bs. if length bs = 3
        then Some (JObj [(''alg'', JStr ''EdDSA''), (''kid'', JStr ''k1'')])
        else Some (JObj [(''iss'', JStr ''broker''), (''aud'', JStr ''logless''), (''sub'', JStr ''s''), (''exp'', JU64 2000),
          (''iat'', JU64 900), (''jti'', JStr ''t1''), (''tenant'', JStr ''acme''), (''kind'', JStr ''node''),
          (''indexes'', JArr [JStr ''audit''])])),
     ed25519_ok = (\<lambda>key signed sig. key = [0] \<and> signed = ''eyJ0.AAA'' \<and> sig = [0])\<rparr>"

definition demo_jwt :: jwt where
  "demo_jwt = (jwt_new ''broker'' ''logless'' 300 False)\<lparr>jw_keys :=
     \<lparr>ks_keys = [(''k1'', ''AA'')], ks_fetched = 0, ks_etag = None, ks_issuer = ''broker''\<rparr>\<rparr>"

definition demo_tenancy :: tenancy where
  "demo_tenancy = \<lparr>tenants = [acme], own_node = ''node-a''\<rparr>"

definition demo_anonymous :: principal where
  "demo_anonymous = \<lparr>pr_id = ''anonymous'', pr_kind = KIngest, pr_tenant = ''acme'', pr_indexes = AllIndexes, pr_scopes = [],
     pr_roles = [], pr_source = Anonymous, pr_expires = None, pr_only_at = None\<rparr>"

definition demo_verifier :: verifier where
  "demo_verifier = \<lparr>vf_tenancy = demo_tenancy, vf_statics = [], vf_readers = [], vf_anonymous = demo_anonymous, vf_jwt = Some demo_jwt,
     vf_s3_credentials_issued = 0,
     vf_route_indexes = True, vf_routes_defaulted = 0, vf_routes_refused = 0, vf_refused = (\<lambda>_. 0), vf_by_principal = []\<rparr>"

definition demo_principal :: principal where
  "demo_principal = \<lparr>pr_id = ''s'', pr_kind = KNode, pr_tenant = ''acme'', pr_indexes = Only [''audit''], pr_scopes = [],
     pr_roles = [], pr_source = Token, pr_expires = Some 2000, pr_only_at = None\<rparr>"

lemma demo_b64: "map_option length (b64url ''eyJ0'') = Some 3" "b64url ''AAA'' = Some [0, 0]" "b64url ''AA'' = Some [0]"
  by (simp_all add: b64url_def b64url_loop.simps b64url_val_def Let_def)

lemma demo_authorized:
  "authorize demo_auth_env (Inl []) 1000 LPeer OIngest True (Some ''eyJ0.AAA.AA'') demo_verifier = (Inr demo_principal, demo_verifier)"
proof -
  obtain h where h: "b64url ''eyJ0'' = Some h" "length h = 3"
    using demo_b64(1) by auto
  have kid: "token_kid demo_auth_env ''eyJ0'' = Inr ''k1''"
    using h by (simp add: token_kid_def demo_auth_env_def json_text_def)
  have ident: "valid_ident ''acme''"
    by (simp add: valid_ident_def starts_with_def is_ascii_alphanumeric_def is_ascii_alphabetic_def is_ascii_lower_def)
  have claims: "token_claims demo_auth_env demo_jwt 1000 ''AAA'' = Inr \<lparr>cl_sub = ''s'', cl_name = None, cl_tenant = ''acme'',
      cl_kind = KNode, cl_indexes = Only [''audit''], cl_scopes = [], cl_roles = [], cl_exp = 2000\<rparr>"
    by (simp add: token_claims_def demo_b64 demo_auth_env_def json_text_def json_seconds_def json_list_def demo_jwt_def jwt_new_def
        saturating_add_u64_def kind_parse_def indexes_from_list_def ident)
  have "jwt_verify_at demo_auth_env (Inl []) ''eyJ0.AAA.AA'' 1000 demo_jwt = (Inr \<lparr>cl_sub = ''s'', cl_name = None, cl_tenant = ''acme'',
      cl_kind = KNode, cl_indexes = Only [''audit''], cl_scopes = [], cl_roles = [], cl_exp = 2000\<rparr>, demo_jwt)"
    using kid claims demo_b64 by (simp add: jwt_verify_at_def jwt_key_def demo_jwt_def [THEN arg_cong [of _ _ jw_keys]] demo_auth_env_def)
  then show ?thesis
    by (simp add: authorize_def verify_at_def static_principal_def demo_verifier_def MAX_TOKEN_LEN_def looks_like_jwt_def
        starts_with_def has_tenant_def configured_def demo_tenancy_def acme_def demo_principal_def)
qed

theorem token_principal_is_vouched_for_witness:
  "has_tenant (vf_tenancy demo_verifier) (pr_tenant demo_principal) \<and> may (pr_kind demo_principal) OIngest
   \<and> (\<exists>head payload key sig. ''eyJ0.AAA.AA'' = head @ ''.'' @ payload @ ''.AA'' \<and> ed25519_ok demo_auth_env key (head @ ''.'' @ payload) sig)"
proof -
  have "pr_source demo_principal = Token" "\<forall>(d, ps) \<in> set (vf_statics demo_verifier). \<forall>q \<in> set ps. pr_source q \<noteq> Token"
    "pr_source (vf_anonymous demo_verifier) \<noteq> Token"
    by (simp_all add: demo_principal_def demo_verifier_def demo_anonymous_def)
  moreover have "''eyJ0.AAA.AA'' = ''eyJ0'' @ ''.'' @ ''AAA'' @ ''.AA''" "ed25519_ok demo_auth_env [0] (''eyJ0'' @ ''.'' @ ''AAA'') [0]"
    by (simp_all add: demo_auth_env_def)
  ultimately show ?thesis
    using token_principal_is_vouched_for [OF demo_authorized] by blast
qed

definition demo_records :: "log_record list" where
  "demo_records = [(log_record_new 1 0 9 ''x'')\<lparr>attributes := [\<lparr>attr_key = ATTR_INDEX, attr_val = Str ''audit''\<rparr>]\<rparr>,
     (log_record_new 2 0 9 ''y'')\<lparr>attributes := [\<lparr>attr_key = ATTR_INDEX, attr_val = Str ''main''\<rparr>]\<rparr>]"

theorem admitted_records_stay_in_tenant_witness:
  "\<exists>counts kept v'. admit (\<lambda>_. []) 0 demo_principal demo_records ATTR_INDEX False demo_verifier = (Inr (counts, kept), v')
     \<and> (\<forall>r \<in> set kept. record_tenant demo_tenancy r = Some ''acme'')
     \<and> length kept + ad_refused counts = 2"
proof -
  have ok: "tenancy_new [acme] ''node-a'' = Inr (vf_tenancy demo_verifier)" "vf_route_indexes demo_verifier"
    using acme_accepted by (simp_all add: demo_verifier_def demo_tenancy_def)
  have "choose_all (\<lambda>_. []) demo_verifier demo_principal ATTR_INDEX demo_records \<noteq> None"
    by (simp add: demo_records_def log_record_new_def ATTR_INDEX_def ATTR_TENANT_def)
  then obtain counts kept v' where run:
    "admit (\<lambda>_. []) 0 demo_principal demo_records ATTR_INDEX False demo_verifier = (Inr (counts, kept), v')"
    by (auto simp: admit_def Let_def)
  from admitted_records_stay_in_tenant [OF ok run] run show ?thesis
    by (auto simp: demo_verifier_def demo_principal_def demo_records_def)
qed

end
