(* ===== verification/S3_Session.thy ===== *)
theory S3_Session
  imports Auth Partition
begin

text \<open>
  The read side of a principal (\<^verbatim>\<open>auth/s3.rs\<close>): the part of the store it may read over S3, and the
  temporary S3 credentials issued for a broker token. A session token carries its own claims under a
  MAC, and the key pair is derived from the same claims, so nothing is stored. HMAC-SHA256 and the
  printing of JSON are arguments. Loading and creating the key file is not modelled: the key is an
  argument.
\<close>

section \<open>What a principal may read\<close>

definition EVERY_TENANT :: string where "EVERY_TENANT = ''*''"

type_synonym read_scope = "string list"

definition scope_whole :: read_scope where
  "scope_whole = [[]]"

definition scope_of :: "principal \<Rightarrow> read_scope" where
  "scope_of p = (
     if pr_tenant p = EVERY_TENANT then scope_whole
     else if \<not> valid_ident (pr_tenant p) then []
     else
       let tenant = ''tenant='' @ pr_tenant p @ ''/''
       in case pr_indexes p of
            AllIndexes \<Rightarrow> [tenant]
          | Only list \<Rightarrow> map (\<lambda>i. tenant @ ''index='' @ i @ ''/'') (filter valid_ident list))"

definition scope_is_whole :: "read_scope \<Rightarrow> bool" where
  "scope_is_whole s \<longleftrightarrow> list_ex (\<lambda>root. root = []) s"

definition scope_allows :: "read_scope \<Rightarrow> string \<Rightarrow> bool" where
  "scope_allows s key \<longleftrightarrow> list_ex (\<lambda>root. starts_with root key) s"

definition scope_reaches :: "read_scope \<Rightarrow> string \<Rightarrow> bool" where
  "scope_reaches s dir_key \<longleftrightarrow> list_ex (\<lambda>root. starts_with root dir_key \<or> starts_with dir_key root) s"

section \<open>Temporary credentials\<close>

definition TEMP_KEY_PREFIX :: string where "TEMP_KEY_PREFIX = ''LLTMP''"
definition VERSION :: string where "VERSION = ''v1''"
definition MAX_SESSION_TOKEN_LEN :: nat where "MAX_SESSION_TOKEN_LEN = 4 * 1024"

record session_env =
  hmac_sha256 :: "bytes \<Rightarrow> string \<Rightarrow> bytes"
  parse_json :: "bytes \<Rightarrow> json option"
  print_json :: "json \<Rightarrow> string"

record s3_credentials =
  sc_access_key_id :: string
  sc_secret_access_key :: string
  sc_session_token :: string
  sc_expires :: nat

text \<open>\<^verbatim>\<open>as_bytes\<close>.\<close>

definition string_bytes :: "string \<Rightarrow> bytes" where
  "string_bytes s = map (\<lambda>c. of_nat (of_char c)) s"

definition hmac :: "session_env \<Rightarrow> bytes \<Rightarrow> string \<Rightarrow> string \<Rightarrow> bytes" where
  "hmac env key label d = hmac_sha256 env key (label @ [CHR 0x0A] @ d)"

definition hex :: "bytes \<Rightarrow> string" where
  "hex bs = concat (map (\<lambda>b. [hex_digit (unat b div 16), hex_digit (unat b mod 16)]) bs)"

definition derive :: "session_env \<Rightarrow> bytes \<Rightarrow> string \<Rightarrow> string \<times> string \<times> string" where
  "derive env key payload =
     (TEMP_KEY_PREFIX @ to_ascii_uppercase (hex (take 8 (hmac env key ''logless-s3-access-key-v1'' payload))),
      hex (hmac env key ''logless-s3-secret-v1'' payload),
      b64 (hmac env key ''logless-s3-session-v1'' payload))"

definition session_claims :: "principal \<Rightarrow> nat \<Rightarrow> json" where
  "session_claims p expires = JObj [(''sub'', JStr (pr_id p)), (''kind'', JStr (kind_as_str (pr_kind p))),
     (''tenant'', JStr (pr_tenant p)), (''indexes'', JArr (map JStr (indexes_to_list (pr_indexes p)))), (''exp'', JU64 expires)]"

definition session_issue :: "session_env \<Rightarrow> bytes \<Rightarrow> principal \<Rightarrow> nat \<Rightarrow> s3_credentials" where
  "session_issue env key p expires = (
     let payload = b64 (string_bytes (print_json env (session_claims p expires)));
         (access, secret, mac) = derive env key payload
     in \<lparr>sc_access_key_id = access, sc_secret_access_key = secret,
         sc_session_token = VERSION @ ''.'' @ payload @ ''.'' @ mac, sc_expires = expires\<rparr>)"

definition session_verify :: "session_env \<Rightarrow> bytes \<Rightarrow> string \<Rightarrow> nat \<Rightarrow> refusal + principal \<times> string \<times> string" where
  "session_verify env key token now = (
     if MAX_SESSION_TOKEN_LEN < length token then Inl Malformed
     else case split_on (CHR ''.'') token of
       [version, payload, mac] \<Rightarrow>
         if version \<noteq> VERSION then Inl Malformed
         else (case b64url mac of
             None \<Rightarrow> Inl Malformed
           | Some presented \<Rightarrow>
               if hmac env key ''logless-s3-session-v1'' payload \<noteq> presented then Inl Signature
               else (case Option.bind (b64url payload) (parse_json env) of
                   None \<Rightarrow> Inl Claims
                 | Some cl \<Rightarrow>
                     (let ob = (case json_as_object cl of Some ob \<Rightarrow> ob | None \<Rightarrow> []) in
                      case (json_text ob ''sub'', Option.bind (json_text ob ''kind'') kind_parse, json_text ob ''tenant'',
                            Option.bind (map_of ob ''exp'') json_as_u64) of
                        (Some sub, Some kind, Some tenant, Some expires) \<Rightarrow>
                          (case map_of ob ''indexes'' of
                             Some (JArr items) \<Rightarrow>
                               (case all_strings items of
                                  None \<Rightarrow> Inl Claims
                                | Some ix \<Rightarrow>
                                    if expires \<le> now then Inl Expired
                                    else (let (access, secret, _) = derive env key payload in
                                      Inr (\<lparr>pr_id = sub, pr_kind = kind, pr_tenant = tenant, pr_indexes = indexes_from_list ix,
                                           pr_scopes = [], pr_roles = [], pr_source = Session, pr_expires = Some expires,
                                           pr_only_at = Some LS3\<rparr>, access, secret)))
                           | _ \<Rightarrow> Inl Claims)
                      | _ \<Rightarrow> Inl Claims)))
     | _ \<Rightarrow> Inl Malformed)"

text \<open>\<^verbatim>\<open>Verifier::issue_s3_credentials\<close>, with the session key and the configured life of a credential.\<close>

definition issue_s3_credentials ::
  "session_env \<Rightarrow> (bytes \<times> nat) option \<Rightarrow> principal \<Rightarrow> nat \<Rightarrow> verifier \<Rightarrow> (refusal + s3_credentials) \<times> verifier" where
  "issue_s3_credentials env sessions p now v = (case (if pr_source p = Token then sessions else None) of
     None \<Rightarrow> (Inl UnknownKey, v)
   | Some (key, ttl) \<Rightarrow>
       let expires = min (case pr_expires p of Some e \<Rightarrow> e | None \<Rightarrow> u64_max) (saturating_add_u64 now ttl)
       in if expires \<le> now then (Inl Expired, v)
          else (Inr (session_issue env key p expires), count_principal now p (\<lambda>c. c\<lparr>pc_requests := pc_requests c + 1\<rparr>)
            (v\<lparr>vf_s3_credentials_issued := vf_s3_credentials_issued v + 1\<rparr>)))"

section \<open>A session is the token it was issued for\<close>

lemma b64_no_dot: "CHR ''.'' \<notin> set (b64 bs)"
proof -
  have "\<forall>c \<in> set s. b64url_val c \<noteq> None" if "b64url_loop acc bits s = Some out" for acc bits s out
    using that
  proof (induction s arbitrary: acc bits out)
    case (Cons c s)
    then show ?case
      by (auto simp: b64url_loop.simps(2) Let_def split: option.splits if_splits)
  qed simp
  then have "\<forall>c \<in> set (b64 bs). b64url_val c \<noteq> None"
    using decode_encode [of bs] by (auto simp: b64url_def split: if_splits)
  moreover have "b64url_val (CHR ''.'') = None"
    by (simp add: b64url_val_def)
  ultimately show ?thesis by fastforce
qed

lemma split_on_plain: "c \<notin> set x \<Longrightarrow> split_on c (x @ c # s) = x # split_on c s" "c \<notin> set x \<Longrightarrow> split_on c x = [x]"
  by (induction x) auto

lemma indexes_roundtrip: "''*'' \<notin> set (case ix of Only l \<Rightarrow> l | AllIndexes \<Rightarrow> []) \<Longrightarrow> indexes_from_list (indexes_to_list ix) = ix"
  by (cases ix) (auto simp: indexes_from_list_def indexes_to_list_def list_ex_iff)

lemma all_strings_map [simp]: "all_strings (map JStr xs) = Some xs"
  by (induction xs) auto

text \<open>What the MAC vouches for: the claims of an accepted token are under this instance's key.\<close>

lemma session_verify_sound:
  assumes "session_verify env key token now = Inr (p, access, secret)"
  shows "\<exists>payload. token = VERSION @ ''.'' @ payload @ ''.'' @ b64 (hmac env key ''logless-s3-session-v1'' payload)
    \<and> (\<exists>mac. derive env key payload = (access, secret, mac))
    \<and> pr_source p = Session \<and> pr_only_at p = Some LS3 \<and> (\<exists>e. pr_expires p = Some e \<and> now < e)"
proof -
  obtain payload mac where parts: "split_on (CHR ''.'') token = [VERSION, payload, mac]"
    and sig: "b64url mac = Some (hmac env key ''logless-s3-session-v1'' payload)"
    using assms by (auto simp: session_verify_def split: if_splits list.splits option.splits)
  then have "token = VERSION @ ''.'' @ payload @ ''.'' @ b64 (hmac env key ''logless-s3-session-v1'' payload)"
    using split_three [OF parts] decoded_chunk by (auto simp: b64url_def split: if_splits)
  moreover have "(\<exists>mac. derive env key payload = (access, secret, mac))
    \<and> pr_source p = Session \<and> pr_only_at p = Some LS3 \<and> (\<exists>e. pr_expires p = Some e \<and> now < e)"
    using assms parts
    by (auto simp: session_verify_def Let_def split: if_splits option.splits json.splits prod.splits)
  ultimately show ?thesis by blast
qed


section \<open>Reading stays within the tenant\<close>

text \<open>The key of an object: the file's path below the store, with slashes.\<close>

definition object_key :: "partition_key \<Rightarrow> string \<Rightarrow> string" where
  "object_key k name = join ''/'' (key_dir k [] @ [name])"

lemma object_key_eq:
  "storable_key k \<Longrightarrow> \<exists>rest. object_key k name = ''tenant='' @ pk_tenant k @ ''/'' @ ''index='' @ pk_index k @ ''/'' @ rest"
  by (simp add: object_key_def key_dir_components)

lemma starts_with_append: "starts_with (p @ x) (p @ y) \<longleftrightarrow> starts_with x y"
  by (simp add: starts_with_def)

lemma starts_with_segment:
  assumes "c \<notin> set a" "c \<notin> set b"
  shows "starts_with (a @ c # x) (b @ c # y) \<longleftrightarrow> a = b \<and> starts_with x y"
  using assms
proof (induction a arbitrary: b)
  case Nil
  then show ?case by (cases b) (auto simp: starts_with_def)
next
  case (Cons d a)
  then show ?case by (cases b) (auto simp: starts_with_def)
qed

text \<open>
  C33. A reader sees its own tenant's indexes and nothing else. For every principal of one tenant and
  every file of the store, the file's key is within the read scope exactly when the file's partition
  belongs to the principal's tenant and to an index the principal may use; no other tenant's name that
  merely begins or ends like it gets through.
\<close>

theorem scope_is_tenant_and_indexes:
  assumes "storable_key k" and "pr_tenant p \<noteq> EVERY_TENANT"
  shows "scope_allows (scope_of p) (object_key k name) \<longleftrightarrow>
    pk_tenant k = pr_tenant p \<and> allows (pr_indexes p) (pk_index k)"
proof -
  obtain rest where key: "object_key k name = ''tenant='' @ pk_tenant k @ ''/'' @ ''index='' @ pk_index k @ ''/'' @ rest"
    using object_key_eq [OF assms(1)] by blast
  have ident: "valid_ident (pk_tenant k)" "valid_ident (pk_index k)"
    using assms(1) by (simp_all add: storable_key_def)
  have tenant: "starts_with (''tenant='' @ t @ ''/'' @ x) (object_key k name) \<longleftrightarrow>
      t = pk_tenant k \<and> starts_with x (''index='' @ pk_index k @ ''/'' @ rest)" if "valid_ident t" for t x
    unfolding key starts_with_append
    using starts_with_segment [of "CHR ''/''" t "pk_tenant k" x] valid_ident_no_slash that ident(1) by simp
  have index: "starts_with (''index='' @ i @ ''/'') (''index='' @ pk_index k @ ''/'' @ rest) \<longleftrightarrow> i = pk_index k" if "valid_ident i" for i
    unfolding starts_with_append
    using starts_with_segment [of "CHR ''/''" i "pk_index k" "[]"] valid_ident_no_slash that ident(2)
    by (simp add: starts_with_def)
  have empty: "starts_with [] x" for x :: string
    by (simp add: starts_with_def)
  show ?thesis
  proof (cases "valid_ident (pr_tenant p)")
    case False
    then show ?thesis
      using assms(2) ident(1) by (auto simp: scope_of_def scope_allows_def)
  next
    case True
    show ?thesis
    proof (cases "pr_indexes p")
      case AllIndexes
      then show ?thesis
        using True assms(2) tenant [OF True, of "[]"] empty
        by (auto simp: scope_of_def scope_allows_def allows_def)
    next
      case (Only list)
      have "scope_allows (scope_of p) (object_key k name) \<longleftrightarrow>
          (\<exists>i \<in> set list. valid_ident i \<and> starts_with (''tenant='' @ pr_tenant p @ ''/'' @ ''index='' @ i @ ''/'') (object_key k name))"
        using Only True assms(2) by (auto simp: scope_of_def scope_allows_def list_ex_iff)
      also have "\<dots> \<longleftrightarrow> pr_tenant p = pk_tenant k \<and> pk_index k \<in> set list"
        using tenant [OF True] index ident(2) by auto
      finally show ?thesis
        using Only by (auto simp: allows_def list_ex_iff)
    qed
  qed
qed

section \<open>Concrete credentials\<close>

definition demo_session_env :: session_env where
  "demo_session_env = \<lparr>hmac_sha256 = (\<lambda>key m. [0]), parse_json = (\<lambda>bs. Some (session_claims demo_principal 1060)),
     print_json = (\<lambda>j. ''x'')\<rparr>"


theorem scope_is_tenant_and_indexes_witness:
  "scope_allows (scope_of demo_principal) (object_key (partition_key_new ''acme'' ''audit'' 496190 ''warn_plus'' ''node-a'') ''1.parquet'')
   \<and> \<not> scope_allows (scope_of demo_principal) (object_key (partition_key_new ''acme'' ''main'' 496190 ''warn_plus'' ''node-a'') ''1.parquet'')"
proof -
  have k: "storable_key (partition_key_new ''acme'' i 496190 ''warn_plus'' ''node-a'')" if "i \<in> {''audit'', ''main''}" for i
    using that by (auto simp: storable_key_def partition_key_new_def valid_ident_def starts_with_def is_ascii_alphanumeric_def
        is_ascii_alphabetic_def is_ascii_lower_def)
  show ?thesis
    using scope_is_tenant_and_indexes [OF k, of "''audit''" demo_principal "''1.parquet''"]
      scope_is_tenant_and_indexes [OF k, of "''main''" demo_principal "''1.parquet''"]
    by (simp add: demo_principal_def EVERY_TENANT_def partition_key_new_def allows_def)
qed

end
