(* ===== verification/Credentials.thy ===== *)
theory Credentials
  imports S3_Session
begin

text \<open>
  Where principals come from (\<^verbatim>\<open>auth.rs\<close>: \<^verbatim>\<open>Builder\<close>, \<^verbatim>\<open>Verifier::from_config\<close>) and where the key of the
  temporary S3 credentials is kept (\<^verbatim>\<open>auth/s3.rs\<close>: \<^verbatim>\<open>Sessions::open\<close>). The listeners' older settings
  become principals that are good at one listener; the entries of \<^verbatim>\<open>[[principals]]\<close> are checked one by one.
\<close>

section \<open>Hexadecimal keys\<close>

text \<open>\<^verbatim>\<open>u8::from_str_radix(_, 16)\<close> on two characters; a leading plus sign is allowed.\<close>

definition u8_from_hex :: "char \<Rightarrow> char \<Rightarrow> byte option" where
  "u8_from_hex a b = (
     if a = CHR ''+'' then map_option of_nat (hex_char_val b)
     else case (hex_char_val a, hex_char_val b) of
       (Some x, Some y) \<Rightarrow> Some (of_nat (16 * x + y))
     | _ \<Rightarrow> None)"

fun unhex_pairs :: "string \<Rightarrow> bytes option" where
  "unhex_pairs [] = Some []"
| "unhex_pairs [_] = None"
| "unhex_pairs (a # b # s) = (case u8_from_hex a b of
     None \<Rightarrow> None
   | Some v \<Rightarrow> map_option ((#) v) (unhex_pairs s))"

definition unhex32 :: "string \<Rightarrow> bytes option" where
  "unhex32 text0 = (let s = trim text0 in if length s \<noteq> 64 then None else unhex_pairs s)"

section \<open>The session key\<close>

datatype key_file = KeyText string | KeyNotFound | KeyUnreadable

text \<open>
  \<open>fresh\<close> is what the random source gave, \<open>written\<close> whether the new file could be written, synced and renamed.
  The result is the key, whether it is kept on disk, and what is then at the path.
\<close>

definition load_or_create :: "bytes \<Rightarrow> bool \<Rightarrow> key_file \<Rightarrow> bytes option \<times> key_file" where
  "load_or_create fresh written f = (
     let create = (if written then (Some fresh, KeyText (hex fresh)) else (None, f))
     in case f of
          KeyText s \<Rightarrow> (case unhex32 s of Some key \<Rightarrow> (Some key, f) | None \<Rightarrow> create)
        | KeyNotFound \<Rightarrow> create
        | KeyUnreadable \<Rightarrow> (None, f))"

definition sessions_open :: "bytes \<Rightarrow> bytes \<Rightarrow> bool \<Rightarrow> key_file \<Rightarrow> (bytes \<times> bool) \<times> key_file" where
  "sessions_open fresh in_memory written f = (case load_or_create fresh written f of
     (Some key, f') \<Rightarrow> ((key, True), f')
   | (None, f') \<Rightarrow> ((in_memory, False), f'))"

section \<open>The builder\<close>

definition MIN_KEY_LEN :: nat where "MIN_KEY_LEN = 24"

record principal_config =
  pg_id :: string
  pg_kind :: kind
  pg_tenant :: "string option"
  pg_indexes :: "string list option"
  pg_key :: "string option"
  pg_key_sha256 :: "string option"

datatype principal_error = BadId | IdTwice | UserKey | NoSuchTenant | EveryTenantIndexes | NoSuchIndex string
  | KeyTooShort | BadSha256 | KeyOrSha256 | SameKey | ReaderIdTaken | ReaderNeedsKey

record builder =
  bd_tenancy :: tenancy
  bd_statics :: "(bytes \<times> principal list) list"
  bd_readers :: "(principal \<times> string) list"
  bd_jwt :: "jwt option"
  bd_route_indexes :: bool

definition builder_new :: "tenancy \<Rightarrow> builder" where
  "builder_new t = \<lparr>bd_tenancy = t, bd_statics = [], bd_readers = [], bd_jwt = None, bd_route_indexes = True\<rparr>"

definition own :: "builder \<Rightarrow> string \<Rightarrow> kind \<Rightarrow> listener \<Rightarrow> principal" where
  "own b i k l = \<lparr>pr_id = i, pr_kind = k, pr_tenant = own_tenant (bd_tenancy b), pr_indexes = AllIndexes, pr_scopes = [],
     pr_roles = [], pr_source = Static, pr_expires = None, pr_only_at = Some l\<rparr>"

definition bd_add :: "bytes \<Rightarrow> principal \<Rightarrow> builder \<Rightarrow> builder" where
  "bd_add d p b = b\<lparr>bd_statics := AList.update d ((case map_of (bd_statics b) d of Some ps \<Rightarrow> ps | None \<Rightarrow> []) @ [p]) (bd_statics b)\<rparr>"

fun legacy_from :: "auth_env \<Rightarrow> listener \<Rightarrow> kind \<Rightarrow> string \<Rightarrow> nat \<Rightarrow> string list \<Rightarrow> builder \<Rightarrow> builder" where
  "legacy_from env l k label n [] b = b"
| "legacy_from env l k label n (key # keys) b =
     legacy_from env l k label (n + 1) keys
       (if key \<noteq> [] then bd_add (sha256 env key) (own b (label @ ''-'' @ show_nat (n + 1)) k l) b else b)"

definition legacy :: "auth_env \<Rightarrow> listener \<Rightarrow> kind \<Rightarrow> string \<Rightarrow> string list \<Rightarrow> builder \<Rightarrow> builder" where
  "legacy env l k label keys b = legacy_from env l k label 0 keys b"

definition with_nodes :: "auth_env \<Rightarrow> (string \<times> string) list \<Rightarrow> builder \<Rightarrow> builder" where
  "with_nodes env nodes b = fold (\<lambda>(i, token) b. if token \<noteq> [] then bd_add (sha256 env token) (own b i KNode LPeer) b else b) nodes b"

definition with_peer :: "auth_env \<Rightarrow> string list \<Rightarrow> (string \<times> string) list \<Rightarrow> string list \<Rightarrow> builder \<Rightarrow> builder" where
  "with_peer env tokens nodes replication_tokens b =
     legacy env LPeer KReplica ''replica-token'' replication_tokens
       (with_nodes env nodes (legacy env LPeer KIngest ''peer-token'' tokens b))"

definition with_hec :: "auth_env \<Rightarrow> string list \<Rightarrow> builder \<Rightarrow> builder" where
  "with_hec env tokens = legacy env LHec KIngest ''hec-token'' tokens"

definition with_sentry :: "auth_env \<Rightarrow> string list \<Rightarrow> builder \<Rightarrow> builder" where
  "with_sentry env allowed_keys = legacy env LSentry KIngest ''sentry-key'' allowed_keys"

definition with_admin :: "auth_env \<Rightarrow> string option \<Rightarrow> builder \<Rightarrow> builder" where
  "with_admin env token = legacy env LAdmin KAdmin ''admin-token'' (case token of Some t \<Rightarrow> [t] | None \<Rightarrow> [])"

definition with_s3 :: "string \<Rightarrow> string \<Rightarrow> builder \<Rightarrow> builder" where
  "with_s3 access_key secret_key b =
     b\<lparr>bd_readers := bd_readers b @ [((own b access_key KReader LS3)\<lparr>pr_tenant := EVERY_TENANT\<rparr>, secret_key)]\<rparr>"

text \<open>The checks of one \<^verbatim>\<open>[[principals]]\<close> entry, in the order of the loop body.\<close>

definition entry_tenant :: "tenancy \<Rightarrow> principal_config \<Rightarrow> string" where
  "entry_tenant t c = (case pg_tenant c of Some n \<Rightarrow> n | None \<Rightarrow> own_tenant t)"

definition entry_every_tenant :: "tenancy \<Rightarrow> principal_config \<Rightarrow> bool" where
  "entry_every_tenant t c \<longleftrightarrow> pg_kind c = KReader \<and> entry_tenant t c = EVERY_TENANT"

definition entry_indexes :: "tenancy \<Rightarrow> principal_config \<Rightarrow> principal_error + indexes" where
  "entry_indexes t c = (case pg_indexes c of
     None \<Rightarrow> Inr AllIndexes
   | Some list \<Rightarrow>
       if entry_every_tenant t c then Inl EveryTenantIndexes
       else (case List.find (\<lambda>i. i \<noteq> ''*'' \<and> index_of t (entry_tenant t c) i = None) list of
           Some missing \<Rightarrow> Inl (NoSuchIndex missing)
         | None \<Rightarrow> Inr (indexes_from_list list)))"

definition entry_digest :: "auth_env \<Rightarrow> principal_config \<Rightarrow> principal_error + bytes" where
  "entry_digest env c = (case (pg_key c, pg_key_sha256 c) of
     (Some key, None) \<Rightarrow> if MIN_KEY_LEN \<le> length key then Inr (sha256 env key) else Inl KeyTooShort
   | (None, Some hx) \<Rightarrow> (case unhex32 hx of Some d \<Rightarrow> Inr d | None \<Rightarrow> Inl BadSha256)
   | _ \<Rightarrow> Inl KeyOrSha256)"

definition entry_principal :: "tenancy \<Rightarrow> principal_config \<Rightarrow> indexes \<Rightarrow> principal" where
  "entry_principal t c ix = \<lparr>pr_id = pg_id c, pr_kind = pg_kind c, pr_tenant = entry_tenant t c, pr_indexes = ix, pr_scopes = [],
     pr_roles = [], pr_source = Static, pr_expires = None, pr_only_at = None\<rparr>"

definition add_entry :: "auth_env \<Rightarrow> string list \<Rightarrow> principal_config \<Rightarrow> builder \<Rightarrow> principal_error + builder" where
  "add_entry env seen c b = (
     let t = bd_tenancy b in
     if \<not> valid_ident (pg_id c) then Inl BadId
     else if to_ascii_lowercase (pg_id c) \<in> set seen then Inl IdTwice
     else if pg_kind c = KUser then Inl UserKey
     else if \<not> entry_every_tenant t c \<and> \<not> has_tenant t (entry_tenant t c) then Inl NoSuchTenant
     else case entry_indexes t c of
       Inl e \<Rightarrow> Inl e
     | Inr ix \<Rightarrow>
       (case entry_digest env c of
          Inl e \<Rightarrow> Inl e
        | Inr d \<Rightarrow>
            if map_of (bd_statics b) d \<noteq> None \<or> (\<exists>(_, secret) \<in> set (bd_readers b). sha256 env secret = d) then Inl SameKey
            else if pg_kind c = KReader \<and> ((\<exists>(p, _) \<in> set (bd_readers b). pr_id p = pg_id c) \<or> starts_with TEMP_KEY_PREFIX (pg_id c))
            then Inl ReaderIdTaken
            else let p = entry_principal t c ix in
              if pg_kind c = KReader
              then (case pg_key c of
                  None \<Rightarrow> Inl ReaderNeedsKey
                | Some key \<Rightarrow> Inr (b\<lparr>bd_readers := bd_readers b @ [(p, key)]\<rparr>))
              else Inr (bd_add d p b)))"

fun add_entries :: "auth_env \<Rightarrow> string list \<Rightarrow> principal_config list \<Rightarrow> builder \<Rightarrow> principal_error + builder" where
  "add_entries env seen [] b = Inr b"
| "add_entries env seen (c # cs) b = (case add_entry env seen c b of
     Inl e \<Rightarrow> Inl e
   | Inr b' \<Rightarrow> add_entries env (seen @ [to_ascii_lowercase (pg_id c)]) cs b')"

definition with_principals :: "auth_env \<Rightarrow> principal_config list \<Rightarrow> builder \<Rightarrow> principal_error + builder" where
  "with_principals env list b = add_entries env [] list b"

definition build :: "builder \<Rightarrow> verifier" where
  "build b = \<lparr>vf_tenancy = bd_tenancy b, vf_statics = bd_statics b, vf_readers = bd_readers b,
     vf_anonymous = \<lparr>pr_id = ''anonymous'', pr_kind = KIngest, pr_tenant = own_tenant (bd_tenancy b), pr_indexes = AllIndexes,
       pr_scopes = [], pr_roles = [], pr_source = Anonymous, pr_expires = None, pr_only_at = None\<rparr>,
     vf_jwt = bd_jwt b, vf_s3_credentials_issued = 0, vf_route_indexes = bd_route_indexes b, vf_routes_defaulted = 0,
     vf_routes_refused = 0, vf_refused = (\<lambda>_. 0), vf_by_principal = []\<rparr>"

record cred_config =
  cc_peer_tokens :: "string list"
  cc_nodes :: "(string \<times> string) list"
  cc_replication_tokens :: "string list"
  cc_hec_tokens :: "string list"
  cc_sentry_keys :: "string list"
  cc_admin_token :: "string option"
  cc_s3 :: "(string \<times> string) option"
  cc_principals :: "principal_config list"

text \<open>\<^verbatim>\<open>Verifier::from_config\<close>; \<open>jwt\<close> is the broker side, absent when \<^verbatim>\<open>[auth]\<close> names none.\<close>

definition from_config :: "auth_env \<Rightarrow> cred_config \<Rightarrow> jwt option \<Rightarrow> tenancy \<Rightarrow> principal_error + verifier" where
  "from_config env cfg j t = (
     let b = with_admin env (cc_admin_token cfg) (with_sentry env (cc_sentry_keys cfg) (with_hec env (cc_hec_tokens cfg)
               (with_peer env (cc_peer_tokens cfg) (cc_nodes cfg) (cc_replication_tokens cfg) (builder_new t))));
         b = (case cc_s3 cfg of Some (access, secret) \<Rightarrow> with_s3 access secret b | None \<Rightarrow> b)
     in case with_principals env (cc_principals cfg) b of
          Inl e \<Rightarrow> Inl e
        | Inr b \<Rightarrow> Inr (build (b\<lparr>bd_jwt := j\<rparr>)))"

definition can_authenticate :: "listener \<Rightarrow> op \<Rightarrow> verifier \<Rightarrow> bool" where
  "can_authenticate l oper v = (
     if oper = ORead then vf_readers v \<noteq> []
     else vf_jwt v \<noteq> None \<or> (\<exists>(d, ps) \<in> set (vf_statics v). \<exists>p \<in> set ps. may (pr_kind p) oper \<and>
       (case pr_only_at p of None \<Rightarrow> True | Some at_l \<Rightarrow> at_l = l)))"

definition s3_reader :: "string \<Rightarrow> verifier \<Rightarrow> (principal \<times> string) option" where
  "s3_reader access_key_id v = List.find (\<lambda>(p, _). pr_id p = access_key_id) (vf_readers v)"

section \<open>What a configuration gives\<close>

definition static_ok :: "tenancy \<Rightarrow> principal \<Rightarrow> bool" where
  "static_ok t p \<longleftrightarrow> pr_source p = Static \<and> pr_kind p \<notin> {KUser, KReader} \<and> has_tenant t (pr_tenant p)"

definition statics_ok :: "tenancy \<Rightarrow> builder \<Rightarrow> bool" where
  "statics_ok t b \<longleftrightarrow> bd_tenancy b = t \<and> (\<forall>(d, ps) \<in> set (bd_statics b). \<forall>p \<in> set ps. static_ok t p)"

lemma set_AList_update: "set (AList.update k v al) \<subseteq> insert (k, v) (set al)"
  by (induction al) auto

lemma own_tenant_configured: "tenancy_new ts node = Inr t \<Longrightarrow> has_tenant t (own_tenant t)"
  by (auto simp: tenancy_new_def has_tenant_def configured_def own_tenant_def neq_Nil_conv split: if_splits option.splits)

lemma bd_add_ok: "statics_ok t b \<Longrightarrow> static_ok t p \<Longrightarrow> statics_ok t (bd_add d p b)"
  unfolding statics_ok_def bd_add_def
  by (auto dest!: set_mp [OF set_AList_update] map_of_SomeD split: option.splits) fastforce+

lemma own_ok:
  "statics_ok t b \<Longrightarrow> has_tenant t (own_tenant t) \<Longrightarrow> k \<noteq> KUser \<Longrightarrow> k \<noteq> KReader \<Longrightarrow> statics_ok t (bd_add d (own b i k l) b)"
  by (rule bd_add_ok) (simp_all add: statics_ok_def static_ok_def own_def)

lemma legacy_ok:
  "statics_ok t b \<Longrightarrow> has_tenant t (own_tenant t) \<Longrightarrow> k \<noteq> KUser \<Longrightarrow> k \<noteq> KReader \<Longrightarrow> statics_ok t (legacy env l k label keys b)"
proof -
  have "statics_ok t b \<Longrightarrow> has_tenant t (own_tenant t) \<Longrightarrow> k \<noteq> KUser \<Longrightarrow> k \<noteq> KReader \<Longrightarrow> statics_ok t (legacy_from env l k label n keys b)" for n
    by (induction env l k label n keys b rule: legacy_from.induct) (simp add: own_ok del: One_nat_def)+
  then show "statics_ok t b \<Longrightarrow> has_tenant t (own_tenant t) \<Longrightarrow> k \<noteq> KUser \<Longrightarrow> k \<noteq> KReader \<Longrightarrow> statics_ok t (legacy env l k label keys b)"
    by (simp add: legacy_def)
qed

lemma with_nodes_ok:
  "statics_ok t b \<Longrightarrow> has_tenant t (own_tenant t) \<Longrightarrow> statics_ok t (with_nodes env nodes b)"
  unfolding with_nodes_def
proof (induction nodes arbitrary: b)
  case (Cons n nodes)
  then have "statics_ok t (if snd n \<noteq> [] then bd_add (sha256 env (snd n)) (own b (fst n) KNode LPeer) b else b)"
    by (simp add: own_ok)
  with Cons.IH Cons.prems(2) show ?case
    by (simp add: case_prod_beta)
qed simp

lemma add_entry_ok:
  assumes "statics_ok t b" "add_entry env seen c b = Inr b'"
  shows "statics_ok t b'"
proof -
  have t: "bd_tenancy b = t"
    using assms(1) by (simp add: statics_ok_def)
  obtain ix d where "b' = bd_add d (entry_principal t c ix) b \<and> pg_kind c \<notin> {KUser, KReader} \<and> has_tenant t (entry_tenant t c)
      \<or> (\<exists>key. b' = b\<lparr>bd_readers := bd_readers b @ [(entry_principal t c ix, key)]\<rparr>)"
    using assms(2) t unfolding add_entry_def Let_def
    by (auto simp: entry_every_tenant_def split: if_splits sum.splits option.splits)
  then show ?thesis
    using assms(1) by (auto intro!: bd_add_ok simp: static_ok_def entry_principal_def) (auto simp: statics_ok_def)
qed

lemma add_entries_ok: "statics_ok t b \<Longrightarrow> add_entries env seen cs b = Inr b' \<Longrightarrow> statics_ok t b'"
  by (induction env seen cs b rule: add_entries.induct) (auto split: sum.splits dest: add_entry_ok)

text \<open>An entry that was taken stays what its key or its id finds.\<close>

definition entry_found :: "auth_env \<Rightarrow> tenancy \<Rightarrow> principal_config \<Rightarrow> builder \<Rightarrow> bool" where
  "entry_found env t c b \<longleftrightarrow> (\<exists>ix d. entry_indexes t c = Inr ix \<and> entry_digest env c = Inr d \<and>
     (if pg_kind c = KReader
      then \<exists>key. pg_key c = Some key \<and> List.find (\<lambda>(p, _). pr_id p = pg_id c) (bd_readers b) = Some (entry_principal t c ix, key)
      else map_of (bd_statics b) d = Some [entry_principal t c ix]))"

lemma map_of_bd_add: "map_of (bd_statics (bd_add d p b)) e =
    (if e = d then Some ((case map_of (bd_statics b) d of Some ps \<Rightarrow> ps | None \<Rightarrow> []) @ [p]) else map_of (bd_statics b) e)"
  by (simp add: bd_add_def update_conv')

lemma add_entry_cases:
  assumes "add_entry env seen c b = Inr b'"
  obtains ix d where "entry_indexes (bd_tenancy b) c = Inr ix" "entry_digest env c = Inr d" "map_of (bd_statics b) d = None"
    "pg_kind c \<noteq> KReader" "b' = bd_add d (entry_principal (bd_tenancy b) c ix) b"
  | ix d key where "entry_indexes (bd_tenancy b) c = Inr ix" "entry_digest env c = Inr d" "pg_kind c = KReader" "pg_key c = Some key"
    "List.find (\<lambda>(p, _). pr_id p = pg_id c) (bd_readers b) = None"
    "b' = b\<lparr>bd_readers := bd_readers b @ [(entry_principal (bd_tenancy b) c ix, key)]\<rparr>"
proof -
  obtain ix where ix: "entry_indexes (bd_tenancy b) c = Inr ix"
    using assms by (auto simp: add_entry_def Let_def split: if_splits sum.splits)
  obtain d where d: "entry_digest env c = Inr d"
    using assms ix by (auto simp: add_entry_def Let_def split: if_splits sum.splits)
  show ?thesis
  proof (cases "pg_kind c = KReader")
    case True
    obtain key where "pg_key c = Some key"
      using assms ix d True by (auto simp: add_entry_def Let_def split: if_splits option.splits)
    moreover have "List.find (\<lambda>(p, _). pr_id p = pg_id c) (bd_readers b) = None"
      using assms ix d True by (auto simp: add_entry_def Let_def find_None_iff split: if_splits)
    ultimately show ?thesis
      using that(2) [OF ix d True] assms ix d True by (auto simp: add_entry_def Let_def split: if_splits)
  next
    case False
    then show ?thesis
      using that(1) [OF ix d] assms ix d by (auto simp: add_entry_def Let_def split: if_splits)
  qed
qed

lemma bd_add_fields [simp]:
  "bd_tenancy (bd_add d p b) = bd_tenancy b" "bd_readers (bd_add d p b) = bd_readers b"
  by (simp_all add: bd_add_def)

lemma entry_found_add:
  "map_of (bd_statics b) d = None \<Longrightarrow> entry_found env t c b \<Longrightarrow> entry_found env t c (bd_add d p b)"
  unfolding entry_found_def map_of_bd_add bd_add_fields by (metis option.distinct(1))

lemma entry_found_reader: "entry_found env t c b \<Longrightarrow> entry_found env t c (b\<lparr>bd_readers := bd_readers b @ r\<rparr>)"
  unfolding entry_found_def by (auto simp: find_append split: if_splits)

lemma add_entry_finds:
  assumes "add_entry env seen c b = Inr b'"
  shows "entry_found env (bd_tenancy b) c b'" "bd_tenancy b' = bd_tenancy b" "entry_found env t c1 b \<Longrightarrow> entry_found env t c1 b'"
proof -
  have "entry_found env (bd_tenancy b) c b' \<and> bd_tenancy b' = bd_tenancy b \<and> (entry_found env t c1 b \<longrightarrow> entry_found env t c1 b')"
    using assms
  proof (cases rule: add_entry_cases)
    case (1 ix d)
    then show ?thesis
      by (simp add: entry_found_def [of _ _ c] map_of_bd_add entry_found_add)
  next
    case (2 ix d key)
    then show ?thesis
      by (simp add: entry_found_def [of _ _ c] find_append entry_found_reader entry_principal_def)
  qed
  then show "entry_found env (bd_tenancy b) c b'" "bd_tenancy b' = bd_tenancy b" "entry_found env t c1 b \<Longrightarrow> entry_found env t c1 b'"
    by blast+
qed

lemma add_entries_find:
  "add_entries env seen cs b = Inr b' \<Longrightarrow> (\<forall>c \<in> set cs. entry_found env (bd_tenancy b) c b') \<and> bd_tenancy b' = bd_tenancy b
     \<and> (\<forall>t c. entry_found env t c b \<longrightarrow> entry_found env t c b')"
proof (induction env seen cs b rule: add_entries.induct)
  case (2 env seen c cs b)
  from "2.prems" obtain b1 where b1: "add_entry env seen c b = Inr b1" "add_entries env (seen @ [to_ascii_lowercase (pg_id c)]) cs b1 = Inr b'"
    by (auto split: sum.splits)
  note ih = "2.IH" [OF b1, unfolded add_entry_finds(2) [OF b1(1)]]
  have "entry_found env (bd_tenancy b) c b'"
    using ih add_entry_finds(1) [OF b1(1)] by blast
  moreover have "entry_found env t c1 b'" if "entry_found env t c1 b" for t c1
    using ih add_entry_finds(3) [OF b1(1) that] by blast
  ultimately show ?case
    using ih by simp
qed simp

lemma static_principal_member:
  assumes "static_principal l d v = Some p"
  shows "\<exists>ps. (d, ps) \<in> set (vf_statics v) \<and> p \<in> set ps \<and> pr_only_at p \<in> {None, Some l}"
proof -
  obtain ps where ps: "map_of (vf_statics v) d = Some ps"
      "List.find (\<lambda>p. case pr_only_at p of None \<Rightarrow> True | Some at_l \<Rightarrow> at_l = l) ps = Some p"
    using assms by (auto simp: static_principal_def split: option.splits if_splits)
  then show ?thesis
    using find_Some [OF ps(2)] map_of_SomeD [OF ps(1)] by (cases "pr_only_at p") auto
qed


section \<open>The session key outlives a restart\<close>

lemma hex_digit_graphic: "n < 16 \<Longrightarrow> is_graphic (hex_digit n) \<and> hex_digit n \<noteq> CHR ''+''"
proof -
  assume "n < 16"
  then have "hex_char_val (hex_digit n) \<noteq> None" "hex_char_val (CHR ''+'') = None"
    by (simp_all add: hex_char_val_digit) (simp add: hex_char_val_def is_ascii_digit_def)
  then show ?thesis
    by (auto simp: hex_char_val_def is_graphic_def is_ascii_digit_def split: if_splits)
qed

lemma byte_high: "unat (b :: byte) div 16 < 16"
proof -
  have "unat b < 256"
    using unsigned_less [of b, where 'a = nat] by (simp del: unsigned_less)
  then show ?thesis
    by linarith
qed

lemma unhex_pairs_hex: "unhex_pairs (hex bs) = Some bs"
proof (induction bs)
  case (Cons b bs)
  have "u8_from_hex (hex_digit (unat b div 16)) (hex_digit (unat b mod 16)) = Some b"
    using hex_digit_graphic [OF byte_high] by (simp add: u8_from_hex_def hex_char_val_digit byte_high)
  then show ?case
    using Cons.IH by (simp add: hex_def)
qed (simp add: hex_def)

lemma hex_Cons: "hex (b # bs) = hex_digit (unat b div 16) # hex_digit (unat b mod 16) # hex bs"
  by (simp add: hex_def)

lemma hex_graphic: "c \<in> set (hex bs) \<Longrightarrow> is_graphic c"
proof (induction bs)
  case (Cons b bs)
  then show ?case
    using hex_digit_graphic byte_high by (auto simp: hex_Cons)
qed (simp add: hex_def)

lemma unhex32_hex: "length key = 32 \<Longrightarrow> unhex32 (hex key) = Some key"
proof -
  assume len: "length key = 32"
  have hexlen: "length (hex bs) = 2 * length bs" for bs
    by (induction bs) (simp_all add: hex_def)
  then have "hex key \<noteq> []"
    using len by (metis length_0_conv mult_eq_0_iff zero_neq_numeral)
  then have "trim (hex key) = hex key"
    by (intro trim_graphic hex_graphic [of _ key]) simp_all
  then show ?thesis
    by (simp add: unhex32_def unhex_pairs_hex hexlen len)
qed

text \<open>
  The key of the temporary S3 credentials is made once and kept. When opening says it is kept on disk, every later
  opening gives the same key, whatever the random source gives then and whether or not the disk can still be
  written, and leaves the file alone; so a session token issued before a restart is judged after it exactly
  as before.
\<close>

theorem session_key_outlives_restart:
  assumes "sessions_open fresh mem written f = ((key, True), f')" and "length fresh = 32"
  shows "sessions_open fresh' mem' written' f' = ((key, True), f')
    \<and> (\<exists>key'. fst (sessions_open fresh' mem' written' f') = (key', True)
         \<and> session_verify env key' token now = session_verify env key token now)"
  using assms unhex32_hex [OF assms(2)]
  by (auto simp: sessions_open_def load_or_create_def Let_def split: key_file.splits option.splits if_splits)

section \<open>A concrete configuration\<close>

definition demo_key :: string where "demo_key = ''0123456789abcdef01234567''"

definition demo_entry :: principal_config where
  "demo_entry = \<lparr>pg_id = ''edge'', pg_kind = KIngest, pg_tenant = None, pg_indexes = None, pg_key = Some demo_key, pg_key_sha256 = None\<rparr>"

definition demo_cred_config :: cred_config where
  "demo_cred_config = \<lparr>cc_peer_tokens = [''t''], cc_nodes = [], cc_replication_tokens = [], cc_hec_tokens = [], cc_sentry_keys = [],
     cc_admin_token = None, cc_s3 = None, cc_principals = [demo_entry]\<rparr>"

definition demo_key_env :: auth_env where
  "demo_key_env = demo_auth_env\<lparr>sha256 := string_bytes\<rparr>"


theorem session_key_outlives_restart_witness:
  "sessions_open (replicate 32 9) [] False (snd (sessions_open (replicate 32 7) [] True KeyNotFound))
     = ((replicate 32 7, True), KeyText (hex (replicate 32 7)))"
proof -
  have "sessions_open (replicate 32 7) [] True KeyNotFound = ((replicate 32 7, True), KeyText (hex (replicate 32 7)))"
    by (simp add: sessions_open_def load_or_create_def)
  from session_key_outlives_restart [OF this, of "replicate 32 9" "[]" False] this show ?thesis
    by simp
qed

end
