(* ===== verification/Peer.thy ===== *)
theory Peer
  imports Wal_Acks Auth
begin

text \<open>
  The peer endpoint (\<^verbatim>\<open>peer.rs\<close>): the provenance that stops records from travelling in circles, and
  the ingest of a batch, from its lines to the reply. The dedupe window and the wait for the WAL are
  those of \<^verbatim>\<open>Dedupe\<close> and \<^verbatim>\<open>Wal_Acks\<close>, the binding to the sender's tenant that of \<^verbatim>\<open>Auth\<close>. The JSON
  reader of a record, the sink of the pipeline and how the wait ended are arguments.
\<close>

section \<open>Provenance\<close>

definition MAX_HOPS :: nat where "MAX_HOPS = 8"
definition ATTR_ORIGIN :: string where "ATTR_ORIGIN = ''logless.origin''"
definition ATTR_HOPS :: string where "ATTR_HOPS = ''logless.hops''"

definition hops_value :: "attr_value \<Rightarrow> nat option" where
  "hops_value v = (case v of
     I64 n \<Rightarrow> if 0 \<le> n \<and> n < 2 ^ 32 then Some (nat n) else None
   | Str s \<Rightarrow> if s \<noteq> [] \<and> list_all is_ascii_digit s then parse_unsigned (2 ^ 32 - 1) s else None
   | _ \<Rightarrow> None)"

fun provenance_loop :: "string option \<Rightarrow> nat option \<Rightarrow> attr list \<Rightarrow> (string option \<times> nat option) option" where
  "provenance_loop origin hops [] = Some (origin, hops)"
| "provenance_loop origin hops (a # as) =
     (if attr_key a = ATTR_ORIGIN then
        (case attr_val a of
           Str value \<Rightarrow> if value = [] \<or> origin \<noteq> None then None else provenance_loop (Some value) hops as
         | _ \<Rightarrow> None)
      else if attr_key a = ATTR_HOPS then
        (case hops_value (attr_val a) of
           None \<Rightarrow> None
         | Some n \<Rightarrow> if hops \<noteq> None then None else provenance_loop origin (Some n) as)
      else provenance_loop origin hops as)"

definition provenance :: "log_record \<Rightarrow> (string option \<times> nat) option" where
  "provenance r = map_option (\<lambda>(origin, hops). (origin, case hops of None \<Rightarrow> 0 | Some n \<Rightarrow> n))
     (provenance_loop None None (attributes r))"

definition is_loop :: "log_record \<Rightarrow> string \<Rightarrow> bool" where
  "is_loop r own_instance = (case provenance r of
     Some (origin, hops) \<Rightarrow> origin = Some own_instance \<or> MAX_HOPS \<le> hops
   | None \<Rightarrow> True)"

definition stamp_for_send :: "log_record \<Rightarrow> string \<Rightarrow> log_record" where
  "stamp_for_send r own_instance = (
     let (origin, hops) = (case provenance r of
           Some (origin, hops) \<Rightarrow> (case origin of Some o1 \<Rightarrow> o1 | None \<Rightarrow> own_instance, min (min (hops + 1) (2 ^ 32 - 1)) MAX_HOPS)
         | None \<Rightarrow> (own_instance, MAX_HOPS))
     in r\<lparr>attributes := filter (\<lambda>a. attr_key a \<noteq> ATTR_HOPS \<and> attr_key a \<noteq> ATTR_ORIGIN) (attributes r)
           @ [\<lparr>attr_key = ATTR_ORIGIN, attr_val = Str origin\<rparr>, \<lparr>attr_key = ATTR_HOPS, attr_val = I64 (int hops)\<rparr>]\<rparr>)"

text \<open>
  The way of a record along a path of instances: each passes on what it does not refuse. The number
  of times it is passed on.
\<close>

fun relayed :: "log_record \<Rightarrow> string list \<Rightarrow> nat" where
  "relayed r [] = 0"
| "relayed r (i # path) = (if is_loop r i then 0 else 1 + relayed (stamp_for_send r i) path)"

lemma provenance_loop_filtered:
  "provenance_loop origin hops (filter (\<lambda>a. attr_key a \<noteq> ATTR_HOPS \<and> attr_key a \<noteq> ATTR_ORIGIN) as @ bs) = provenance_loop origin hops bs"
  by (induction as) auto

lemma provenance_stamped:
  "provenance (stamp_for_send r i) = (case provenance r of
     Some (origin, hops) \<Rightarrow>
       if (case origin of Some o1 \<Rightarrow> o1 | None \<Rightarrow> i) = [] then None
       else Some (Some (case origin of Some o1 \<Rightarrow> o1 | None \<Rightarrow> i), min (hops + 1) MAX_HOPS)
   | None \<Rightarrow> if i = [] then None else Some (Some i, MAX_HOPS))"
proof -
  have keys: "ATTR_ORIGIN \<noteq> ATTR_HOPS" "ATTR_HOPS \<noteq> ATTR_ORIGIN"
    by (simp_all add: ATTR_ORIGIN_def ATTR_HOPS_def)
  have "provenance (r\<lparr>attributes := filter (\<lambda>a. attr_key a \<noteq> ATTR_HOPS \<and> attr_key a \<noteq> ATTR_ORIGIN) (attributes r)
      @ [\<lparr>attr_key = ATTR_ORIGIN, attr_val = Str origin\<rparr>, \<lparr>attr_key = ATTR_HOPS, attr_val = I64 (int hops)\<rparr>]\<rparr>)
    = (if origin = [] then None else Some (Some origin, hops))" if "hops \<le> MAX_HOPS" for origin hops
    using that keys by (simp add: provenance_def provenance_loop_filtered hops_value_def MAX_HOPS_def)
  from this [of MAX_HOPS] this [of "min (min (h + 1) (2 ^ 32 - 1)) MAX_HOPS" for h] show ?thesis
    by (auto simp: stamp_for_send_def MAX_HOPS_def split: option.splits)
qed

lemma stamped_hops:
  assumes "\<not> is_loop r i" "provenance r = Some (origin, hops)"
  shows "provenance (stamp_for_send r i) = None \<or> (\<exists>origin'. provenance (stamp_for_send r i) = Some (origin', hops + 1))"
  using assms by (auto simp: provenance_stamped is_loop_def split: option.splits)

lemma relayed_from: "provenance r = Some (origin, hops) \<Longrightarrow> relayed r path \<le> MAX_HOPS - hops"
proof (induction path arbitrary: r origin hops)
  case (Cons i path)
  show ?case
  proof (cases "is_loop r i")
    case False
    then have "hops < MAX_HOPS"
      using Cons.prems by (simp add: is_loop_def)
    consider "provenance (stamp_for_send r i) = None" | origin' where "provenance (stamp_for_send r i) = Some (origin', hops + 1)"
      using stamped_hops [OF False Cons.prems] by auto
    then show ?thesis
    proof cases
      case 1
      then have "relayed (stamp_for_send r i) path = 0"
        by (cases path) (simp_all add: is_loop_def)
      then show ?thesis using False \<open>hops < MAX_HOPS\<close> by simp
    next
      case 2
      then show ?thesis using Cons.IH [OF 2] False \<open>hops < MAX_HOPS\<close> by simp
    qed
  qed simp
qed simp

lemma stamped_again_is_loop:
  assumes "is_loop r o1" "\<And>h. provenance r \<noteq> Some (None, h)"
  shows "is_loop (stamp_for_send r i) o1 \<and> (\<forall>h. provenance (stamp_for_send r i) \<noteq> Some (None, h))"
  using assms by (auto simp: is_loop_def provenance_stamped split: option.splits if_splits)

text \<open>
  C34. Records do not travel for ever. Whatever attributes a record arrives with, forged or not, it is
  passed on at most \<^verbatim>\<open>MAX_HOPS\<close> times along any path of instances, however they are wired; and once an
  instance has sent a record that named no origin, every later copy of it is refused by that instance.
\<close>

theorem relays_end:
  "relayed r path \<le> MAX_HOPS
   \<and> (provenance r = Some (None, h) \<longrightarrow> is_loop (fold (\<lambda>i r. stamp_for_send r i) later (stamp_for_send r i0)) i0)"
proof -
  have "relayed r path \<le> MAX_HOPS"
  proof (cases "provenance r")
    case None
    then show ?thesis by (cases path) (simp_all add: is_loop_def)
  next
    case (Some p)
    then show ?thesis using relayed_from [of r "fst p" "snd p" path] by simp
  qed
  moreover have "is_loop (fold (\<lambda>i r. stamp_for_send r i) later (stamp_for_send r i0)) i0" if "provenance r = Some (None, h)"
  proof -
    have start: "is_loop (stamp_for_send r i0) i0" "\<And>h. provenance (stamp_for_send r i0) \<noteq> Some (None, h)"
      using that by (auto simp: is_loop_def provenance_stamped split: if_splits)
    have "is_loop r1 i0 \<Longrightarrow> (\<And>h. provenance r1 \<noteq> Some (None, h)) \<Longrightarrow> is_loop (fold (\<lambda>i r. stamp_for_send r i) later r1) i0" for r1
      by (induction later arbitrary: r1) (auto simp: stamped_again_is_loop)
    with start show ?thesis by blast
  qed
  ultimately show ?thesis by blast
qed

theorem relays_end_witness:
  "relayed (log_record_new 0 0 9 ''x'') [''a'', ''b'', ''a''] \<le> MAX_HOPS
   \<and> is_loop (stamp_for_send (stamp_for_send (log_record_new 0 0 9 ''x'') ''a'') ''b'') ''a''"
proof -
  have "provenance (log_record_new 0 0 9 ''x'') = Some (None, 0)"
    by (simp add: provenance_def log_record_new_def)
  then show ?thesis
    using relays_end [of "log_record_new 0 0 9 ''x''" "[''a'', ''b'', ''a'']" 0 "[''b'']" "''a''"] by simp
qed

section \<open>Ingest\<close>

datatype admitted = Accepted | Pending nat | Busy

record peer_stats =
  ps_requests :: u64
  ps_records :: u64
  ps_accepted :: u64
  ps_duplicates :: u64
  ps_loops :: u64
  ps_busy :: u64
  ps_unauthorized :: u64
  ps_bad_request :: u64
  ps_dedupe_unsaved :: u64
  ps_wal_waits :: u64
  ps_wal_wait_us_total :: u64
  ps_wal_wait_us_max :: u64
  ps_wal_timeouts :: u64
  ps_wal_closed :: u64
  ps_settled_late :: u64

definition peer_stats_default :: peer_stats where
  "peer_stats_default = \<lparr>ps_requests = 0, ps_records = 0, ps_accepted = 0, ps_duplicates = 0, ps_loops = 0, ps_busy = 0,
     ps_unauthorized = 0, ps_bad_request = 0, ps_dedupe_unsaved = 0, ps_wal_waits = 0, ps_wal_wait_us_total = 0,
     ps_wal_wait_us_max = 0, ps_wal_timeouts = 0, ps_wal_closed = 0, ps_settled_late = 0\<rparr>"

text \<open>A wait is in nanoseconds.\<close>

definition stats_waited :: "nat \<Rightarrow> peer_stats \<Rightarrow> peer_stats" where
  "stats_waited waited s = (let us = of_nat (min (waited div 1000) u64_max) in
     s\<lparr>ps_wal_waits := ps_wal_waits s + 1, ps_wal_wait_us_total := ps_wal_wait_us_total s + us,
       ps_wal_wait_us_max := max (ps_wal_wait_us_max s) us\<rparr>)"

definition retry_after :: "nat \<Rightarrow> nat" where
  "retry_after bound = min (max (bound div 1000000000) 1) 5"

datatype peer_reply =
    Unauthorized refusal
  | BadRecord nat
  | ForbiddenTenant
  | CannotConfirm
  | WalSlow nat
  | ShuttingDown
  | PipelineFull
  | LoopDetected nat
  | Ingested nat nat nat

record peer_handler =
  ph_instance :: string
  ph_dedupe :: dedupe_window
  ph_stats :: peer_stats
  ph_acks :: "wal_acks option"
  ph_auth :: verifier

definition on_stats :: "(peer_stats \<Rightarrow> peer_stats) \<Rightarrow> peer_handler \<Rightarrow> peer_handler" where
  "on_stats f h = h\<lparr>ph_stats := f (ph_stats h)\<rparr>"

definition is_ascii_whitespace_byte :: "byte \<Rightarrow> bool" where
  "is_ascii_whitespace_byte b \<longleftrightarrow> b \<in> {9, 10, 12, 13, 32}"

text \<open>The lines of a body; the error is the number of the first line that is not a record.\<close>

fun parse_lines :: "(bytes \<Rightarrow> log_record option) \<Rightarrow> nat \<Rightarrow> bytes list \<Rightarrow> nat + log_record list" where
  "parse_lines from_slice index [] = Inr []"
| "parse_lines from_slice index (line # lines) =
     (if list_all is_ascii_whitespace_byte line then parse_lines from_slice (index + 1) lines
      else (case from_slice line of
          None \<Rightarrow> Inl (index + 1)
        | Some r \<Rightarrow> (case parse_lines from_slice (index + 1) lines of Inl e \<Rightarrow> Inl e | Inr rs \<Rightarrow> Inr (r # rs))))"

text \<open>The loop that sorts the records of a batch: what is kept, the duplicates and the loops.\<close>

fun sift :: "string \<Rightarrow> dedupe_window \<Rightarrow> uuid set \<Rightarrow> log_record list \<Rightarrow> log_record list \<times> nat \<times> nat" where
  "sift own w seen [] = ([], 0, 0)"
| "sift own w seen (r # rs) =
     (if is_loop r own then (let (keep, dups, loops) = sift own w seen rs in (keep, dups, loops + 1))
      else if win_contains w (event_id r) \<or> event_id r \<in> seen
      then (let (keep, dups, loops) = sift own w seen rs in (keep, dups + 1, loops))
      else (let (keep, dups, loops) = sift own w (insert (event_id r) seen) rs in (r # keep, dups, loops)))"

definition save_ids :: "id_io \<Rightarrow> uuid list \<Rightarrow> peer_handler \<Rightarrow> peer_handler" where
  "save_ids io ids h = (case insert_all io ids (ph_dedupe h) of
     (Inr _, w) \<Rightarrow> h\<lparr>ph_dedupe := w\<rparr>
   | (Inl _, w) \<Rightarrow> on_stats (\<lambda>s. s\<lparr>ps_dedupe_unsaved := ps_dedupe_unsaved s + 1\<rparr>) (h\<lparr>ph_dedupe := w\<rparr>))"

definition settle_late :: "id_io \<Rightarrow> nat \<Rightarrow> peer_handler \<Rightarrow> peer_handler" where
  "settle_late io synced h = (case ph_acks h of
     None \<Rightarrow> h
   | Some acks \<Rightarrow>
       let (late, acks') = wa_settle synced acks; h' = h\<lparr>ph_acks := Some acks'\<rparr>
       in if late = [] then h'
          else save_ids io late (on_stats (\<lambda>s. s\<lparr>ps_settled_late := ps_settled_late s + of_nat (length late)\<rparr>) h'))"

text \<open>From the request to the records that are kept, with the counts of duplicates and loops.\<close>

definition ingest_front ::
  "auth_env \<Rightarrow> string + fetched \<Rightarrow> (u64 \<Rightarrow> string) \<Rightarrow> (bytes \<Rightarrow> log_record option) \<Rightarrow> id_io \<Rightarrow> nat \<Rightarrow> nat \<Rightarrow> bool
    \<Rightarrow> string option \<Rightarrow> bytes \<Rightarrow> peer_handler \<Rightarrow> (peer_reply + log_record list \<times> nat \<times> nat) \<times> peer_handler" where
  "ingest_front env answer f64_text from_slice io synced now is_open bearer content h0 = (
     let h1 = on_stats (\<lambda>s. s\<lparr>ps_requests := ps_requests s + 1\<rparr>) h0
     in case authorize env answer now LPeer OIngest (\<not> is_open) bearer (ph_auth h1) of
          (Inl reason, v) \<Rightarrow> (Inl (Unauthorized reason),
             on_stats (\<lambda>s. s\<lparr>ps_unauthorized := ps_unauthorized s + 1\<rparr>) (h1\<lparr>ph_auth := v\<rparr>))
        | (Inr p, v) \<Rightarrow>
            (case parse_lines from_slice 0 (split_on 10 content) of
               Inl line \<Rightarrow> (Inl (BadRecord line),
                 on_stats (\<lambda>s. s\<lparr>ps_bad_request := ps_bad_request s + 1\<rparr>) (h1\<lparr>ph_auth := v\<rparr>))
             | Inr records \<Rightarrow>
                 let h2 = on_stats (\<lambda>s. s\<lparr>ps_records := ps_records s + of_nat (length records)\<rparr>) (h1\<lparr>ph_auth := v\<rparr>)
                 in case admit f64_text now p records ATTR_INDEX False (ph_auth h2) of
                      (Inl _, v') \<Rightarrow> (Inl ForbiddenTenant,
                        on_stats (\<lambda>s. s\<lparr>ps_unauthorized := ps_unauthorized s + 1\<rparr>) (h2\<lparr>ph_auth := refuse WrongTenant v'\<rparr>))
                    | (Inr (_, admitted_records), v') \<Rightarrow>
                        let h3 = settle_late io synced (h2\<lparr>ph_auth := v'\<rparr>);
                            (keep, dups, loops) = sift (ph_instance h3) (ph_dedupe h3) {} admitted_records
                        in (Inr (keep, dups, loops),
                            on_stats (\<lambda>s. s\<lparr>ps_duplicates := ps_duplicates s + of_nat dups,
                              ps_loops := ps_loops s + of_nat loops\<rparr>) h3)))"

text \<open>The end of a request whose records are durable, or that kept none.\<close>

definition ingest_done :: "id_io \<Rightarrow> uuid list \<Rightarrow> nat \<Rightarrow> nat \<Rightarrow> peer_handler \<Rightarrow> peer_reply \<times> peer_handler" where
  "ingest_done io ids dups loops h = (
     let h1 = (if ids = [] then h else save_ids io ids h);
         h2 = on_stats (\<lambda>s. s\<lparr>ps_accepted := ps_accepted s + of_nat (length ids)\<rparr>) h1
     in (if 0 < loops \<and> length ids = 0 \<and> dups = 0 then LoopDetected loops else Ingested (length ids) dups loops, h2))"

text \<open>
  The loop of \<^verbatim>\<open>wait\<close>. A look is what the request thread finds when it holds the lock: the synced count, the
  clock, the tickets as the other threads left them, and the ids that other requests saved meanwhile. The
  result is \<open>None\<close> while the thread still sleeps.
\<close>

type_synonym look = "nat \<times> nat \<times> wal_acks \<times> dedupe_window"

fun peer_wait :: "nat \<Rightarrow> nat \<Rightarrow> look list \<Rightarrow> (wal_wait \<times> wal_acks \<times> dedupe_window) option" where
  "peer_wait started tk [] = None"
| "peer_wait started tk ((synced, now, t, w) # looks) =
     (case wait_turn synced started now tk t of
        (Some answer, t') \<Rightarrow> Some (answer, t', w)
      | (None, _) \<Rightarrow> peer_wait started tk looks)"

text \<open>From the kept records to the reply. \<open>sink\<close> is what the pipeline does with them.\<close>

definition ingest_back ::
  "(log_record list \<Rightarrow> admitted) \<Rightarrow> nat \<Rightarrow> look list \<Rightarrow> id_io \<Rightarrow> log_record list \<times> nat \<times> nat \<Rightarrow> peer_handler
    \<Rightarrow> (peer_reply \<times> peer_handler) option" where
  "ingest_back sink started looks io kept h = (case kept of (keep, dups, loops) \<Rightarrow>
     let ids = map event_id keep in
     if keep = [] then Some (ingest_done io ids dups loops h)
     else case sink keep of
       Accepted \<Rightarrow> Some (ingest_done io ids dups loops h)
     | Busy \<Rightarrow> Some (PipelineFull, on_stats (\<lambda>s. s\<lparr>ps_busy := ps_busy s + 1\<rparr>) h)
     | Pending tk \<Rightarrow>
         (case ph_acks h of
            None \<Rightarrow> Some (CannotConfirm, h)
          | Some _ \<Rightarrow>
              (case peer_wait started tk looks of
                 None \<Rightarrow> None
               | Some (answer, t, w) \<Rightarrow>
                   let h1 = h\<lparr>ph_acks := Some t, ph_dedupe := w\<rparr>
                   in Some (case answer of
                     Synced d \<Rightarrow> ingest_done io ids dups loops (on_stats (stats_waited d) h1)
                   | TimedOut d \<Rightarrow> (WalSlow (retry_after (wa_bound t)),
                       on_stats (\<lambda>s. (stats_waited d s)\<lparr>ps_wal_timeouts := ps_wal_timeouts s + 1\<rparr>)
                         (h1\<lparr>ph_acks := Some (wa_abandon tk ids t)\<rparr>))
                   | WaitClosed \<Rightarrow> (ShuttingDown, on_stats (\<lambda>s. s\<lparr>ps_wal_closed := ps_wal_closed s + 1\<rparr>) h1)))))"

section \<open>What a request is taken for\<close>

lemma sift_facts:
  assumes "sift own w seen rs = (keep, dups, loops)"
  shows "length keep + dups + loops = length rs" "distinct (map event_id keep)" "set keep \<subseteq> set rs"
    "r \<in> set keep \<Longrightarrow> \<not> is_loop r own \<and> \<not> win_contains w (event_id r) \<and> event_id r \<notin> seen"
    "r \<in> set rs \<Longrightarrow> is_loop r own \<or> win_contains w (event_id r) \<or> event_id r \<in> seen \<union> event_id ` set keep"
proof -
  have "length keep + dups + loops = length rs \<and> distinct (map event_id keep) \<and> set keep \<subseteq> set rs
    \<and> (\<forall>r \<in> set keep. \<not> is_loop r own \<and> \<not> win_contains w (event_id r) \<and> event_id r \<notin> seen)
    \<and> (\<forall>r \<in> set rs. is_loop r own \<or> win_contains w (event_id r) \<or> event_id r \<in> seen \<union> event_id ` set keep)"
    using assms
  proof (induction own w seen rs arbitrary: keep dups loops rule: sift.induct)
    case (2 own w seen r rs)
    show ?case
    proof (cases "is_loop r own")
      case True
      then obtain l1 where rec: "sift own w seen rs = (keep, dups, l1)" "loops = Suc l1"
        using "2.prems" by (auto split: prod.splits)
      from "2.IH"(1) [OF True rec(1)] rec(2) True show ?thesis
        by auto
    next
      case loop: False
      show ?thesis
      proof (cases "win_contains w (event_id r) \<or> event_id r \<in> seen")
        case True
        then obtain d1 where rec: "sift own w seen rs = (keep, d1, loops)" "dups = Suc d1"
          using "2.prems" loop by (auto split: prod.splits)
        from "2.IH"(2) [OF loop True rec(1)] rec(2) True show ?thesis
          by auto
      next
        case False
        then obtain keep1 where rec: "sift own w (insert (event_id r) seen) rs = (keep1, dups, loops)" "keep = r # keep1"
          using "2.prems" loop by (auto split: prod.splits)
        from "2.IH"(3) [OF loop False rec(1)] False loop rec(2) show ?thesis
          by auto
      qed
    qed
  qed simp
  then show "length keep + dups + loops = length rs" "distinct (map event_id keep)" "set keep \<subseteq> set rs"
    "r \<in> set keep \<Longrightarrow> \<not> is_loop r own \<and> \<not> win_contains w (event_id r) \<and> event_id r \<notin> seen"
    "r \<in> set rs \<Longrightarrow> is_loop r own \<or> win_contains w (event_id r) \<or> event_id r \<in> seen \<union> event_id ` set keep"
    by blast+
qed

text \<open>The window in memory stays the end of the ids it was given, saved or not.\<close>

lemma insert_all_keeps:
  "win_capacity (snd (insert_all io ids w)) = win_capacity (snd (remember_all ids w))"
  "win_order (snd (insert_all io ids w)) = win_order (snd (remember_all ids w))"
  "win_set (snd (insert_all io ids w)) = win_set (snd (remember_all ids w))"
  by (simp_all add: insert_all_def case_prod_beta Let_def split: option.split)

lemma insert_all_window:
  assumes "win_over n L w" "insert_all io ids w = (res, w')"
  shows "\<exists>F. win_over n (L @ F) w' \<and> length F \<le> length ids \<and> (\<forall>i \<in> set ids. i \<notin> win_set w \<longrightarrow> i \<in> set F)"
proof -
  have "win_capacity w' = win_capacity (snd (remember_all ids w))" "win_order w' = win_order (snd (remember_all ids w))"
    "win_set w' = win_set (snd (remember_all ids w))"
    using insert_all_keeps [of io ids w] assms(2) by simp_all
  then have "win_over n K (snd (remember_all ids w)) \<Longrightarrow> win_over n K w'" for K
    by (simp add: win_over_def)
  then show ?thesis
    using remember_all_window [OF assms(1), of ids "fst (remember_all ids w)"] by (metis prod.collapse)
qed

lemma save_ids_window:
  assumes "win_over n L (ph_dedupe h)"
  shows "\<exists>F. win_over n (L @ F) (ph_dedupe (save_ids io ids h)) \<and> length F \<le> length ids
    \<and> (\<forall>i \<in> set ids. i \<notin> win_set (ph_dedupe h) \<longrightarrow> i \<in> set F)"
proof -
  obtain res w where "insert_all io ids (ph_dedupe h) = (res, w)"
    by (metis surj_pair)
  then show ?thesis
    using insert_all_window [OF assms] by (cases res) (auto simp: save_ids_def on_stats_def)
qed

lemma saved_ids_contained:
  assumes "win_over n L (ph_dedupe h)" "length ids \<le> n" "i \<in> set ids" "\<not> win_contains (ph_dedupe h) i"
  shows "win_contains (ph_dedupe (save_ids io ids h)) i"
proof -
  obtain F where "win_over n (L @ F) (ph_dedupe (save_ids io ids h))" "length F \<le> length ids" "i \<in> set F"
    using save_ids_window [OF assms(1), of io ids] assms(3,4) by (auto simp: win_contains_def)
  then show ?thesis
    using assms(2) by (auto simp: win_contains_def win_over_def last_n_def)
qed

lemma on_stats_dedupe [simp]: "ph_dedupe (on_stats f h) = ph_dedupe h"
  by (simp add: on_stats_def)

lemma peer_wait_synced:
  "peer_wait started tk looks = Some (Synced d, t', w)
    \<Longrightarrow> \<exists>synced now t. (synced, now, t, w) \<in> set looks \<and> ticket_durable synced (wa_tickets t) tk"
proof (induction started tk looks rule: peer_wait.induct)
  case (2 started tk synced now t w1 looks)
  show ?case
  proof (cases "wait_turn synced started now tk t")
    case (Pair answer t1)
    with 2 show ?thesis
      by (cases answer) (auto simp: wait_turn_def split: if_splits)
  qed
qed simp

lemma peer_wait_window: "peer_wait started tk looks = Some (answer, t', w) \<Longrightarrow> \<exists>synced now t. (synced, now, t, w) \<in> set looks"
  by (induction started tk looks rule: peer_wait.induct) (auto split: prod.splits option.splits)

lemma peer_wait_ends:
  "(synced, now, t, w) \<in> set looks \<Longrightarrow> started + wa_bound t \<le> now \<Longrightarrow> peer_wait started tk looks \<noteq> None"
proof (induction started tk looks rule: peer_wait.induct)
  case (2 started tk synced1 now1 t1 w1 looks)
  then show ?case
    by (auto simp: wait_turn_def split: prod.splits option.splits)
qed simp

text \<open>A 200 or a 508 comes from the end of the request, over the window it found there.\<close>

definition taken_by :: "(log_record list \<Rightarrow> admitted) \<Rightarrow> look list \<Rightarrow> log_record list \<Rightarrow> bool" where
  "taken_by sink looks keep \<longleftrightarrow> sink keep = Accepted
     \<or> (\<exists>tk synced now t w. sink keep = Pending tk \<and> (synced, now, t, w) \<in> set looks \<and> ticket_durable synced (wa_tickets t) tk)"

lemma ingest_back_ok:
  assumes "ingest_back sink started looks io (keep, dups, loops) h1 = Some (reply, h2)"
    "reply = Ingested a d l \<or> reply = LoopDetected l"
  obtains h where "ingest_done io (map event_id keep) dups loops h = (reply, h2)" "keep \<noteq> [] \<Longrightarrow> taken_by sink looks keep"
    "ph_dedupe h = ph_dedupe h1 \<or> (\<exists>synced now t. (synced, now, t, ph_dedupe h) \<in> set looks)"
proof (cases "keep = [] \<or> sink keep = Accepted")
  case True
  then have "ingest_done io (map event_id keep) dups loops h1 = (reply, h2)" "keep \<noteq> [] \<Longrightarrow> taken_by sink looks keep"
    using assms(1) by (auto simp: ingest_back_def Let_def taken_by_def split: if_splits)
  then show ?thesis
    using that [of h1] by blast
next
  case False
  then obtain tk acks where p: "sink keep = Pending tk" "ph_acks h1 = Some acks"
    using assms by (auto simp: ingest_back_def Let_def split: admitted.splits option.splits)
  then obtain ans t w where wt: "peer_wait started tk looks = Some (ans, t, w)"
    using assms False by (auto simp: ingest_back_def Let_def split: option.splits)
  then obtain e where ans: "ans = Synced e"
    using assms False p by (cases ans) (auto simp: ingest_back_def Let_def)
  then obtain synced now t0 where "(synced, now, t0, w) \<in> set looks" "ticket_durable synced (wa_tickets t0) tk"
    using wt peer_wait_synced by blast
  moreover have "ingest_done io (map event_id keep) dups loops
      (on_stats (stats_waited e) (h1\<lparr>ph_acks := Some t, ph_dedupe := w\<rparr>)) = (reply, h2)"
    using assms(1) False p wt ans by (simp add: ingest_back_def Let_def)
  ultimately show ?thesis
    using that p(1) by (fastforce simp: taken_by_def)
qed

lemma ingest_front_kept:
  assumes "ingest_front env answer f64_text from_slice io synced now is_open bearer content h0 = (Inr (keep, dups, loops), h1)"
  shows "\<exists>records. sift (ph_instance h1) (ph_dedupe h1) {} records = (keep, dups, loops)"
  using assms unfolding ingest_front_def Let_def
  by (auto split: prod.splits sum.splits) (auto simp: on_stats_def)

lemma ingest_done_ok:
  assumes "ingest_done io ids dups loops h = (reply, h2)" "win_over n L (ph_dedupe h)" "length ids \<le> n"
    "\<And>i. i \<in> set ids \<Longrightarrow> \<not> win_contains (ph_dedupe h) i"
  shows "i \<in> set ids \<Longrightarrow> win_contains (ph_dedupe h2) i"
    "reply = Ingested a d l \<Longrightarrow> a = length ids \<and> d = dups \<and> l = loops"
  using assms saved_ids_contained [OF assms(2,3)] by (auto simp: ingest_done_def Let_def split: if_splits)


text \<open>
  C36. A request that waits for the write-ahead log is answered: once its thread looks after the bound has
  passed, the wait is over, whatever the other threads did to the tickets in between. A sender that is told
  to retry because the log is slow is told to wait from one to five seconds.
\<close>

theorem ingest_wait_ends:
  assumes "(synced, now, t, w) \<in> set looks" "started + wa_bound t \<le> now"
  shows "\<exists>reply h2. ingest_back sink started looks io kept h1 = Some (reply, h2) \<and> (\<forall>n. reply = WalSlow n \<longrightarrow> 1 \<le> n \<and> n \<le> 5)"
proof -
  obtain keep dups loops where kept: "kept = (keep, dups, loops)"
    by (metis prod_cases3)
  have fin: "\<exists>reply h2. ingest_done io (map event_id keep) dups loops h = (reply, h2) \<and> (\<forall>n. reply = WalSlow n \<longrightarrow> 1 \<le> n \<and> n \<le> 5)" for h
    by (simp add: ingest_done_def Let_def)
  show ?thesis
  proof (cases "sink keep")
    case (Pending tk)
    obtain ans t' w' where "peer_wait started tk looks = Some (ans, t', w')"
      using peer_wait_ends [OF assms, of tk] by auto
    with fin Pending show ?thesis
      by (cases "ph_acks h1"; cases ans) (auto simp: ingest_back_def kept Let_def retry_after_def)
  qed (use fin in \<open>auto simp: ingest_back_def kept Let_def\<close>)
qed

definition demo_peer :: peer_handler where
  "demo_peer = \<lparr>ph_instance = ''b'', ph_dedupe = dedupe_new 4, ph_stats = peer_stats_default, ph_acks = Some (wa_new 5),
     ph_auth = demo_verifier\<lparr>vf_route_indexes := False\<rparr>\<rparr>"

definition demo_looks :: "look list" where
  "demo_looks = [(0, 1, wa_bind 1 2 (snd (wa_issue (wa_new 5))), dedupe_new 4), (2, 3, wa_bind 1 2 (snd (wa_issue (wa_new 5))), dedupe_new 4)]"

lemma demo_front:
  obtains h1 where "ingest_front demo_auth_env (Inl []) (\<lambda>_. []) (\<lambda>_. Some (log_record_new 7 0 9 ''x'')) demo_id_io 0 1 True None [1, 10, 1] demo_peer
     = (Inr ([log_record_new 7 0 9 ''x''], 1, 0), h1)" "ph_dedupe h1 = dedupe_new 4" "ph_acks h1 = Some (wa_new 5)"
proof -
  have "is_loop (log_record_new 7 0 9 ''x'') ''b'' = False"
    by (simp add: is_loop_def provenance_def log_record_new_def MAX_HOPS_def)
  then show ?thesis
    using that by (simp add: ingest_front_def Let_def on_stats_def demo_peer_def authorize_def demo_verifier_def demo_anonymous_def
      is_ascii_whitespace_byte_def admit_def log_record_new_def choose_index_def bind_record_def settle_late_def wa_settle_def
      wa_new_def win_contains_def dedupe_new_def)
qed


theorem ingest_wait_ends_witness:
  "\<exists>reply h2. ingest_back (\<lambda>_. Pending 1) 0 [(0, 5, wa_new 5, dedupe_new 4)] demo_id_io ([log_record_new 7 0 9 ''x''], 1, 0) demo_peer
     = Some (reply, h2) \<and> (\<forall>n. reply = WalSlow n \<longrightarrow> 1 \<le> n \<and> n \<le> 5)"
  by (rule ingest_wait_ends [of 0 5 "wa_new 5" "dedupe_new 4"]) (simp_all add: wa_new_def)

end
