(* ===== verification/Utf8.thy ===== *)
theory Utf8
  imports Prelude
begin

text \<open>
  UTF-8 as the standard library reads it: the sequence at the head of a byte string, \<^verbatim>\<open>String::from_utf8_lossy\<close>,
  which puts U+FFFD for every maximal invalid piece, and \<^verbatim>\<open>str::chars\<close> as code points. The facts that matter to
  a reader of files are where a text may be cut: at an ASCII byte, and behind any piece that is not the start of
  a longer sequence.
\<close>

section \<open>The sequence at the head of a string\<close>

text \<open>A byte beyond the end reads as zero.\<close>

definition byte_at :: "string \<Rightarrow> nat \<Rightarrow> nat" where
  "byte_at s i = (if i < length s then of_char (s ! i) else 0)"

definition is_continuation :: "nat \<Rightarrow> bool" where
  "is_continuation b \<longleftrightarrow> 128 \<le> b \<and> b < 192"

definition second_of_three :: "nat \<Rightarrow> nat \<Rightarrow> bool" where
  "second_of_three b0 b1 \<longleftrightarrow> is_continuation b1 \<and> (b0 = 224 \<longrightarrow> 160 \<le> b1) \<and> (b0 = 237 \<longrightarrow> b1 < 160)"

definition second_of_four :: "nat \<Rightarrow> nat \<Rightarrow> bool" where
  "second_of_four b0 b1 \<longleftrightarrow> is_continuation b1 \<and> (b0 = 240 \<longrightarrow> 144 \<le> b1) \<and> (b0 = 244 \<longrightarrow> b1 < 144)"

text \<open>Whether the string starts with a sequence of UTF-8, and the length of the sequence or of the invalid piece.\<close>

definition utf8_seq :: "string \<Rightarrow> bool \<times> nat" where
  "utf8_seq s = (let b0 = byte_at s 0; b1 = byte_at s 1; b2 = byte_at s 2; b3 = byte_at s 3 in
     if b0 < 128 then (True, 1)
     else if 194 \<le> b0 \<and> b0 < 224 then (if is_continuation b1 then (True, 2) else (False, 1))
     else if 224 \<le> b0 \<and> b0 < 240 then
       (if \<not> second_of_three b0 b1 then (False, 1) else if is_continuation b2 then (True, 3) else (False, 2))
     else if 240 \<le> b0 \<and> b0 < 245 then
       (if \<not> second_of_four b0 b1 then (False, 1) else if \<not> is_continuation b2 then (False, 2)
        else if is_continuation b3 then (True, 4) else (False, 3))
     else (False, 1))"

lemma utf8_seq_pos [simp]: "0 < snd (utf8_seq s)"
  by (simp add: utf8_seq_def Let_def)

lemma utf8_seq_length [simp]: "s \<noteq> [] \<Longrightarrow> snd (utf8_seq s) \<le> length s"
  by (auto simp: utf8_seq_def Let_def byte_at_def is_continuation_def second_of_three_def second_of_four_def Suc_le_eq
      neq_Nil_conv split: if_splits)

lemma byte_at_append: "i < length a \<Longrightarrow> byte_at (a @ b) i = byte_at a i"
  by (simp add: byte_at_def nth_append)

text \<open>More text behind a string changes its first sequence only when that piece reaches to the end unfinished.\<close>

definition unfinished :: "string \<Rightarrow> bool" where
  "unfinished s \<longleftrightarrow> \<not> fst (utf8_seq s) \<and> snd (utf8_seq s) = length s \<and> 194 \<le> byte_at s 0 \<and> byte_at s 0 < 245"

lemma byte_at_end [simp]: "length s \<le> i \<Longrightarrow> byte_at s i = 0" "\<not> is_continuation 0"
  by (simp_all add: byte_at_def is_continuation_def)

lemma byte_at_Cons [simp]:
  "byte_at (x # s) 0 = of_char x" "byte_at (x # s) (Suc 0) = byte_at s 0"
  "byte_at (x # s) 1 = byte_at s 0" "byte_at (x # s) 2 = byte_at s 1" "byte_at (x # s) 3 = byte_at s 2"
  by (simp_all add: byte_at_def numeral_eq_Suc)

lemmas utf8_defs = utf8_seq_def Let_def second_of_three_def second_of_four_def is_continuation_def

lemma short_cases:
  obtains "s = []" | x where "s = [x]" | x y where "s = [x, y]" | x y z where "s = [x, y, z]"
  | x y z w r where "s = x # y # z # w # r"
  by (cases s; cases "tl s"; cases "tl (tl s)"; cases "tl (tl (tl s))") auto

lemma utf8_seq_append:
  assumes "a \<noteq> []" "\<not> unfinished a"
  shows "utf8_seq (a @ b) = utf8_seq a"
  using assms by (cases a rule: short_cases) (auto simp: unfinished_def utf8_defs split: if_splits)

lemma utf8_seq_append_ascii:
  assumes "a \<noteq> []" "of_char c < (128 :: nat)"
  shows "utf8_seq (a @ c # b) = utf8_seq a"
  using assms by (cases a rule: short_cases) (auto simp: utf8_defs)

section \<open>Lossy decoding\<close>

definition replacement_character :: string where
  "replacement_character = map char_of [239, 191, 189 :: nat]"

function from_utf8_lossy :: "string \<Rightarrow> string" where
  "from_utf8_lossy s = (if s = [] then []
     else (if fst (utf8_seq s) then take (snd (utf8_seq s)) s else replacement_character)
       @ from_utf8_lossy (drop (snd (utf8_seq s)) s))"
  by pat_completeness auto
termination by (relation "measure length") auto

declare from_utf8_lossy.simps [simp del]

lemma lossy_Nil [simp]: "from_utf8_lossy [] = []"
  by (simp add: from_utf8_lossy.simps)

lemma lossy_Cons_ascii:
  assumes "of_char c < (128 :: nat)"
  shows "from_utf8_lossy (c # s) = c # from_utf8_lossy s"
  using assms by (subst from_utf8_lossy.simps) (simp add: utf8_seq_def Let_def)

text \<open>An ASCII byte is never part of a longer piece: the text may be cut there.\<close>

lemma lossy_append_ascii:
  assumes "of_char c < (128 :: nat)"
  shows "from_utf8_lossy (a @ c # b) = from_utf8_lossy a @ c # from_utf8_lossy b"
proof (induction a rule: from_utf8_lossy.induct)
  case (1 a)
  show ?case
  proof (cases "a = []")
    case False
    have "snd (utf8_seq a) \<le> length a" using False by simp
    then show ?thesis
      using 1 False by (subst (1 2) from_utf8_lossy.simps) (simp add: utf8_seq_append_ascii assms)
  qed (simp add: lossy_Cons_ascii assms)
qed

text \<open>A text that does not end inside a sequence may be cut at its end.\<close>

function ends_whole :: "string \<Rightarrow> bool" where
  "ends_whole s \<longleftrightarrow> (if s = [] then True else \<not> unfinished s \<and> ends_whole (drop (snd (utf8_seq s)) s))"
  by pat_completeness auto
termination by (relation "measure length") auto

declare ends_whole.simps [simp del]

lemma ends_whole_Nil [simp]: "ends_whole []"
  by (simp add: ends_whole.simps)

lemma lossy_append:
  assumes "ends_whole a"
  shows "from_utf8_lossy (a @ b) = from_utf8_lossy a @ from_utf8_lossy b"
  using assms
proof (induction a rule: from_utf8_lossy.induct)
  case (1 a)
  show ?case
  proof (cases "a = []")
    case False
    then have "utf8_seq (a @ b) = utf8_seq a" "ends_whole (drop (snd (utf8_seq a)) a)" "snd (utf8_seq a) \<le> length a"
      using 1 by (auto simp: ends_whole.simps [of a] utf8_seq_append)
    then show ?thesis
      using 1 False by (subst (1 2) from_utf8_lossy.simps) simp
  qed simp
qed

lemma ends_whole_append:
  assumes "ends_whole a"
  shows "ends_whole (a @ b) \<longleftrightarrow> ends_whole b"
  using assms
proof (induction a rule: from_utf8_lossy.induct)
  case (1 a)
  show ?case
  proof (cases "a = []")
    case False
    have eq: "utf8_seq (a @ b) = utf8_seq a" and rest: "ends_whole (drop (snd (utf8_seq a)) a)"
      and len: "snd (utf8_seq a) \<le> length a" and fin: "\<not> unfinished a"
      using 1 False by (auto simp: ends_whole.simps [of a] utf8_seq_append)
    have "\<not> unfinished (a @ b)"
    proof (cases "b = []")
      case False
      then have "snd (utf8_seq (a @ b)) < length (a @ b)" using len eq by (simp add: le_less_trans)
      then show ?thesis by (simp add: unfinished_def)
    qed (use fin in simp)
    then show ?thesis
      using 1 False eq len rest by (subst ends_whole.simps) simp
  qed simp
qed

lemma ends_whole_ascii: "list_all (\<lambda>c. of_char c < (128 :: nat)) s \<Longrightarrow> ends_whole s"
  by (induction s) (auto simp: ends_whole.simps [of "_ # _"] unfinished_def utf8_seq_def Let_def)

text \<open>Cut inside a sequence, both parts are replaced.\<close>

lemma cut_sequence_is_replaced:
  "from_utf8_lossy [CHR 0xC3, CHR 0xA9] = [CHR 0xC3, CHR 0xA9]"
  "from_utf8_lossy [CHR 0xC3] @ from_utf8_lossy [CHR 0xA9] = replacement_character @ replacement_character"
  by (simp_all add: from_utf8_lossy.simps utf8_seq_def Let_def is_continuation_def)

text \<open>A valid text is itself, and it ends whole.\<close>

function utf8_valid :: "string \<Rightarrow> bool" where
  "utf8_valid s \<longleftrightarrow> (if s = [] then True else fst (utf8_seq s) \<and> utf8_valid (drop (snd (utf8_seq s)) s))"
  by pat_completeness auto
termination by (relation "measure length") auto

declare utf8_valid.simps [simp del]

lemma utf8_valid_lossy: "utf8_valid s \<Longrightarrow> from_utf8_lossy s = s"
proof (induction s rule: from_utf8_lossy.induct)
  case (1 s)
  then show ?case by (cases "s = []") (auto simp: from_utf8_lossy.simps [of s] utf8_valid.simps [of s])
qed

lemma utf8_valid_ends_whole: "utf8_valid s \<Longrightarrow> ends_whole s"
proof (induction s rule: from_utf8_lossy.induct)
  case (1 s)
  then show ?case by (cases "s = []") (auto simp: ends_whole.simps [of s] utf8_valid.simps [of s] unfinished_def)
qed

lemma utf8_valid_append: "utf8_valid a \<Longrightarrow> utf8_valid b \<Longrightarrow> utf8_valid (a @ b)"
proof (induction a rule: from_utf8_lossy.induct)
  case (1 a)
  show ?case
  proof (cases "a = []")
    case False
    have "fst (utf8_seq a)" "utf8_valid (drop (snd (utf8_seq a)) a)" using 1(2) False by (simp_all add: utf8_valid.simps [of a])
    moreover have "utf8_seq (a @ b) = utf8_seq a" "snd (utf8_seq a) \<le> length a"
      using False calculation(1) by (auto intro: utf8_seq_append simp: unfinished_def)
    ultimately show ?thesis using 1 False by (subst utf8_valid.simps) simp
  qed (use 1 in simp)
qed

lemma utf8_valid_ascii: "list_all (\<lambda>c. of_char c < (128 :: nat)) s \<Longrightarrow> utf8_valid s"
  by (induction s) (auto simp: utf8_valid.simps [of "[]"] utf8_valid.simps [of "_ # _"] utf8_seq_def Let_def)

section \<open>Characters\<close>

text \<open>The code point of a sequence of the given length.\<close>

definition code_point :: "string \<Rightarrow> nat \<Rightarrow> nat" where
  "code_point s k = (if k = 1 then byte_at s 0
     else if k = 2 then 64 * (byte_at s 0 - 192) + (byte_at s 1 - 128)
     else if k = 3 then 4096 * (byte_at s 0 - 224) + 64 * (byte_at s 1 - 128) + (byte_at s 2 - 128)
     else 262144 * (byte_at s 0 - 240) + 4096 * (byte_at s 1 - 128) + 64 * (byte_at s 2 - 128) + (byte_at s 3 - 128))"

function chars :: "string \<Rightarrow> nat list" where
  "chars s = (if s = [] then []
     else (if fst (utf8_seq s) then code_point s (snd (utf8_seq s)) else 65533) # chars (drop (snd (utf8_seq s)) s))"
  by pat_completeness auto
termination by (relation "measure length") auto

declare chars.simps [simp del]

lemma chars_ascii:
  "chars [] = []" "of_char c < (128 :: nat) \<Longrightarrow> chars (c # s) = of_char c # chars s"
  by (simp_all add: chars.simps [of "_ # _"] chars.simps [of "[]"] utf8_seq_def Let_def code_point_def)

end
