(* ===== verification/Glob.thy ===== *)
theory Glob
  imports Utf8
begin

text \<open>
  The patterns of the file tailer (\<^verbatim>\<open>tail.rs\<close>): character classes, the iterative matcher for one path component
  with its single point of backtracking, and the match of whole paths. Patterns and names are lists of code
  points, as \<^verbatim>\<open>str::chars\<close> gives them. The matcher is compared with a recursive definition of what a pattern
  means.
\<close>

section \<open>Character classes\<close>

abbreviation (input) star_char :: nat where "star_char \<equiv> 42"
abbreviation (input) question_char :: nat where "question_char \<equiv> 63"
abbreviation (input) open_char :: nat where "open_char \<equiv> 91"
abbreviation (input) close_char :: nat where "close_char \<equiv> 93"
abbreviation (input) dash_char :: nat where "dash_char \<equiv> 45"

text \<open>The loop over the members of a class, from the first one left to look at.\<close>

fun class_scan :: "nat \<Rightarrow> nat list \<Rightarrow> bool \<Rightarrow> bool" where
  "class_scan c (a # d # b # rest) matched =
     (if d = dash_char then class_scan c rest (matched \<or> (a \<le> c \<and> c \<le> b)) else class_scan c (d # b # rest) (matched \<or> a = c))"
| "class_scan c (a # rest) matched = class_scan c rest (matched \<or> a = c)"
| "class_scan c [] matched = matched"

definition position :: "('a \<Rightarrow> bool) \<Rightarrow> 'a list \<Rightarrow> nat option" where
  "position P xs = (if list_ex P xs then Some (length (takeWhile (\<lambda>x. \<not> P x) xs)) else None)"

definition class_match :: "nat list \<Rightarrow> nat \<Rightarrow> (bool \<times> nat) option" where
  "class_match pattern c = (case position (\<lambda>ch. ch = close_char) pattern of
     None \<Rightarrow> None
   | Some close \<Rightarrow>
       if close = 0 then None
       else let members = drop 1 (take close pattern);
                negated = (members \<noteq> [] \<and> (hd members = 33 \<or> hd members = 94));
                matched = class_scan c (if negated then drop 1 members else members) False
            in Some (matched \<noteq> negated, close + 1))"

section \<open>The matcher\<close>

text \<open>\<^verbatim>\<open>usize::MAX\<close> in \<^verbatim>\<open>star\<close> is \<open>None\<close>. The loop runs while there are characters of the name left.\<close>

partial_function (option) glob_loop :: "nat list \<Rightarrow> nat list \<Rightarrow> nat \<Rightarrow> nat \<Rightarrow> nat option \<Rightarrow> nat \<Rightarrow> bool option" where
  "glob_loop p n pi ni star star_n =
     (if ni < length n then
        if pi < length p \<and> p ! pi = star_char then glob_loop p n (pi + 1) ni (Some pi) ni
        else if pi < length p \<and> (p ! pi = question_char \<or> p ! pi = n ! ni) then glob_loop p n (pi + 1) (ni + 1) star star_n
        else if pi < length p \<and> p ! pi = open_char then
          (case class_match (drop pi p) (n ! ni) of
             Some (matched, len) \<Rightarrow>
               if matched then glob_loop p n (pi + len) (ni + 1) star star_n
               else (case star of
                   Some s \<Rightarrow> glob_loop p n (s + 1) (star_n + 1) star (star_n + 1)
                 | None \<Rightarrow> Some False)
           | None \<Rightarrow> (case star of
               Some s \<Rightarrow> glob_loop p n (s + 1) (star_n + 1) star (star_n + 1)
             | None \<Rightarrow> Some False))
        else (case star of
            Some s \<Rightarrow> glob_loop p n (s + 1) (star_n + 1) star (star_n + 1)
          | None \<Rightarrow> Some False)
      else Some (list_all (\<lambda>c. c = star_char) (drop pi p)))"

definition glob_match :: "string \<Rightarrow> string \<Rightarrow> bool option" where
  "glob_match pattern name = glob_loop (chars pattern) (chars name) 0 0 None 0"

abbreviation glob_matches :: "string \<Rightarrow> string \<Rightarrow> bool" where
  "glob_matches pattern name \<equiv> glob_match pattern name = Some True"

section \<open>Paths\<close>

definition is_pattern_segment :: "string \<Rightarrow> bool" where
  "is_pattern_segment segment \<longleftrightarrow> list_ex (\<lambda>c. c \<in> set ''*?['') segment"

definition is_pattern :: "string \<Rightarrow> bool" where
  "is_pattern path \<longleftrightarrow> list_ex (\<lambda>c. c \<in> set ''*?['') (from_utf8_lossy path)"

fun segments_match :: "string list \<Rightarrow> string list \<Rightarrow> bool" where
  "segments_match [] path \<longleftrightarrow> path = []"
| "segments_match (segment # rest) path \<longleftrightarrow>
     (if segment = ''**'' then list_ex (\<lambda>skip. segments_match rest (drop skip path)) [0..<length path + 1]
      else (case path of [] \<Rightarrow> False | head # tail \<Rightarrow> glob_matches segment head \<and> segments_match rest tail))"

text \<open>\<^verbatim>\<open>Path::file_name\<close>: the last component, unless it is the parent directory.\<close>

definition file_name :: "string \<Rightarrow> string option" where
  "file_name path = (case rev (filter (\<lambda>s. s \<noteq> [] \<and> s \<noteq> ''.'') (split_on (CHR ''/'') path)) of
     x # _ \<Rightarrow> if x = ''..'' then None else Some x
   | [] \<Rightarrow> None)"

definition path_segments :: "string \<Rightarrow> string list" where
  "path_segments path = filter (\<lambda>s. s \<noteq> []) (split_on (CHR ''/'') path)"

definition excluded :: "string list \<Rightarrow> string \<Rightarrow> bool" where
  "excluded patterns path \<longleftrightarrow> list_ex (\<lambda>pattern.
     if CHR ''/'' \<in> set pattern then segments_match (path_segments pattern) (path_segments (from_utf8_lossy path))
     else (case file_name path of Some name \<Rightarrow> utf8_valid name \<and> glob_matches pattern name | None \<Rightarrow> False)) patterns"

section \<open>What a pattern means\<close>

text \<open>How much of a pattern that does not start with a star one character of the name uses up, if it fits.\<close>

definition takes :: "nat list \<Rightarrow> nat \<Rightarrow> nat option" where
  "takes p c = (case p of
     [] \<Rightarrow> None
   | x # _ \<Rightarrow> if x = question_char \<or> x = c then Some 1
       else if x = open_char then (case class_match p c of Some (matched, len) \<Rightarrow> if matched then Some len else None | None \<Rightarrow> None)
       else None)"

lemma takes_Nil [simp]: "takes [] c = None"
  by (simp add: takes_def)

lemma position_less: "position P xs = Some i \<Longrightarrow> i < length xs"
  by (induction xs arbitrary: i) (auto simp: position_def split: if_splits)

lemma class_match_bounds: "class_match p c = Some (b, k) \<Longrightarrow> 0 < k \<and> k \<le> length p"
  by (auto simp: class_match_def Let_def dest: position_less split: option.splits if_splits)

lemma takes_bounds: "takes p c = Some k \<Longrightarrow> 0 < k \<and> k \<le> length p"
  by (auto simp: takes_def dest: class_match_bounds split: list.splits if_splits option.splits)

text \<open>A star stands for any characters; anything else for one character it fits.\<close>

function glob_meaning :: "nat list \<Rightarrow> nat list \<Rightarrow> bool" where
  "glob_meaning p n =
     (if p = [] then n = []
      else if hd p = star_char then glob_meaning (tl p) n \<or> (if n = [] then False else glob_meaning p (tl n))
      else if n = [] then False
      else (case takes p (hd n) of Some k \<Rightarrow> glob_meaning (drop k p) (tl n) | None \<Rightarrow> False))"
  by pat_completeness auto
termination
  by (relation "measure (\<lambda>(p, n). length p + length n)") (auto dest: takes_bounds simp: neq_Nil_conv)

declare glob_meaning.simps [simp del]

lemma meaning_Nil: "glob_meaning p [] \<longleftrightarrow> list_all (\<lambda>c. c = star_char) p"
proof (induction p)
  case (Cons x p)
  then show ?case by (subst glob_meaning.simps) auto
qed (simp add: glob_meaning.simps)

lemma meaning_star:
  "glob_meaning (star_char # p) n \<longleftrightarrow> glob_meaning p n \<or> (n \<noteq> [] \<and> glob_meaning (star_char # p) (tl n))"
  by (subst glob_meaning.simps) simp

lemma meaning_other:
  assumes "p = [] \<or> hd p \<noteq> star_char" "n \<noteq> []"
  shows "glob_meaning p n \<longleftrightarrow> (case takes p (hd n) of Some k \<Rightarrow> glob_meaning (drop k p) (tl n) | None \<Rightarrow> False)"
  using assms by (subst glob_meaning.simps) auto

lemma meaning_star_iff: "glob_meaning (star_char # p) n \<longleftrightarrow> (\<exists>k \<le> length n. glob_meaning p (drop k n))"
proof (induction n)
  case (Cons c n)
  have "(\<exists>k \<le> length (c # n). glob_meaning p (drop k (c # n))) \<longleftrightarrow>
      glob_meaning p (c # n) \<or> (\<exists>k \<le> length n. glob_meaning p (drop k n))"
    using Ex_less_Suc2 [of "Suc (length n)" "\<lambda>k. glob_meaning p (drop k (c # n))"] by (simp add: less_Suc_eq_le)
  then show ?case using Cons by (simp add: meaning_star [of p "c # n"])
qed (subst meaning_star, simp)

section \<open>The matcher decides the meaning\<close>

lemma glob_loop_eq:
  "glob_loop p n pi ni star star_n =
     (if ni < length n then
        if pi < length p \<and> p ! pi = star_char then glob_loop p n (pi + 1) ni (Some pi) ni
        else (case takes (drop pi p) (n ! ni) of
            Some k \<Rightarrow> glob_loop p n (pi + k) (ni + 1) star star_n
          | None \<Rightarrow> (case star of
              Some s \<Rightarrow> glob_loop p n (s + 1) (star_n + 1) star (star_n + 1)
            | None \<Rightarrow> Some False))
      else Some (list_all (\<lambda>c. c = star_char) (drop pi p)))"
proof (cases "pi < length p")
  case True
  then have "drop pi p = p ! pi # drop (Suc pi) p" by (simp add: Cons_nth_drop_Suc)
  then show ?thesis
    using True by (subst glob_loop.simps) (auto simp: takes_def split: option.split)
qed (subst glob_loop.simps, simp add: takes_def)

text \<open>
  What is still to be found at a point of the loop: a match from here, or, if there was a star, a match in which
  that star takes more than it does now.
\<close>

definition loop_goal :: "nat list \<Rightarrow> nat list \<Rightarrow> nat \<Rightarrow> nat \<Rightarrow> nat option \<Rightarrow> nat \<Rightarrow> bool" where
  "loop_goal p n pi ni star star_n \<longleftrightarrow> glob_meaning (drop pi p) (drop ni n) \<or>
     (case star of None \<Rightarrow> False | Some s \<Rightarrow> star_n < length n \<and> glob_meaning (drop s p) (drop (star_n + 1) n))"

definition loop_inv :: "nat list \<Rightarrow> nat list \<Rightarrow> nat \<Rightarrow> nat \<Rightarrow> nat option \<Rightarrow> nat \<Rightarrow> bool" where
  "loop_inv p n pi ni star star_n \<longleftrightarrow> pi \<le> length p \<and> ni \<le> length n \<and>
     (case star of None \<Rightarrow> True | Some s \<Rightarrow> s < pi \<and> p ! s = star_char \<and> star_n \<le> ni)"

text \<open>
  When no character of the name opens a class, the way through the pattern does not depend on the name: every
  position has one length.
\<close>

definition piece :: "nat list \<Rightarrow> nat" where
  "piece q = (if q \<noteq> [] \<and> hd q = open_char
     then (case position (\<lambda>ch. ch = close_char) q of Some close \<Rightarrow> close + 1 | None \<Rightarrow> 1) else 1)"

definition unmixed :: "nat list \<Rightarrow> nat list \<Rightarrow> bool" where
  "unmixed p n \<longleftrightarrow> open_char \<notin> set p \<or> open_char \<notin> set n"

lemma takes_piece:
  assumes "unmixed p n" "c \<in> set n" "takes (drop i p) c = Some k"
  shows "k = piece (drop i p)"
proof (cases "drop i p")
  case (Cons x q)
  then have "x \<in> set p" by (metis in_set_dropD list.set_intros(1))
  then show ?thesis
    using assms Cons by (auto simp: takes_def piece_def unmixed_def class_match_def Let_def split: if_splits option.splits)
qed (use assms in simp)

fun forced :: "nat list \<Rightarrow> nat \<Rightarrow> nat \<Rightarrow> nat \<Rightarrow> bool" where
  "forced p a 0 b \<longleftrightarrow> a = b"
| "forced p a (Suc t) b \<longleftrightarrow> a < length p \<and> p ! a \<noteq> star_char \<and> forced p (a + piece (drop a p)) t b"

lemma forced_snoc:
  "forced p a t b \<Longrightarrow> b < length p \<Longrightarrow> p ! b \<noteq> star_char \<Longrightarrow> forced p a (Suc t) (b + piece (drop b p))"
  by (induction t arbitrary: a) auto

lemma forced_meaning:
  assumes "unmixed p n" "forced p a t b" "m \<le> length n" "glob_meaning (drop a p) (drop m n)"
  shows "m + t \<le> length n \<and> glob_meaning (drop b p) (drop (m + t) n)"
  using assms(2-)
proof (induction t arbitrary: a m)
  case (Suc t)
  then have a: "a < length p" "p ! a \<noteq> star_char" by simp_all
  then have hd: "drop a p \<noteq> []" "hd (drop a p) \<noteq> star_char" by (simp_all add: hd_drop_conv_nth)
  have m: "m < length n"
    using Suc.prems hd by (cases "m = length n") (auto simp: meaning_Nil list_all_iff hd_in_set)
  obtain k where k: "takes (drop a p) (n ! m) = Some k" "glob_meaning (drop (a + k) p) (drop (Suc m) n)"
    using Suc.prems(3) m meaning_other [of "drop a p" "drop m n"] hd
    by (auto simp: hd_drop_conv_nth tl_drop drop_Suc add.commute split: option.splits)
  have "k = piece (drop a p)"
    using takes_piece [OF assms(1) _ k(1)] m by simp
  then show ?case
    using Suc.IH [of "a + k" "Suc m"] Suc.prems(1) m k(2) by simp
qed simp

definition tracked :: "nat list \<Rightarrow> nat \<Rightarrow> nat \<Rightarrow> nat option \<Rightarrow> nat \<Rightarrow> bool" where
  "tracked p pi ni star star_n \<longleftrightarrow> (case star of None \<Rightarrow> True | Some s \<Rightarrow> forced p (s + 1) (ni - star_n) pi)"

lemmas loop_defs = loop_goal_def loop_inv_def tracked_def

lemma drop_at: "i < length xs \<Longrightarrow> drop i xs = xs ! i # drop (i + 1) xs"
  by (simp add: Cons_nth_drop_Suc)

lemma goal_at_star:
  assumes "p ! pi = star_char" "pi < length p" "ni < length n"
  shows "loop_goal p n (pi + 1) ni (Some pi) ni \<longleftrightarrow> glob_meaning (drop pi p) (drop ni n)"
  using assms drop_at [of pi p] drop_at [of ni n] meaning_star [of "drop (pi + 1) p" "drop ni n"]
  by (simp add: loop_goal_def)

text \<open>A match in which the star takes more passes the present place of the pattern further on in the name.\<close>

lemma other_match:
  assumes "unmixed p n" "loop_inv p n pi ni (Some s) star_n" "tracked p pi ni (Some s) star_n"
    and "star_n < length n" "glob_meaning (drop s p) (drop (star_n + 1) n)"
  shows "\<exists>m > ni. m \<le> length n \<and> glob_meaning (drop pi p) (drop m n)"
proof -
  have inv: "s < pi" "pi \<le> length p" "p ! s = star_char" "star_n \<le> ni" "forced p (s + 1) (ni - star_n) pi"
    using assms(2,3) by (simp_all add: loop_inv_def tracked_def)
  then have "drop s p = star_char # drop (s + 1) p" using drop_at [of s p] by simp
  then obtain k where k: "k \<le> length n - (star_n + 1)" "glob_meaning (drop (s + 1) p) (drop (k + (star_n + 1)) n)"
    using assms(5) by (auto simp: meaning_star_iff)
  then have "k + (star_n + 1) \<le> length n" using assms(4) by simp
  then have "k + (star_n + 1) + (ni - star_n) \<le> length n"
    "glob_meaning (drop pi p) (drop (k + (star_n + 1) + (ni - star_n)) n)"
    using forced_meaning [OF assms(1) inv(5) _ k(2)] by simp_all
  then show ?thesis using inv(4) by (intro exI [of _ "k + (star_n + 1) + (ni - star_n)"]) simp
qed

text \<open>So a later star makes the earlier one redundant, and at the end of the name nothing is left to try.\<close>

lemma goal_of_later_star:
  assumes "unmixed p n" "loop_inv p n pi ni star star_n" "tracked p pi ni star star_n"
    and "p ! pi = star_char" "pi < length p" "loop_goal p n pi ni star star_n"
  shows "glob_meaning (drop pi p) (drop ni n)"
proof (cases "glob_meaning (drop pi p) (drop ni n)")
  case False
  then obtain s where s: "star = Some s" "star_n < length n" "glob_meaning (drop s p) (drop (star_n + 1) n)"
    using assms(6) by (auto simp: loop_goal_def split: option.splits)
  then obtain m where m: "ni < m" "m \<le> length n" "glob_meaning (drop pi p) (drop m n)"
    using other_match assms(1-3) by blast
  have at_pi: "drop pi p = star_char # drop (pi + 1) p" using drop_at [of pi p] assms(4,5) by simp
  obtain k where "k \<le> length n - m" "glob_meaning (drop (pi + 1) p) (drop (k + m) n)"
    using m(3) unfolding at_pi by (auto simp: meaning_star_iff)
  then show ?thesis
    unfolding at_pi meaning_star_iff using m(1,2) by (intro exI [of _ "k + m - ni"]) simp
qed

lemma goal_at_end:
  assumes "unmixed p n" "loop_inv p n pi (length n) star star_n" "tracked p pi (length n) star star_n"
    and "loop_goal p n pi (length n) star star_n"
  shows "glob_meaning (drop pi p) []"
proof (rule ccontr)
  assume "\<not> glob_meaning (drop pi p) []"
  then obtain s where "star = Some s" "star_n < length n" "glob_meaning (drop s p) (drop (star_n + 1) n)"
    using assms(4) by (auto simp: loop_goal_def split: option.splits)
  then show False using other_match assms(1-3) by fastforce
qed

lemma goal_at_character:
  assumes "pi \<le> length p" "ni < length n" "\<not> (pi < length p \<and> p ! pi = star_char)"
  shows "glob_meaning (drop pi p) (drop ni n) \<longleftrightarrow>
    (case takes (drop pi p) (n ! ni) of Some k \<Rightarrow> glob_meaning (drop (pi + k) p) (drop (ni + 1) n) | None \<Rightarrow> False)"
proof -
  have "drop pi p = [] \<or> hd (drop pi p) \<noteq> star_char"
    using assms by (cases "pi < length p") (auto simp: hd_drop_conv_nth)
  then show ?thesis
    using meaning_other [of "drop pi p" "drop ni n"] drop_at [OF assms(2)] by (simp add: add.commute split: option.splits)
qed

lemma goal_after_backtrack:
  assumes "star_n < length n" "s < length p" "p ! s = star_char"
  shows "loop_goal p n (s + 1) (star_n + 1) (Some s) (star_n + 1) \<longleftrightarrow> glob_meaning (drop s p) (drop (star_n + 1) n)"
proof -
  have "drop (star_n + 1) n \<noteq> [] \<longleftrightarrow> star_n + 1 < length n" "tl (drop (star_n + 1) n) = drop (star_n + 2) n"
    by (auto simp: tl_drop drop_Suc)
  then show ?thesis
    using meaning_star [of "drop (s + 1) p" "drop (star_n + 1) n"] drop_at [of s p] assms
    by (simp add: loop_goal_def)
qed

definition loop_order :: "(nat \<times> nat \<times> nat) rel" where
  "loop_order = less_than <*lex*> less_than <*lex*> less_than"

definition loop_rank :: "nat list \<Rightarrow> nat list \<Rightarrow> nat \<Rightarrow> nat option \<Rightarrow> nat \<Rightarrow> nat \<times> nat \<times> nat" where
  "loop_rank p n ni star star_n =
     (length p - (case star of None \<Rightarrow> 0 | Some s \<Rightarrow> s + 1), length n - star_n, length n - ni)"

lemma wf_loop_order: "wf loop_order"
  by (simp add: loop_order_def wf_lex_prod)

text \<open>Each way round the loop goes down in the order and keeps the invariants.\<close>

lemma loop_star_step:
  assumes "loop_inv p n pi ni star star_n" "ni < length n" "pi < length p" "p ! pi = star_char"
  shows "loop_inv p n (pi + 1) ni (Some pi) ni" "tracked p (pi + 1) ni (Some pi) ni"
    "(loop_rank p n ni (Some pi) ni, loop_rank p n ni star star_n) \<in> loop_order"
  using assms by (auto simp: loop_inv_def tracked_def loop_order_def loop_rank_def split: option.splits)

lemma loop_take_step:
  assumes "loop_inv p n pi ni star star_n" "ni < length n" "takes (drop pi p) (n ! ni) = Some k"
  shows "loop_inv p n (pi + k) (ni + 1) star star_n"
    "(loop_rank p n (ni + 1) star star_n, loop_rank p n ni star star_n) \<in> loop_order"
  using assms takes_bounds [OF assms(3)]
  by (auto simp: loop_inv_def loop_order_def loop_rank_def split: option.splits)

lemma loop_take_tracked:
  assumes "loop_inv p n pi ni star star_n" "ni < length n" "takes (drop pi p) (n ! ni) = Some k"
    and "\<not> (pi < length p \<and> p ! pi = star_char)" "unmixed p n" "tracked p pi ni star star_n"
  shows "tracked p (pi + k) (ni + 1) star star_n"
proof (cases star)
  case (Some s)
  have "k = piece (drop pi p)" using takes_piece assms(2,3,5) nth_mem by blast
  moreover have "pi < length p" using assms(3) by (cases "pi < length p") auto
  ultimately show ?thesis
    using forced_snoc [of p "s + 1" "ni - star_n" pi] assms Some by (simp add: tracked_def loop_inv_def Suc_diff_le)
qed (simp add: tracked_def)

lemma loop_back_step:
  assumes "loop_inv p n pi ni (Some s) star_n" "ni < length n"
  shows "loop_inv p n (s + 1) (star_n + 1) (Some s) (star_n + 1)" "tracked p (s + 1) (star_n + 1) (Some s) (star_n + 1)"
    "(loop_rank p n (star_n + 1) (Some s) (star_n + 1), loop_rank p n ni (Some s) star_n) \<in> loop_order"
  using assms by (auto simp: loop_inv_def tracked_def loop_order_def loop_rank_def)

lemma glob_loop_decides:
  assumes "loop_inv p n pi ni star star_n"
  shows "\<exists>b. glob_loop p n pi ni star star_n = Some b \<and> (b \<longrightarrow> loop_goal p n pi ni star star_n) \<and>
    (unmixed p n \<and> tracked p pi ni star star_n \<longrightarrow> loop_goal p n pi ni star star_n \<longrightarrow> b)"
  using assms
proof (induction "loop_rank p n ni star star_n" arbitrary: pi ni star star_n rule: wf_induct_rule [OF wf_loop_order])
  case 1
  note IH = 1(1) and inv = 1(2)
  consider (finished) "ni = length n" | (star) "ni < length n" "pi < length p" "p ! pi = star_char"
    | (take) k where "ni < length n" "\<not> (pi < length p \<and> p ! pi = star_char)" "takes (drop pi p) (n ! ni) = Some k"
    | (stuck) "ni < length n" "\<not> (pi < length p \<and> p ! pi = star_char)" "takes (drop pi p) (n ! ni) = None"
    using inv by (fastforce simp: loop_inv_def)
  then show ?case
  proof cases
    case finished
    then show ?thesis
      using goal_at_end [of p n pi star star_n] inv
      by (auto simp: glob_loop_eq [of p n pi] meaning_Nil loop_goal_def)
  next
    case star
    note step = loop_star_step [OF inv star]
    have "loop_goal p n (pi + 1) ni (Some pi) ni \<longleftrightarrow> glob_meaning (drop pi p) (drop ni n)"
      by (rule goal_at_star [OF star(3,2,1)])
    moreover have "glob_meaning (drop pi p) (drop ni n) \<Longrightarrow> loop_goal p n pi ni star star_n"
      by (simp add: loop_goal_def)
    moreover note IH [OF step(3,1)] step(2) goal_of_later_star [OF _ inv _ star(3,2)]
    moreover have "glob_loop p n pi ni star star_n = glob_loop p n (pi + 1) ni (Some pi) ni"
      using star by (simp add: glob_loop_eq [of p n pi])
    ultimately show ?thesis by auto
  next
    case take
    have "loop_goal p n (pi + k) (ni + 1) star star_n \<longleftrightarrow> loop_goal p n pi ni star star_n"
      using goal_at_character [of pi p ni n] take inv by (simp add: loop_goal_def loop_inv_def)
    moreover note IH [OF loop_take_step(2,1) [OF inv take(1,3)]] loop_take_tracked [OF inv take(1,3,2)]
    moreover have "glob_loop p n pi ni star star_n = glob_loop p n (pi + k) (ni + 1) star star_n"
      using take by (auto simp: glob_loop_eq [of p n pi])
    ultimately show ?thesis by auto
  next
    case stuck
    have none: "\<not> glob_meaning (drop pi p) (drop ni n)"
      using goal_at_character [of pi p ni n] stuck inv by (simp add: loop_inv_def)
    show ?thesis
    proof (cases star)
      case None
      then show ?thesis using none stuck by (auto simp: glob_loop_eq [of p n pi] loop_goal_def)
    next
      case (Some s)
      have s: "s < length p" "p ! s = star_char" "star_n < length n" using inv Some stuck(1) by (auto simp: loop_inv_def)
      have "loop_goal p n (s + 1) (star_n + 1) (Some s) (star_n + 1) \<longleftrightarrow> loop_goal p n pi ni star star_n"
        using goal_after_backtrack [OF s(3,1,2)] none s(3) Some by (simp add: loop_goal_def)
      moreover note step = loop_back_step [OF inv [unfolded Some] stuck(1)]
      moreover note IH [unfolded Some, OF step(3,1)]
      moreover have "glob_loop p n pi ni star star_n = glob_loop p n (s + 1) (star_n + 1) (Some s) (star_n + 1)"
        using stuck Some by (auto simp: glob_loop_eq [of p n pi])
      ultimately show ?thesis by auto
    qed
  qed
qed

lemma loop_starts: "loop_inv p n 0 0 None 0" "tracked p 0 0 None 0" "loop_goal p n 0 0 None 0 \<longleftrightarrow> glob_meaning p n"
  by (simp_all add: loop_inv_def tracked_def loop_goal_def)

text \<open>Without the condition on brackets a match is still never invented.\<close>

lemma glob_match_sound: "glob_matches pattern name \<Longrightarrow> glob_meaning (chars pattern) (chars name)"
  using glob_loop_decides [OF loop_starts(1), of "chars pattern" "chars name"] by (auto simp: glob_match_def loop_starts)


text \<open>With both, the last star is not enough: going on with the bracket as itself loses the class.\<close>

lemma bracket_in_name_is_missed:
  "glob_match ''*[ab]*b]'' ''[ab]'' = Some False" "glob_meaning (chars ''*[ab]*b]'') (chars ''[ab]'')"
proof -
  show "glob_match ''*[ab]*b]'' ''[ab]'' = Some False"
    by (simp add: glob_match_def chars_ascii glob_loop.simps class_match_def position_def)
  show "glob_meaning (chars ''*[ab]*b]'') (chars ''[ab]'')"
    by (simp add: chars_ascii glob_meaning.simps takes_def class_match_def position_def)
qed


section \<open>Whole paths\<close>

lemma any_directories:
  "segments_match (''**'' # rest) path \<longleftrightarrow> (\<exists>dirs below. path = dirs @ below \<and> segments_match rest below)"
  (is "_ \<longleftrightarrow> ?split")
proof
  assume "segments_match (''**'' # rest) path"
  then obtain k where "segments_match rest (drop k path)" by (auto simp: list_ex_iff simp del: upt_Suc)
  then show ?split by (intro exI [of _ "take k path"] exI [of _ "drop k path"]) simp
next
  assume ?split
  then obtain dirs below where "path = dirs @ below" "segments_match rest below" by blast
  then have "segments_match rest (drop (length dirs) path)" "length dirs \<in> set [0..<length path + 1]"
    by (simp_all del: upt_Suc)
  then show "segments_match (''**'' # rest) path" by (auto simp: list_ex_iff simp del: upt_Suc)
qed

lemma segments_match_plain:
  "''**'' \<notin> set patterns \<Longrightarrow> segments_match patterns path \<longleftrightarrow> list_all2 glob_matches patterns path"
  by (induction patterns arbitrary: path) (auto simp: list_all2_Cons1 split: list.splits)

end
