(* ===== verification/Tail_History.thy ===== *)
theory Tail_History
  imports Tail
begin

text \<open>
  The tailer over the life of a log file. A writer appends to the file and rotates it, the tailer polls and is
  restarted from its checkpoint (\<^verbatim>\<open>tail.rs\<close>); the steps are those of the model of \<^verbatim>\<open>Tail\<close>, on a file system that
  keeps the bytes of every file by its identity.
\<close>

section \<open>The checkpoint file\<close>

definition restored :: "string \<times> 'h tail_cursor \<Rightarrow> string \<times> 'h tail_cursor" where
  "restored = (\<lambda>(path, c). (path, c\<lparr>cur_partial := [], cur_handle := None\<rparr>))"

lemma split_on_lines:
  "list_all (\<lambda>l. x \<notin> set l) ls \<Longrightarrow> split_on x (concat (map (\<lambda>l. l @ [x]) ls)) = ls @ [[]]"
  by (induction ls) auto

lemma foldl_update_distinct:
  assumes "distinct (map fst (acc @ xs))"
  shows "foldl (\<lambda>out (p, c). AList.update p c out) acc xs = acc @ xs"
  using assms
proof (induction xs arbitrary: acc)
  case (Cons x xs)
  have "AList.update (fst x) (snd x) acc = acc @ [x]"
    using Cons.prems by (induction acc) auto
  then show ?case using Cons.IH [of "acc @ [x]"] Cons.prems by (simp add: case_prod_beta)
qed simp

definition checkpoint_fields :: "string \<times> 'h tail_cursor \<Rightarrow> string" where
  "checkpoint_fields = (\<lambda>(path, c). path @ [CHR 0x09] @ show_nat (unat (device (cur_id c))) @ [CHR 0x09]
     @ show_nat (unat (inode (cur_id c))) @ [CHR 0x09] @ show_nat (cur_offset c))"

lemma digits_are_plain:
  "CHR 0x09 \<notin> set (show_nat n)" "CHR 0x0A \<notin> set (show_nat n)" "CHR 0x0D \<notin> set (show_nat n)"
  "list_all (\<lambda>c. of_char c < (128 :: nat)) (show_nat n)"
  using digits_show_nat [of n] by (auto simp: list_all_iff is_ascii_digit_def)

lemma parse_u64_show: "n < 2 ^ 64 \<Longrightarrow> parse_u64 (show_nat n) = Some n"
  by (simp add: parse_u64_def parse_unsigned_show_nat)

lemma unat_less_u64: "unat (w :: u64) < 2 ^ 64"
  using unsigned_less [of w] by simp

lemma checkpoint_fields_facts:
  assumes "utf8_valid path" "CHR 0x09 \<notin> set path" "CHR 0x0A \<notin> set path" "cur_offset c < 2 ^ 64"
  shows "CHR 0x0A \<notin> set (checkpoint_fields (path, c))" "strip_cr (checkpoint_fields (path, c)) = checkpoint_fields (path, c)"
    "utf8_valid (checkpoint_fields (path, c))"
    "parse_checkpoint_line (checkpoint_fields (path, c)) = Some (restored (path, c))"
proof -
  show "CHR 0x0A \<notin> set (checkpoint_fields (path, c))"
    using assms(3) by (simp add: checkpoint_fields_def digits_are_plain)
  have "last (checkpoint_fields (path, c)) \<in> set (show_nat (cur_offset c))"
    by (simp add: checkpoint_fields_def)
  then show "strip_cr (checkpoint_fields (path, c)) = checkpoint_fields (path, c)"
    using digits_are_plain(3) [of "cur_offset c"] by (auto simp: strip_cr_def)
  show "utf8_valid (checkpoint_fields (path, c))"
    unfolding checkpoint_fields_def prod.case
    by (rule utf8_valid_append [OF assms(1)]) (simp add: utf8_valid_ascii digits_are_plain)
  show "parse_checkpoint_line (checkpoint_fields (path, c)) = Some (restored (path, c))"
  proof -
    have "c\<lparr>cur_partial := [], cur_handle := None\<rparr> = \<lparr>cur_id = \<lparr>device = device (cur_id c), inode = inode (cur_id c)\<rparr>,
        cur_offset = cur_offset c, cur_partial = [], cur_handle = None\<rparr>"
      by (cases c; cases "cur_id c") simp
    then show ?thesis
      using assms(2) parse_u64_show [OF unat_less_u64] parse_u64_show [OF assms(4)]
      by (simp add: parse_checkpoint_line_def checkpoint_fields_def digits_are_plain restored_def)
  qed
qed

lemma load_checkpoint_text:
  assumes "distinct (map fst cursors)" "list_all (\<lambda>(path, c). utf8_valid path \<and> cur_offset c < 2 ^ 64) cursors"
  shows "load_checkpoint (Some (checkpoint_text cursors)) =
    map (\<lambda>(path, c). (path, c\<lparr>cur_partial := [], cur_handle := None\<rparr>))
      (filter (\<lambda>(path, _). CHR 0x09 \<notin> set path \<and> CHR 0x0A \<notin> set path) cursors)"
proof -
  let ?kept = "filter (\<lambda>(path, _). CHR 0x09 \<notin> set path \<and> CHR 0x0A \<notin> set path) cursors"
  have facts: "\<forall>x \<in> set ?kept. CHR 0x0A \<notin> set (checkpoint_fields x) \<and> strip_cr (checkpoint_fields x) = checkpoint_fields x
      \<and> utf8_valid (checkpoint_fields x) \<and> parse_checkpoint_line (checkpoint_fields x) = Some (restored x)"
    using assms(2) checkpoint_fields_facts by (fastforce simp: list_all_iff)
  have valid: "map strip_cr (map checkpoint_fields ?kept) = map checkpoint_fields ?kept"
    "\<forall>l \<in> set (map checkpoint_fields ?kept). utf8_valid l"
    using facts by auto
  have "filter (\<lambda>(path, _). savable path) cursors = ?kept"
    using assms(2) by (intro filter_cong) (auto simp: list_all_iff savable_def utf8_valid_lossy)
  moreover have "map checkpoint_line ?kept = map (\<lambda>l. l @ [CHR 0x0A]) (map checkpoint_fields ?kept)"
    using assms(2) by (auto simp: list_all_iff checkpoint_line_def checkpoint_fields_def utf8_valid_lossy)
  ultimately have "checkpoint_text cursors = concat (map (\<lambda>l. l @ [CHR 0x0A]) (map checkpoint_fields ?kept))"
    unfolding checkpoint_text_def by (simp only:)
  then have "split_on (CHR 0x0A) (checkpoint_text cursors) = map checkpoint_fields ?kept @ [[]]"
    using facts split_on_lines [of "CHR 0x0A" "map checkpoint_fields ?kept"] by (simp add: list_all_iff)
  then have "buffered_lines (checkpoint_text cursors) = takeWhile utf8_valid (map checkpoint_fields ?kept)"
    unfolding buffered_lines_def by (simp only: butlast_snoc last_snoc valid(1) simp_thms if_True append_Nil2)
  then have lines: "buffered_lines (checkpoint_text cursors) = map checkpoint_fields ?kept"
    using takeWhile_eq_all_conv [THEN iffD2, OF valid(2)] by (rule trans)
  have "foldl (\<lambda>out line. case parse_checkpoint_line line of Some (p, c) \<Rightarrow> AList.update p c out | None \<Rightarrow> out) acc
      (map checkpoint_fields xs) = foldl (\<lambda>out (p, c). AList.update p c out) acc (map restored xs)"
    if "set xs \<subseteq> set ?kept" for acc xs
    using that facts by (induction xs arbitrary: acc) (auto split: prod.splits)
  moreover have "distinct (map fst (map restored ?kept))"
    using assms(1) by (auto simp: restored_def distinct_map_filter case_prod_beta comp_def)
  ultimately show ?thesis
    using foldl_update_distinct [of "[]" "map restored ?kept"] lines by (simp add: load_checkpoint_def restored_def)
qed

text \<open>
  What a poll saves of the cursors, a restart loads: the same files at the same offsets, with no fragment and
  no handle. A path with a tab or a newline in its name is left out.
\<close>

theorem checkpoint_roundtrip:
  assumes "distinct (map fst cursors)" "list_all (\<lambda>(path, c). utf8_valid path \<and> cur_offset c < 2 ^ 64) cursors"
  shows "load_checkpoint (Some (checkpoint_text cursors)) =
    map (\<lambda>(path, c). (path, c\<lparr>cur_partial := [], cur_handle := None\<rparr>))
      (filter (\<lambda>(path, _). CHR 0x09 \<notin> set path \<and> CHR 0x0A \<notin> set path) cursors)"
  using assms by (rule load_checkpoint_text)

theorem checkpoint_roundtrip_witness:
  "load_checkpoint (Some (checkpoint_text
     [(''/var/log/a.log'', \<lparr>cur_id = \<lparr>device = 1, inode = 7\<rparr>, cur_offset = 12, cur_partial = [], cur_handle = Some (0 :: nat)\<rparr>)]))
   = [(''/var/log/a.log'', \<lparr>cur_id = \<lparr>device = 1, inode = 7\<rparr>, cur_offset = 12, cur_partial = [], cur_handle = (None :: nat option)\<rparr>)]"
proof -
  let ?c = "\<lparr>cur_id = \<lparr>device = 1, inode = 7\<rparr>, cur_offset = 12, cur_partial = [], cur_handle = Some (0 :: nat)\<rparr>"
  have "utf8_valid ''/var/log/a.log''" by (simp add: utf8_valid_ascii)
  then show ?thesis
    using checkpoint_roundtrip [of "[(''/var/log/a.log'', ?c)]"] by simp
qed

section \<open>The life of a log file\<close>

text \<open>
  The file that has the path now, the bytes of every file, the files that had the path from the first to the
  present one, and the tailer: its cursors, its counters, what it emitted and the checkpoint on disk. A handle is
  the identity of the file that was opened.
\<close>

record world =
  w_now :: file_id
  w_files :: "file_id \<Rightarrow> string"
  w_gens :: "file_id list"
  w_cursors :: "(string \<times> file_id tail_cursor) list"
  w_stats :: tail_stats
  w_out :: "string list"
  w_saved :: "string option"

definition world_start :: "file_id \<Rightarrow> string \<Rightarrow> world" where
  "world_start i contents = \<lparr>w_now = i, w_files = (\<lambda>_. [])(i := contents), w_gens = [i], w_cursors = [],
     w_stats = tail_stats_default, w_out = [], w_saved = None\<rparr>"

definition view_of :: "(file_id \<Rightarrow> string) \<Rightarrow> file_id \<Rightarrow> view" where
  "view_of fs i = \<lparr>v_len = Some (length (fs i)), v_seek = True, v_read = (\<lambda>off limit. Some (take limit (drop off (fs i))))\<rparr>"

text \<open>A poll of the path. The file may grow between the look at its metadata and the read.\<close>

definition grown_files :: "string \<Rightarrow> world \<Rightarrow> file_id \<Rightarrow> string" where
  "grown_files bs w = (w_files w)(w_now w := w_files w (w_now w) @ bs)"

definition poll_answers :: "string \<Rightarrow> world \<Rightarrow> file_id answers" where
  "poll_answers bs w = \<lparr>a_meta = Some \<lparr>m_is_file = True, m_id = w_now w, m_len = length (w_files w (w_now w))\<rparr>,
     a_open = Some (w_now w), a_old = view_of (w_files w), a_reopen = Some (w_now w), a_view = view_of (grown_files bs w)\<rparr>"

definition world_poll :: "string \<Rightarrow> string \<Rightarrow> world \<Rightarrow> world" where
  "world_poll path bs w =
     (let (cursors, st, emitted) = poll_one (poll_answers bs w) path False (w_cursors w) (w_stats w)
      in w\<lparr>w_files := grown_files bs w, w_cursors := cursors, w_stats := st, w_out := w_out w @ emitted,
           w_saved := Some (checkpoint_text cursors)\<rparr>)"

definition cursor_at :: "string \<Rightarrow> world \<Rightarrow> file_id \<Rightarrow> bool" where
  "cursor_at path w i \<longleftrightarrow> (case map_of (w_cursors w) path of Some c \<Rightarrow> cur_id c = i | None \<Rightarrow> False)"

text \<open>
  The writer appends to the present file, or still to the one the tailer has not left; it rotates only when the
  tailer has the present file open, so at most once between two polls. A poll does not fall inside a character. A
  poll that finds nothing at the path changes nothing. A restart finds the tailer between two lines, on the
  present file.
\<close>

inductive tail_step :: "string \<Rightarrow> world \<Rightarrow> world \<Rightarrow> bool" for path where
  append: "i = w_now w \<or> cursor_at path w i \<Longrightarrow> tail_step path w (w\<lparr>w_files := (w_files w)(i := w_files w i @ bs)\<rparr>)"
| rotate: "map_of (w_cursors w) path = Some c \<Longrightarrow> cur_id c = w_now w \<Longrightarrow> cur_handle c = Some (w_now w) \<Longrightarrow>
    j \<notin> set (w_gens w) \<Longrightarrow> tail_step path w (w\<lparr>w_now := j, w_files := (w_files w)(j := []), w_gens := w_gens w @ [j]\<rparr>)"
| poll: "ends_whole (grown_files bs w (w_now w)) \<Longrightarrow> length (grown_files bs w (w_now w)) < 2 ^ 64 \<Longrightarrow> tail_step path w (world_poll path bs w)"
| missed: "poll_one a path False (w_cursors w) (w_stats w) = (cursors, st, emitted) \<Longrightarrow> a_meta a = None \<Longrightarrow>
    tail_step path w (w\<lparr>w_cursors := cursors, w_stats := st, w_out := w_out w @ emitted, w_saved := Some (checkpoint_text cursors)\<rparr>)"
| restart: "map_of (w_cursors w) path = Some c \<Longrightarrow> cur_id c = w_now w \<Longrightarrow> cur_partial c = [] \<Longrightarrow>
    tail_step path w (w\<lparr>w_cursors := load_checkpoint (w_saved w), w_stats := tail_stats_default\<rparr>)"

inductive tail_reaches :: "string \<Rightarrow> world \<Rightarrow> bool" for path where
  start: "tail_reaches path (world_start i contents)"
| step: "tail_reaches path w \<Longrightarrow> tail_step path w w' \<Longrightarrow> tail_reaches path w'"

section \<open>Every line once\<close>

text \<open>What has been read of the file the cursor is in, and the invariant that ties it to what was emitted.\<close>

definition text_read :: "world \<Rightarrow> file_id tail_cursor \<Rightarrow> string" where
  "text_read w c = from_utf8_lossy (take (cur_offset c) (w_files w (cur_id c)))"

definition lines_of_files :: "(file_id \<Rightarrow> string) \<Rightarrow> file_id list \<Rightarrow> string list" where
  "lines_of_files fs gens = concat (map (\<lambda>i. nonempty_lines (from_utf8_lossy (fs i))) gens)"

lemma lines_of_files_upd [simp]: "i \<notin> set gens \<Longrightarrow> lines_of_files (fs(i := bs)) gens = lines_of_files fs gens"
  by (auto simp: lines_of_files_def intro!: arg_cong [of _ _ concat])

lemma lines_of_files_append [simp]:
  "lines_of_files fs (gens @ [i]) = lines_of_files fs gens @ nonempty_lines (from_utf8_lossy (fs i))" "lines_of_files fs [] = []"
  by (simp_all add: lines_of_files_def)

definition cursor_inv :: "world \<Rightarrow> file_id list \<Rightarrow> file_id tail_cursor \<Rightarrow> bool" where
  "cursor_inv w before c \<longleftrightarrow> cur_offset c \<le> length (w_files w (cur_id c)) \<and> cur_offset c < 2 ^ 64 \<and>
     ends_whole (take (cur_offset c) (w_files w (cur_id c))) \<and> cur_partial c = fragment (text_read w c) \<and>
     w_out w = lines_of_files (w_files w) before @ complete_lines (text_read w c) \<and>
     ((w_gens w = before @ [cur_id c] \<and> cur_id c = w_now w \<and> (cur_handle c = None \<or> cur_handle c = Some (w_now w)))
      \<or> (w_gens w = before @ [cur_id c, w_now w] \<and> cur_handle c = Some (cur_id c)))"

definition tail_inv :: "string \<Rightarrow> world \<Rightarrow> bool" where
  "tail_inv path w \<longleftrightarrow> distinct (w_gens w) \<and>
     ((w_cursors w = [] \<and> w_gens w = [w_now w] \<and> w_out w = []) \<or>
      (\<exists>c before. w_cursors w = [(path, c)] \<and> cursor_inv w before c \<and> w_saved w = Some (checkpoint_text (w_cursors w))))"

lemma drain_reads_all:
  assumes "cur_handle c = Some i" "cur_offset c \<le> length (fs i)" "ends_whole (take (cur_offset c) (fs i))"
    and "cur_partial c = fragment (from_utf8_lossy (take (cur_offset c) (fs i)))"
  obtains b st' emitted where
    "drain_handle (view_of fs) c st =
       (b, c\<lparr>cur_offset := length (fs i), cur_partial := fragment (from_utf8_lossy (fs i))\<rparr>, st', emitted)"
    "complete_lines (from_utf8_lossy (take (cur_offset c) (fs i))) @ emitted = complete_lines (from_utf8_lossy (fs i))"
proof (cases "cur_offset c = length (fs i)")
  case True
  then have "c\<lparr>cur_offset := length (fs i), cur_partial := fragment (from_utf8_lossy (fs i))\<rparr> = c"
    using assms(4) by simp
  then show thesis using that [of False st "[]"] True assms(1) by (simp add: drain_handle_def view_of_def)
next
  case False
  let ?chunk = "drop (cur_offset c) (fs i)"
  let ?read = "from_utf8_lossy (take (cur_offset c) (fs i))"
  have whole: "from_utf8_lossy (fs i) = ?read @ from_utf8_lossy ?chunk"
    using lossy_append [OF assms(3), of ?chunk] by simp
  obtain complete rest where sp: "split_complete (cur_partial c @ from_utf8_lossy ?chunk) = (complete, rest)"
    by fastforce
  then have "nonempty_lines complete = complete_lines (fragment ?read @ from_utf8_lossy ?chunk)"
    "rest = fragment (from_utf8_lossy (fs i))"
    using split_complete_lines [OF sp] fragment_append [of ?read "from_utf8_lossy ?chunk"] assms(4) whole by simp_all
  then show thesis
    using that False assms(1,2) sp complete_lines_append [of ?read "from_utf8_lossy ?chunk"] whole
    by (simp add: drain_handle_def view_of_def Let_def)
qed

text \<open>A poll brings the cursor to the end of the present file, whatever it has to leave first.\<close>

definition caught_up :: "world \<Rightarrow> string list \<Rightarrow> file_id tail_cursor \<Rightarrow> bool" where
  "caught_up w emitted c \<longleftrightarrow> cur_id c = w_now w \<and> cur_handle c = Some (w_now w) \<and>
     cur_offset c = length (w_files w (w_now w)) \<and> cur_partial c = fragment (from_utf8_lossy (w_files w (w_now w))) \<and>
     emitted = lines_of_files (w_files w) (butlast (w_gens w)) @ complete_lines (from_utf8_lossy (w_files w (w_now w)))"

lemma poll_stays:
  assumes "cur_id c = w_now w" "cur_handle c = None \<or> cur_handle c = Some (w_now w)"
    and "cur_offset c \<le> length (w_files w (w_now w))" "ends_whole (take (cur_offset c) (w_files w (w_now w)))"
    and "cur_partial c = fragment (text_read w c)"
  obtains c' st' emitted where "poll_cursor (poll_answers bs w) (the (a_meta (poll_answers bs w))) c st = (c', st', emitted)"
    "c' = c\<lparr>cur_handle := Some (w_now w), cur_offset := length (grown_files bs w (w_now w)),
      cur_partial := fragment (from_utf8_lossy (grown_files bs w (w_now w)))\<rparr>"
    "complete_lines (text_read w c) @ emitted = complete_lines (from_utf8_lossy (grown_files bs w (w_now w)))"
proof -
  let ?c = "c\<lparr>cur_handle := Some (w_now w)\<rparr>"
  have off: "take (cur_offset c) (grown_files bs w (w_now w)) = take (cur_offset c) (w_files w (w_now w))"
    using assms(3) by (simp add: grown_files_def)
  have "open_first (poll_answers bs w) (the (a_meta (poll_answers bs w))) c = ?c"
    using assms(1,2) by (auto simp: open_first_def poll_answers_def Let_def)
  moreover have "settle (poll_answers bs w) (the (a_meta (poll_answers bs w))) ?c st = (?c, st, [])"
    using assms(1,3) by (simp add: settle_def poll_answers_def)
  moreover obtain b st' emitted where "drain_handle (view_of (grown_files bs w)) ?c st = (b, ?c\<lparr>cur_offset := length (grown_files bs w (w_now w)),
      cur_partial := fragment (from_utf8_lossy (grown_files bs w (w_now w)))\<rparr>, st', emitted)"
    "complete_lines (from_utf8_lossy (take (cur_offset c) (grown_files bs w (w_now w)))) @ emitted
      = complete_lines (from_utf8_lossy (grown_files bs w (w_now w)))"
  proof (rule drain_reads_all [of ?c "w_now w" "grown_files bs w" st])
    show "cur_offset ?c \<le> length (grown_files bs w (w_now w))" using assms(3) by (simp add: grown_files_def)
  qed (use assms off in \<open>simp_all add: text_read_def\<close>)
  ultimately show thesis
    using that off assms(1) by (simp add: poll_cursor_def Let_def text_read_def poll_answers_def)
qed

lemma poll_leaves:
  assumes "cur_id c \<noteq> w_now w" "cur_handle c = Some (cur_id c)"
    and "cur_offset c \<le> length (w_files w (cur_id c))" "ends_whole (take (cur_offset c) (w_files w (cur_id c)))"
    and "cur_partial c = fragment (text_read w c)"
  obtains c' st' emitted where "poll_cursor (poll_answers bs w) (the (a_meta (poll_answers bs w))) c st = (c', st', emitted)"
    "c' = \<lparr>cur_id = w_now w, cur_offset = length (grown_files bs w (w_now w)),
      cur_partial = fragment (from_utf8_lossy (grown_files bs w (w_now w))), cur_handle = Some (w_now w)\<rparr>"
    "complete_lines (text_read w c) @ emitted =
      nonempty_lines (from_utf8_lossy (w_files w (cur_id c))) @ complete_lines (from_utf8_lossy (grown_files bs w (w_now w)))"
proof -
  let ?new = "\<lparr>cur_id = w_now w, cur_offset = 0, cur_partial = [], cur_handle = Some (w_now w)\<rparr>"
  let ?st = "st\<lparr>rotations := rotations st + 1\<rparr>"
  have "open_first (poll_answers bs w) (the (a_meta (poll_answers bs w))) c = c"
    using assms(2) by (simp add: open_first_def)
  moreover obtain b st1 drained where "drain_handle (view_of (w_files w)) c ?st = (b, c\<lparr>cur_offset := length (w_files w (cur_id c)),
      cur_partial := fragment (from_utf8_lossy (w_files w (cur_id c)))\<rparr>, st1, drained)"
    and drained: "complete_lines (text_read w c) @ drained = complete_lines (from_utf8_lossy (w_files w (cur_id c)))"
    using drain_reads_all [of c "cur_id c" "w_files w" ?st] assms(2-5) unfolding text_read_def by blast
  then obtain st2 first where "settle (poll_answers bs w) (the (a_meta (poll_answers bs w))) c st = (?new, st2, first)"
    "first = drained @ (if fragment (from_utf8_lossy (w_files w (cur_id c))) = [] then [] else [fragment (from_utf8_lossy (w_files w (cur_id c)))])"
    using assms(1) by (simp add: settle_def leave_rotated_def poll_answers_def restart_at_def Let_def)
  moreover obtain b st3 emitted where "drain_handle (view_of (grown_files bs w)) ?new st2 = (b, ?new\<lparr>cur_offset := length (grown_files bs w (w_now w)),
      cur_partial := fragment (from_utf8_lossy (grown_files bs w (w_now w)))\<rparr>, st3, emitted)"
    "emitted = complete_lines (from_utf8_lossy (grown_files bs w (w_now w)))"
    by (rule drain_reads_all [of ?new "w_now w" "grown_files bs w" st2]) simp_all
  ultimately show thesis
    using that drained all_lines [of "from_utf8_lossy (w_files w (cur_id c))"]
    by (simp add: poll_cursor_def Let_def poll_answers_def)
qed

lemma lines_of_files_grown [simp]: "w_now w \<notin> set gens \<Longrightarrow> lines_of_files (grown_files bs w) gens = lines_of_files (w_files w) gens"
  by (simp add: grown_files_def)

lemma world_poll_result:
  assumes "poll_cursor (poll_answers bs w) (the (a_meta (poll_answers bs w))) c (w_stats w) = (c', st', emitted)"
    and "(w_cursors w = [] \<and> c = new_cursor (the (a_meta (poll_answers bs w))) False) \<or> w_cursors w = [(path, c)]"
  shows "world_poll path bs w = w\<lparr>w_files := grown_files bs w, w_cursors := [(path, c')], w_stats := st',
    w_out := w_out w @ emitted, w_saved := Some (checkpoint_text [(path, c')])\<rparr>"
  using assms by (auto simp: world_poll_def poll_one_def poll_answers_def Let_def)

lemma cursor_cases:
  assumes "distinct (w_gens w)" "cursor_inv w before c"
  shows "(w_gens w = before @ [w_now w] \<and> cur_id c = w_now w) \<or>
    (w_gens w = before @ [cur_id c, w_now w] \<and> cur_id c \<noteq> w_now w \<and> cur_handle c = Some (cur_id c))"
  using assms by (auto simp: cursor_inv_def)

lemma poll_catches_up:
  assumes "tail_inv path w"
  obtains c where "w_cursors (world_poll path bs w) = [(path, c)]"
    "w_saved (world_poll path bs w) = Some (checkpoint_text [(path, c)])"
    "caught_up (world_poll path bs w) (w_out (world_poll path bs w)) c"
proof -
  have dist: "distinct (w_gens w)" using assms by (simp add: tail_inv_def)
  consider (first) "w_cursors w = []" "w_gens w = [w_now w]" "w_out w = []"
    | (same) c before where "w_cursors w = [(path, c)]" "cursor_inv w before c" "w_gens w = before @ [w_now w]" "cur_id c = w_now w"
    | (left) c before where "w_cursors w = [(path, c)]" "cursor_inv w before c" "w_gens w = before @ [cur_id c, w_now w]"
        "cur_id c \<noteq> w_now w" "cur_handle c = Some (cur_id c)"
    using assms cursor_cases [OF dist] unfolding tail_inv_def by blast
  then show thesis
  proof cases
    case first
    let ?c = "new_cursor (the (a_meta (poll_answers bs w))) False"
    obtain c' st' em where res: "poll_cursor (poll_answers bs w) (the (a_meta (poll_answers bs w))) ?c (w_stats w) = (c', st', em)"
      "c' = ?c\<lparr>cur_handle := Some (w_now w), cur_offset := length (grown_files bs w (w_now w)),
        cur_partial := fragment (from_utf8_lossy (grown_files bs w (w_now w)))\<rparr>"
      "complete_lines (text_read w ?c) @ em = complete_lines (from_utf8_lossy (grown_files bs w (w_now w)))"
      by (rule poll_stays [of ?c w bs "w_stats w"]) (simp_all add: new_cursor_def poll_answers_def text_read_def)
    then show thesis
      using that [of c'] world_poll_result [OF res(1), of path] first
      by (simp add: caught_up_def new_cursor_def poll_answers_def text_read_def)
  next
    case same
    obtain c' st' em where res: "poll_cursor (poll_answers bs w) (the (a_meta (poll_answers bs w))) c (w_stats w) = (c', st', em)"
      "c' = c\<lparr>cur_handle := Some (w_now w), cur_offset := length (grown_files bs w (w_now w)),
        cur_partial := fragment (from_utf8_lossy (grown_files bs w (w_now w)))\<rparr>"
      "complete_lines (text_read w c) @ em = complete_lines (from_utf8_lossy (grown_files bs w (w_now w)))"
      by (rule poll_stays [of c w bs "w_stats w"]) (use same in \<open>auto simp: cursor_inv_def\<close>)
    have "w_now w \<notin> set before" using dist same(3) by simp
    then show thesis
      using that [of c'] world_poll_result [OF res(1), of path] same res(2,3)
      by (simp add: caught_up_def cursor_inv_def)
  next
    case left
    obtain c' st' em where res: "poll_cursor (poll_answers bs w) (the (a_meta (poll_answers bs w))) c (w_stats w) = (c', st', em)"
      "c' = \<lparr>cur_id = w_now w, cur_offset = length (grown_files bs w (w_now w)),
        cur_partial = fragment (from_utf8_lossy (grown_files bs w (w_now w))), cur_handle = Some (w_now w)\<rparr>"
      "complete_lines (text_read w c) @ em = nonempty_lines (from_utf8_lossy (w_files w (cur_id c)))
        @ complete_lines (from_utf8_lossy (grown_files bs w (w_now w)))"
      by (rule poll_leaves [of c w bs "w_stats w"]) (use left in \<open>auto simp: cursor_inv_def\<close>)
    have "w_now w \<notin> set before" using dist left(3) by simp
    then show thesis
      using that [of c'] world_poll_result [OF res(1), of path] left res(2,3)
      using left(4)
      by (simp add: caught_up_def cursor_inv_def butlast_append grown_files_def [of bs w])
  qed
qed

lemma poll_keeps_gens [simp]: "w_gens (world_poll path bs w) = w_gens w" "w_now (world_poll path bs w) = w_now w"
  "w_files (world_poll path bs w) = grown_files bs w"
  by (simp_all add: world_poll_def case_prod_beta)

lemma last_gen: "tail_inv path w \<Longrightarrow> w_gens w \<noteq> [] \<and> last (w_gens w) = w_now w"
  by (auto simp: tail_inv_def cursor_inv_def)

lemma tail_step_append:
  assumes "tail_inv path w" "i = w_now w \<or> cursor_at path w i"
  shows "tail_inv path (w\<lparr>w_files := (w_files w)(i := w_files w i @ bs)\<rparr>)"
proof (cases "w_cursors w = []")
  case False
  then obtain c before where c: "w_cursors w = [(path, c)]" "cursor_inv w before c" "w_saved w = Some (checkpoint_text (w_cursors w))"
    using assms(1) by (auto simp: tail_inv_def)
  have dist: "distinct (w_gens w)" using assms(1) by (simp add: tail_inv_def)
  have "i = w_now w \<or> i = cur_id c" using assms(2) c(1) by (auto simp: cursor_at_def)
  then have "i \<notin> set before" using dist c(2) by (auto simp: cursor_inv_def)
  moreover have "take (cur_offset c) (((w_files w)(i := w_files w i @ bs)) (cur_id c)) = take (cur_offset c) (w_files w (cur_id c))"
    "cur_offset c \<le> length (((w_files w)(i := w_files w i @ bs)) (cur_id c))"
    using c(2) by (auto simp: cursor_inv_def)
  ultimately have "cursor_inv (w\<lparr>w_files := (w_files w)(i := w_files w i @ bs)\<rparr>) before c"
    using c(2) by (simp add: cursor_inv_def text_read_def)
  then show ?thesis using c dist by (auto simp: tail_inv_def)
qed (use assms in \<open>auto simp: tail_inv_def cursor_inv_def\<close>)

lemma tail_step_rotate:
  assumes "tail_inv path w" "map_of (w_cursors w) path = Some c" "cur_id c = w_now w" "cur_handle c = Some (w_now w)"
    and "j \<notin> set (w_gens w)"
  shows "tail_inv path (w\<lparr>w_now := j, w_files := (w_files w)(j := []), w_gens := w_gens w @ [j]\<rparr>)" (is "tail_inv path ?w")
proof -
  obtain before where c: "w_cursors w = [(path, c)]" "cursor_inv w before c" "w_saved w = Some (checkpoint_text (w_cursors w))"
    using assms(1,2) by (auto simp: tail_inv_def)
  have dist: "distinct (w_gens w)" using assms(1) by (simp add: tail_inv_def)
  then have gens: "w_gens w = before @ [cur_id c]" using cursor_cases [OF dist c(2)] assms(3) by simp
  then have "j \<notin> set before" "j \<noteq> cur_id c" using assms(5) by auto
  then have "cursor_inv ?w before c"
    using c(2) gens \<open>j \<noteq> cur_id c\<close> assms(3,4) by (simp add: cursor_inv_def text_read_def)
  then show ?thesis using c dist assms(5) by (auto simp: tail_inv_def)
qed

lemma tail_step_poll:
  assumes "tail_inv path w" "ends_whole (grown_files bs w (w_now w))" "length (grown_files bs w (w_now w)) < 2 ^ 64"
  shows "tail_inv path (world_poll path bs w)"
proof -
  obtain c where c: "w_cursors (world_poll path bs w) = [(path, c)]"
    "w_saved (world_poll path bs w) = Some (checkpoint_text [(path, c)])"
    "caught_up (world_poll path bs w) (w_out (world_poll path bs w)) c"
    by (rule poll_catches_up [OF assms(1)])
  have "w_gens w = butlast (w_gens w) @ [w_now w]"
    using last_gen [OF assms(1)] by (metis append_butlast_last_id)
  then have "cursor_inv (world_poll path bs w) (butlast (w_gens w)) c"
    using c(3) assms(2,3) by (simp add: cursor_inv_def caught_up_def text_read_def)
  then show ?thesis using c(1,2) assms(1) by (auto simp: tail_inv_def)
qed

lemma tail_step_restart:
  assumes "tail_inv path w" "map_of (w_cursors w) path = Some c" "cur_id c = w_now w" "cur_partial c = []"
    and "utf8_valid path" "CHR 0x09 \<notin> set path" "CHR 0x0A \<notin> set path"
  shows "tail_inv path (w\<lparr>w_cursors := load_checkpoint (w_saved w), w_stats := tail_stats_default\<rparr>)"
proof -
  obtain before where c: "w_cursors w = [(path, c)]" "cursor_inv w before c" "w_saved w = Some (checkpoint_text (w_cursors w))"
    using assms(1,2) by (auto simp: tail_inv_def)
  let ?c = "c\<lparr>cur_partial := [], cur_handle := None\<rparr>"
  have dist: "distinct (w_gens w)" using assms(1) by (simp add: tail_inv_def)
  have "load_checkpoint (w_saved w) = [(path, ?c)]"
    using load_checkpoint_text [of "[(path, c)]"] c assms(5-7) by (simp add: cursor_inv_def)
  moreover have "cursor_inv (w\<lparr>w_cursors := [(path, ?c)], w_stats := tail_stats_default\<rparr>) before ?c"
    using c(2) assms(3,4) cursor_cases [OF dist c(2)] by (simp add: cursor_inv_def text_read_def)
  moreover have "checkpoint_text [(path, c)] = checkpoint_text [(path, ?c)]"
    by (simp add: checkpoint_text_def checkpoint_line_def)
  ultimately show ?thesis using c dist by (auto simp: tail_inv_def)
qed

lemma tail_inv_start: "tail_inv path (world_start i contents)"
  by (simp add: tail_inv_def world_start_def)

lemma tail_inv_step:
  assumes "tail_step path w w'" "tail_inv path w" "utf8_valid path" "CHR 0x09 \<notin> set path" "CHR 0x0A \<notin> set path"
  shows "tail_inv path w'"
  using assms
proof (cases rule: tail_step.cases)
  case (missed a cursors st emitted)
  then have "cursors = w_cursors w" "emitted = []" by (auto simp: poll_one_def)
  then show ?thesis using assms(2) missed(1) by (auto simp: tail_inv_def cursor_inv_def text_read_def)
qed (auto intro: tail_step_append tail_step_rotate tail_step_poll tail_step_restart)

lemma tail_reaches_inv:
  assumes "tail_reaches path w" "utf8_valid path" "CHR 0x09 \<notin> set path" "CHR 0x0A \<notin> set path"
  shows "tail_inv path w"
  using assms by (induction rule: tail_reaches.induct) (auto intro: tail_inv_start tail_inv_step)


lemmas poll_eval = world_poll_def poll_one_def poll_cursor_def settle_def leave_rotated_def restart_at_def open_first_def
  new_cursor_def drain_handle_def poll_answers_def view_of_def grown_files_def world_start_def

lemmas line_eval = split_complete_def rsplit_once_def nonempty_lines_def complete_lines_def lossy_Cons_ascii


section \<open>A restart inside a line\<close>

text \<open>
  C39. The fragment of an unfinished line is not saved, but the offset behind it is: after a restart the rest of
  the line is emitted as if it were the line, and the fragment, \<open>a\<close> here, is never emitted.
\<close>

theorem restart_loses_fragment:
  assumes "utf8_valid a" "CHR 0x0A \<notin> set a" "length a < 2 ^ 64" "utf8_valid b" "CHR 0x0A \<notin> set b" "b \<noteq> []"
    and "utf8_valid path" "CHR 0x09 \<notin> set path" "CHR 0x0A \<notin> set path"
    and "w1 = world_poll path [] (world_start i a)" "w2 = w1\<lparr>w_cursors := load_checkpoint (w_saved w1)\<rparr>"
  shows "w_out (world_poll path (b @ [CHR 0x0A]) w2) = [b] \<and>
    complete_lines (w_files (world_poll path (b @ [CHR 0x0A]) w2) i) = [a @ b]"
proof -
  obtain c where c: "w_cursors w1 = [(path, c)]" "w_saved w1 = Some (checkpoint_text [(path, c)])" "caught_up w1 (w_out w1) c"
    unfolding assms(10) by (rule poll_catches_up [OF tail_inv_start])
  have w1: "w_now w1 = i" "w_gens w1 = [i]" "w_files w1 i = a"
    by (simp_all add: assms(10) world_start_def grown_files_def)
  then have c': "cur_id c = i" "cur_offset c = length a" "w_out w1 = []"
    using c(3) assms(1,2) by (simp_all add: caught_up_def complete_lines_def utf8_valid_lossy)
  let ?c = "c\<lparr>cur_partial := [], cur_handle := None\<rparr>"
  have "load_checkpoint (w_saved w1) = [(path, ?c)]"
    using load_checkpoint_text [of "[(path, c)]"] c(2) c'(2) assms(3,7-9) by simp
  then have w2: "w_cursors w2 = [(path, ?c)]" "w_now w2 = i" "w_files w2 i = a" "w_out w2 = []"
    using w1 c' by (simp_all add: assms(11))
  have b: "from_utf8_lossy (b @ [CHR 0x0A]) = b @ [CHR 0x0A]"
    by (rule utf8_valid_lossy) (simp add: utf8_valid_append assms(4) utf8_valid_ascii)
  have "split_complete (b @ [CHR 0x0A]) = (b, [])"
    using rsplit_once_Some [of "CHR 0x0A" "b @ [CHR 0x0A]" b "[]"] by (simp add: split_complete_def)
  then have "w_out (world_poll path (b @ [CHR 0x0A]) w2) = [b]"
    using w2 c' b assms(5,6) by (simp add: poll_eval nonempty_lines_def)
  moreover have "complete_lines (w_files (world_poll path (b @ [CHR 0x0A]) w2) i) = [a @ b]"
    using w2 assms(2,5,6) split_on_append_sep [of "CHR 0x0A" "a @ b" "[]"] by (simp add: grown_files_def complete_lines_def)
  ultimately show ?thesis ..
qed

theorem restart_loses_fragment_witness:
  "let w1 = world_poll ''/a.log'' [] (world_start \<lparr>device = 1, inode = 1\<rparr> ''user 4'') in
   w_out (world_poll ''/a.log'' (''2 failed'' @ [CHR 0x0A]) (w1\<lparr>w_cursors := load_checkpoint (w_saved w1)\<rparr>)) = [''2 failed'']"
  using restart_loses_fragment [OF _ _ _ _ _ _ _ _ _ refl refl, of "''user 4''" "''2 failed''" "''/a.log''" "\<lparr>device = 1, inode = 1\<rparr>"]
  by (simp add: utf8_valid_ascii)

end
