(* ===== verification/Glob_Walk.thy ===== *)
theory Glob_Walk
  imports Glob
begin

text \<open>
  The expansion of a path pattern against the file system (\<^verbatim>\<open>tail.rs\<close>, \<^verbatim>\<open>glob_paths\<close> and \<^verbatim>\<open>walk_glob\<close>). The file
  system is what it answers: the entries of a directory with their own type, and whether a path names a file or a
  directory after links are followed. Directories nest without cycles, which a rank says where it is needed; the
  walk takes how deep it may descend as an argument, and a depth of the rank is shown to be enough.
\<close>

section \<open>The walk\<close>

text \<open>An entry is its name and whether it is itself a directory, so that a link to one is not.\<close>

record dir_fs =
  fs_read_dir :: "string \<Rightarrow> (string \<times> bool) list option"
  fs_is_file :: "string \<Rightarrow> bool"
  fs_is_dir :: "string \<Rightarrow> bool"

definition join_path :: "string \<Rightarrow> string \<Rightarrow> string" where
  "join_path dir name = (if dir = [] then name else if last dir = CHR ''/'' then dir @ name else dir @ CHR ''/'' # name)"

fun gather :: "'a list option list \<Rightarrow> 'a list option" where
  "gather [] = Some []"
| "gather (None # _) = None"
| "gather (Some xs # rest) = map_option (\<lambda>ys. xs @ ys) (gather rest)"

text \<open>\<open>limit\<close> is how deep directories may nest, and \<open>depth\<close> what is left of it below a \<^verbatim>\<open>**\<close>.\<close>

function walk_glob :: "dir_fs \<Rightarrow> nat \<Rightarrow> nat \<Rightarrow> string \<Rightarrow> string list \<Rightarrow> string list option" where
  "walk_glob fs limit depth dir [] = Some []"
| "walk_glob fs limit depth dir (segment # rest) =
     (if segment = ''**'' then
        (case fs_read_dir fs dir of
           None \<Rightarrow> walk_glob fs limit limit dir rest
         | Some entries \<Rightarrow> gather (walk_glob fs limit limit dir rest # map (\<lambda>(name, is_dir).
             if \<not> is_dir then Some []
             else (case depth of 0 \<Rightarrow> None | Suc d \<Rightarrow> walk_glob fs limit d (join_path dir name) (segment # rest))) entries))
      else if \<not> is_pattern_segment segment then
        (if rest = [] then Some (if fs_is_file fs (join_path dir segment) then [join_path dir segment] else [])
         else walk_glob fs limit limit (join_path dir segment) rest)
      else (case fs_read_dir fs dir of
          None \<Rightarrow> Some []
        | Some entries \<Rightarrow> gather (map (\<lambda>(name, _).
            if \<not> utf8_valid name \<or> \<not> glob_matches segment name then Some []
            else if rest = [] then Some (if fs_is_file fs (join_path dir name) then [join_path dir name] else [])
            else if fs_is_dir fs (join_path dir name) then walk_glob fs limit limit (join_path dir name) rest
            else Some []) entries)))"
  by pat_completeness auto
termination by (relation "measures [\<lambda>(fs, l, d, dir, segments). length segments, \<lambda>(fs, l, d, dir, segments). d]") auto

declare walk_glob.simps(2) [simp del]

text \<open>\<^verbatim>\<open>Path::components\<close>: the root, a leading current directory, parents and names.\<close>

datatype component = RootDir | CurDir | ParentDir | Normal string

definition components :: "string \<Rightarrow> component list" where
  "components path =
     (if path \<noteq> [] \<and> hd path = CHR ''/'' then [RootDir]
      else if path = ''.'' \<or> take 2 path = ''./'' then [CurDir] else []) @
     map (\<lambda>s. if s = ''..'' then ParentDir else Normal s)
       (filter (\<lambda>s. s \<noteq> [] \<and> s \<noteq> ''.'') (split_on (CHR ''/'') path))"

fun component_str :: "component \<Rightarrow> string" where
  "component_str RootDir = ''/''"
| "component_str CurDir = ''.''"
| "component_str ParentDir = ''..''"
| "component_str (Normal s) = s"

fun is_normal :: "component \<Rightarrow> bool" where
  "is_normal (Normal _) = True"
| "is_normal _ = False"

definition glob_root :: "string \<Rightarrow> string" where
  "glob_root pattern = (let root = foldl (\<lambda>root c. join_path root (component_str c)) []
     (filter (\<lambda>c. \<not> is_normal c) (components pattern)) in if root = [] then ''.'' else root)"

definition glob_segments :: "string \<Rightarrow> string list" where
  "glob_segments pattern = (let segments = map (\<lambda>c. from_utf8_lossy (component_str c)) (filter is_normal (components pattern))
     in if segments \<noteq> [] \<and> last segments = ''**'' then segments @ [''*''] else segments)"

definition glob_paths :: "dir_fs \<Rightarrow> nat \<Rightarrow> string \<Rightarrow> string list option" where
  "glob_paths fs limit pattern = walk_glob fs limit limit (glob_root pattern) (glob_segments pattern)"

section \<open>The walk ends\<close>

lemma gather_None: "gather xs = None \<longleftrightarrow> None \<in> set xs"
  by (induction xs rule: gather.induct) auto

lemma gather_in: "gather xs = Some ys \<Longrightarrow> y \<in> set ys \<longleftrightarrow> (\<exists>zs. Some zs \<in> set xs \<and> y \<in> set zs)"
  by (induction xs arbitrary: ys rule: gather.induct) auto

lemma gather_part:
  assumes "gather xs = Some ys" "y \<in> set ys"
  obtains zs where "Some zs \<in> set xs" "y \<in> set zs"
  using gather_in [OF assms(1), of y] assms(2) by auto

text \<open>Directories nest without cycles and no deeper than the limit.\<close>

definition nested :: "dir_fs \<Rightarrow> nat \<Rightarrow> (string \<Rightarrow> nat) \<Rightarrow> bool" where
  "nested fs limit rank \<longleftrightarrow> (\<forall>dir. rank dir \<le> limit) \<and>
     (\<forall>dir entries name. fs_read_dir fs dir = Some entries \<longrightarrow> (name, True) \<in> set entries \<longrightarrow> rank (join_path dir name) < rank dir)"

lemma walk_ends:
  assumes "nested fs limit rank" "rank dir \<le> depth"
  shows "walk_glob fs limit depth dir segments \<noteq> None"
  using assms(2)
proof (induction segments arbitrary: depth dir)
  case (Cons segment rest)
  have rest: "walk_glob fs limit limit dir rest \<noteq> None" for dir
    using Cons.IH assms(1) by (simp add: nested_def)
  show ?case
  proof (cases "segment = ''**''")
    case True
    show ?thesis
      using Cons.prems
    proof (induction depth arbitrary: dir rule: less_induct)
      case (less depth)
      have "(case depth of 0 \<Rightarrow> None | Suc d \<Rightarrow> walk_glob fs limit d (join_path dir name) (segment # rest)) \<noteq> None"
        if "fs_read_dir fs dir = Some entries" "(name, True) \<in> set entries" for entries name
      proof -
        have "rank (join_path dir name) < rank dir" using assms(1) that unfolding nested_def by blast
        then obtain d where "depth = Suc d" "rank (join_path dir name) \<le> d"
          using less.prems by (cases depth) auto
        then show ?thesis using less.IH [of d] by simp
      qed
      then have "None \<notin> set (walk_glob fs limit limit dir rest # map (\<lambda>(name, is_dir). if \<not> is_dir then Some []
          else (case depth of 0 \<Rightarrow> None | Suc d \<Rightarrow> walk_glob fs limit d (join_path dir name) (segment # rest))) entries)"
        if "fs_read_dir fs dir = Some entries" for entries
        using that rest [of dir] by (fastforce split: if_splits)
      then show ?case
        using rest True unfolding gather_None [symmetric]
        by (subst walk_glob.simps) (simp split: option.split del: not_None_eq)
    qed
  next
    case False
    have "None \<notin> set (map (\<lambda>(name, _ :: bool). if \<not> utf8_valid name \<or> \<not> glob_matches segment name then Some []
        else if rest = [] then Some (if fs_is_file fs (join_path dir name) then [join_path dir name] else [])
        else if fs_is_dir fs (join_path dir name) then walk_glob fs limit limit (join_path dir name) rest
        else Some []) entries)" for entries
      by (auto simp: rest [THEN not_sym] simp del: not_None_eq split: if_splits)
    then show ?thesis
      using rest False unfolding gather_None [symmetric]
      by (subst walk_glob.simps) (simp split: option.split del: not_None_eq)
  qed
qed simp

section \<open>What the walk finds\<close>

lemma utf8_seq_shape:
  assumes "fst (utf8_seq s)"
  obtains "snd (utf8_seq s) = 1" "byte_at s 0 < 128" | "snd (utf8_seq s) = 2" "194 \<le> byte_at s 0"
  | "snd (utf8_seq s) = 3" "224 \<le> byte_at s 0" "second_of_three (byte_at s 0) (byte_at s 1)"
  | "snd (utf8_seq s) = 4" "240 \<le> byte_at s 0" "second_of_four (byte_at s 0) (byte_at s 1)"
  using assms by (auto simp: utf8_seq_def Let_def split: if_splits)

lemma code_point_ascii:
  assumes "fst (utf8_seq s)" "code_point s (snd (utf8_seq s)) < 128"
  shows "code_point s (snd (utf8_seq s)) = byte_at s 0"
  using assms(1)
proof (cases rule: utf8_seq_shape)
  case 2
  then show ?thesis using assms(2) by (simp add: code_point_def)
next
  case 3
  then have "224 < byte_at s 0 \<or> 160 \<le> byte_at s 1" by (auto simp: second_of_three_def)
  then show ?thesis using assms(2) 3(1) by (auto simp: code_point_def)
next
  case 4
  then have "240 < byte_at s 0 \<or> 144 \<le> byte_at s 1" by (auto simp: second_of_four_def)
  then show ?thesis using assms(2) 4(1) by (auto simp: code_point_def)
qed (simp add: code_point_def)

lemma chars_ascii_member: "of_char c < (128 :: nat) \<Longrightarrow> of_char c \<in> set (chars s) \<Longrightarrow> c \<in> set s"
proof (induction s rule: chars.induct)
  case (1 s)
  show ?case
  proof (cases "s = []")
    case False
    then consider "of_char c \<in> set (chars (drop (snd (utf8_seq s)) s))"
      | "fst (utf8_seq s)" "of_char c = code_point s (snd (utf8_seq s))"
      using 1(2,3) by (auto simp: chars.simps [of s] split: if_splits)
    then show ?thesis
    proof cases
      case 1
      then show ?thesis using "1.IH" False "1.prems"(1) in_set_dropD by metis
    next
      case 2
      then have "(of_char c :: nat) = of_char (hd s)" using code_point_ascii [of s] False 1(2) by (cases s) simp_all
      then show ?thesis using False by simp
    qed
  qed (use 1 in \<open>simp add: chars.simps\<close>)
qed

lemma literal_means_itself: "star_char \<notin> set p \<Longrightarrow> glob_meaning p p"
  by (induction p) (auto simp: glob_meaning.simps takes_def)

lemma literal_matches_itself:
  assumes "\<not> is_pattern_segment s"
  shows "glob_matches s s"
proof -
  have "CHR ''*'' \<notin> set s" "CHR ''['' \<notin> set s"
    using assms by (auto simp: is_pattern_segment_def list_ex_iff)
  then have "star_char \<notin> set (chars s)" "open_char \<notin> set (chars s)"
    using chars_ascii_member [of "CHR ''*''" s] chars_ascii_member [of "CHR ''[''" s] by auto
  then show ?thesis
    using glob_loop_decides [OF loop_starts(1), of "chars s" "chars s"] literal_means_itself
    by (auto simp: glob_match_def loop_starts unmixed_def)
qed

text \<open>A path found below a directory: its names match the segments and it names a file.\<close>

definition found_below :: "dir_fs \<Rightarrow> string \<Rightarrow> string list \<Rightarrow> string \<Rightarrow> bool" where
  "found_below fs dir segments path \<longleftrightarrow>
     (\<exists>names. path = foldl join_path dir names \<and> segments_match segments names \<and> fs_is_file fs path)"

lemma found_step:
  assumes "found_below fs (join_path dir name) rest path" "segment \<noteq> ''**''" "glob_matches segment name"
  shows "found_below fs dir (segment # rest) path"
proof -
  obtain names where "path = foldl join_path (join_path dir name) names" "segments_match rest names" "fs_is_file fs path"
    using assms(1) by (auto simp: found_below_def)
  then show ?thesis
    using assms(2,3) unfolding found_below_def by (intro exI [of _ "name # names"]) simp
qed

lemma found_here: "found_below fs dir [] path \<longleftrightarrow> path = dir \<and> fs_is_file fs dir"
  by (auto simp: found_below_def)

lemma found_any:
  assumes "found_below fs dir rest path"
  shows "found_below fs dir (''**'' # rest) path"
  using assms any_directories unfolding found_below_def by (metis append_Nil)

lemma found_deeper:
  assumes "found_below fs (join_path dir name) (''**'' # rest) path"
  shows "found_below fs dir (''**'' # rest) path"
proof -
  obtain names where names: "path = foldl join_path (join_path dir name) names" "segments_match (''**'' # rest) names" "fs_is_file fs path"
    using assms by (auto simp: found_below_def simp del: segments_match.simps)
  then have "segments_match (''**'' # rest) (name # names)"
    unfolding any_directories by (metis append_Cons)
  then show ?thesis
    using names unfolding found_below_def by (intro exI [of _ "name # names"]) (simp del: segments_match.simps)
qed

lemma walk_any_sound:
  assumes rest: "\<And>found path. walk_glob fs limit limit dir rest = Some found \<Longrightarrow> path \<in> set found \<Longrightarrow> found_below fs dir rest path"
    and deeper: "\<And>d name found path. depth = Suc d \<Longrightarrow> walk_glob fs limit d (join_path dir name) (''**'' # rest) = Some found \<Longrightarrow>
      path \<in> set found \<Longrightarrow> found_below fs (join_path dir name) (''**'' # rest) path"
    and "walk_glob fs limit depth dir (''**'' # rest) = Some found" "path \<in> set found"
  shows "found_below fs dir (''**'' # rest) path"
proof (cases "fs_read_dir fs dir")
  case None
  then have "walk_glob fs limit limit dir rest = Some found" using assms(3) by (simp add: walk_glob.simps(2))
  then show ?thesis using assms(4) by (intro found_any rest)
next
  case (Some entries)
  let ?parts = "walk_glob fs limit limit dir rest # map (\<lambda>(name, is_dir). if \<not> is_dir then Some []
    else (case depth of 0 \<Rightarrow> None | Suc d \<Rightarrow> walk_glob fs limit d (join_path dir name) (''**'' # rest))) entries"
  have "gather ?parts = Some found" using assms(3) Some by (simp add: walk_glob.simps(2) [of _ _ _ dir])
  then obtain zs where zs: "Some zs \<in> set ?parts" "path \<in> set zs" by (rule gather_part [OF _ assms(4)])
  then consider "walk_glob fs limit limit dir rest = Some zs"
    | d name where "depth = Suc d" "walk_glob fs limit d (join_path dir name) (''**'' # rest) = Some zs"
    by (auto split: if_splits nat.splits)
  then show ?thesis
  proof cases
    case 1
    then show ?thesis using zs(2) by (intro found_any rest)
  next
    case 2
    show ?thesis by (rule found_deeper, rule deeper [OF 2 zs(2)])
  qed
qed

lemma walk_other_sound:
  assumes rest: "\<And>dir found path. walk_glob fs limit limit dir rest = Some found \<Longrightarrow> path \<in> set found \<Longrightarrow> found_below fs dir rest path"
    and "segment \<noteq> ''**''" "walk_glob fs limit depth dir (segment # rest) = Some found" "path \<in> set found"
  shows "found_below fs dir (segment # rest) path"
proof -
  have "\<exists>name zs. glob_matches segment name \<and> path \<in> set zs \<and>
    ((rest = [] \<and> zs = [join_path dir name] \<and> fs_is_file fs (join_path dir name)) \<or> walk_glob fs limit limit (join_path dir name) rest = Some zs)"
  proof (cases "is_pattern_segment segment")
    case False
    then show ?thesis
      using assms(2-4) literal_matches_itself [OF False]
      by (intro exI [of _ segment] exI [of _ found]) (auto simp: walk_glob.simps(2) split: if_splits)
  next
    case True
    then obtain entries where entries: "fs_read_dir fs dir = Some entries"
      using assms(2-4) by (auto simp: walk_glob.simps(2) split: option.splits)
    let ?parts = "map (\<lambda>(name, _ :: bool). if \<not> utf8_valid name \<or> \<not> glob_matches segment name then Some []
        else if rest = [] then Some (if fs_is_file fs (join_path dir name) then [join_path dir name] else [])
        else if fs_is_dir fs (join_path dir name) then walk_glob fs limit limit (join_path dir name) rest
        else Some []) entries"
    have "gather ?parts = Some found" using assms(2,3) True entries by (simp add: walk_glob.simps(2))
    then obtain zs where zs: "Some zs \<in> set ?parts" "path \<in> set zs" by (rule gather_part [OF _ assms(4)])
    then obtain name where "Some zs = (if \<not> utf8_valid name \<or> \<not> glob_matches segment name then Some []
        else if rest = [] then Some (if fs_is_file fs (join_path dir name) then [join_path dir name] else [])
        else if fs_is_dir fs (join_path dir name) then walk_glob fs limit limit (join_path dir name) rest
        else Some [])"
      by auto
    then show ?thesis using zs(2) by (intro exI [of _ name] exI [of _ zs]) (auto split: if_splits)
  qed
  then obtain name zs where name: "glob_matches segment name" "path \<in> set zs"
    "(rest = [] \<and> zs = [join_path dir name] \<and> fs_is_file fs (join_path dir name)) \<or> walk_glob fs limit limit (join_path dir name) rest = Some zs"
    by blast
  then have "found_below fs (join_path dir name) rest path"
    using rest [of "join_path dir name" zs path] by (auto simp: found_here)
  then show ?thesis using name(1) assms(2) by (intro found_step)
qed

lemma walk_sound:
  assumes "walk_glob fs limit depth dir segments = Some found" "path \<in> set found"
  shows "found_below fs dir segments path"
  using assms
proof (induction segments arbitrary: depth dir found path)
  case (Cons segment rest)
  show ?case
  proof (cases "segment = ''**''")
    case True
    have "walk_glob fs limit depth dir (''**'' # rest) = Some found \<Longrightarrow> path \<in> set found \<Longrightarrow> found_below fs dir (''**'' # rest) path"
      for depth dir found path
    proof (induction depth arbitrary: dir found path rule: less_induct)
      case (less depth)
      show ?case
        by (rule walk_any_sound [OF Cons.IH less.IH less.prems]) simp_all
    qed
    then show ?thesis using Cons.prems True by blast
  next
    case False
    show ?thesis by (rule walk_other_sound [OF _ False Cons.prems]) (use Cons.IH in blast)
  qed
qed simp

text \<open>
  The expansion of a pattern ends on a file system whose directories nest no deeper than the limit, and every
  path it finds is a file whose names below the root match the pattern as the exclusions match theirs.
\<close>

theorem glob_paths_finds_matches:
  assumes "nested fs limit rank"
  shows "\<exists>found. glob_paths fs limit pattern = Some found \<and>
    (\<forall>path \<in> set found. \<exists>names. path = foldl join_path (glob_root pattern) names \<and>
       segments_match (glob_segments pattern) names \<and> fs_is_file fs path)"
proof -
  have "rank (glob_root pattern) \<le> limit" using assms by (simp add: nested_def)
  then obtain found where "walk_glob fs limit limit (glob_root pattern) (glob_segments pattern) = Some found"
    using walk_ends [OF assms, of "glob_root pattern" limit "glob_segments pattern"] by blast
  then show ?thesis
    using walk_sound unfolding glob_paths_def found_below_def by (intro exI [of _ found]) blast
qed

definition sample_fs :: dir_fs where
  "sample_fs = \<lparr>fs_read_dir = (\<lambda>d. if d = ''/'' then Some [(''log'', True)]
       else if d = ''/log'' then Some [(''a.log'', False), (''b.txt'', False)] else None),
     fs_is_file = (\<lambda>p. p = ''/log/a.log'' \<or> p = ''/log/b.txt''), fs_is_dir = (\<lambda>p. p = ''/'' \<or> p = ''/log'')\<rparr>"

lemma sample_walk: "glob_paths sample_fs 1 ''/**/*.log'' = Some [''/log/a.log'']"
  by (simp add: glob_paths_def glob_root_def glob_segments_def components_def join_path_def walk_glob.simps sample_fs_def
      is_pattern_segment_def glob_match_def chars_ascii glob_loop.simps utf8_valid_ascii lossy_Cons_ascii)

theorem glob_paths_finds_matches_witness:
  "glob_paths sample_fs 1 ''/**/*.log'' = Some [''/log/a.log''] \<and>
   (\<exists>names. ''/log/a.log'' = foldl join_path (glob_root ''/**/*.log'') names \<and>
      segments_match (glob_segments ''/**/*.log'') names)"
proof -
  have "nested sample_fs 1 (\<lambda>d. if d = ''/'' then 1 else 0)"
    by (auto simp: nested_def sample_fs_def join_path_def split: if_splits)
  from glob_paths_finds_matches [OF this, of "''/**/*.log''"] show ?thesis
    by (simp add: sample_walk del: One_nat_def) blast
qed

text \<open>The parents of a pattern are all put in front of its names, also those that stand behind one.\<close>

lemma parent_moves_to_front:
  "glob_root ''logs/../other/*.log'' = ''..''" "glob_segments ''logs/../other/*.log'' = [''logs'', ''other'', ''*.log'']"
  by (simp_all add: glob_root_def glob_segments_def components_def join_path_def lossy_Cons_ascii)

end
