(* ===== verification/Sigv4.thy ===== *)
theory Sigv4
  imports Partition "HOL-Library.Multiset" "HOL-Library.List_Lexorder" "HOL-Library.Char_ord" "HOL-Library.Product_Lexorder"
begin

text \<open>
  Request signatures of the S3 endpoint (\<^verbatim>\<open>s3_sigv4.rs\<close>): the canonical form of a request, the times it may carry, the
  verification of the Authorization header and presigned URLs. SHA-256 and HMAC are parameters. Byte strings are
  lists of characters, in the order of their bytes.
\<close>

section \<open>Data\<close>

definition ALGORITHM :: string where
  "ALGORITHM = ''AWS4-HMAC-SHA256''"

definition MAX_SKEW_SECS :: nat where
  "MAX_SKEW_SECS = 900"

record sig_credentials =
  sg_access_key :: string
  sg_secret_key :: string

datatype auth_error = AMissing | AMalformed | AUnknownKey | AExpired | ABadSignature

record parsed_auth =
  pa_access_key :: string
  pa_date :: string
  pa_region :: string
  pa_signed :: "string list"
  pa_signature :: string

type_synonym headers = "(string \<times> string) list"

record digests =
  hmac_of :: "string \<Rightarrow> string \<Rightarrow> string"
  sha256_of :: "string \<Rightarrow> string"

section \<open>Encodings\<close>

fun hex_decode_pairs :: "string \<Rightarrow> string option" where
  "hex_decode_pairs [] = Some []"
| "hex_decode_pairs [_] = None"
| "hex_decode_pairs (a # b # s) = (case (hex_char_val a, hex_char_val b) of
     (Some x, Some y) \<Rightarrow> map_option ((#) (char_of (16 * x + y))) (hex_decode_pairs s)
   | _ \<Rightarrow> None)"

definition hex_decode :: "string \<Rightarrow> string option" where
  "hex_decode s = (if length s mod 2 \<noteq> 0 \<or> s = [] then None else hex_decode_pairs s)"

definition hex_encode :: "string \<Rightarrow> string" where
  "hex_encode b = concat (map (\<lambda>c. [hex_digit (of_char c div 16), hex_digit (of_char c mod 16)]) b)"

text \<open>\<^verbatim>\<open>u8::from_str_radix\<close> on two bytes takes a plus sign in front.\<close>

definition u8_of_radix16 :: "char \<Rightarrow> char \<Rightarrow> char option" where
  "u8_of_radix16 a b =
     (if a = CHR ''+'' then map_option char_of (hex_char_val b)
      else (case (hex_char_val a, hex_char_val b) of (Some x, Some y) \<Rightarrow> Some (char_of (16 * x + y)) | _ \<Rightarrow> None))"

fun pct_decode :: "string \<Rightarrow> string option" where
  "pct_decode [] = Some []"
| "pct_decode (c # s) =
     (if c = CHR ''%'' then
        (case s of
           a # b # r \<Rightarrow> (case u8_of_radix16 a b of Some v \<Rightarrow> map_option ((#) v) (pct_decode r) | None \<Rightarrow> None)
         | _ \<Rightarrow> None)
      else map_option ((#) (if c = CHR ''+'' then CHR '' '' else c)) (pct_decode s))"

definition unreserved :: "char \<Rightarrow> bool" where
  "unreserved c \<longleftrightarrow> is_ascii_alphanumeric c \<or> c \<in> set ''-_.~''"

definition hex_digit_upper :: "nat \<Rightarrow> char" where
  "hex_digit_upper d = to_ascii_upper_char (hex_digit d)"

definition aws_encode_char :: "char \<Rightarrow> string" where
  "aws_encode_char c = (if unreserved c then [c]
     else [CHR ''%'', hex_digit_upper (of_char c div 16), hex_digit_upper (of_char c mod 16)])"

definition aws_encode :: "string \<Rightarrow> string" where
  "aws_encode b = concat (map aws_encode_char b)"

definition encode_segment :: "string \<Rightarrow> string" where
  "encode_segment segment = aws_encode segment"

section \<open>Canonical requests\<close>

fun decode_pairs :: "string list \<Rightarrow> auth_error + (string \<times> string) list" where
  "decode_pairs [] = Inr []"
| "decode_pairs (kv # rest) =
     (let (k, v) = (case split_once (CHR ''='') kv of Some kv' \<Rightarrow> kv' | None \<Rightarrow> (kv, []))
      in (case (pct_decode k, pct_decode v) of
            (Some k', Some v') \<Rightarrow> (case decode_pairs rest of Inl e \<Rightarrow> Inl e | Inr ps \<Rightarrow> Inr ((k', v') # ps))
          | _ \<Rightarrow> Inl AMalformed))"

definition query_text :: "(string \<times> string) list \<Rightarrow> string" where
  "query_text pairs = join ''&'' (map (\<lambda>(k, v). aws_encode k @ ''='' @ aws_encode v) pairs)"

definition canonical_query :: "string \<Rightarrow> auth_error + string" where
  "canonical_query raw = (case decode_pairs (filter (\<lambda>s. s \<noteq> []) (split_on (CHR ''&'') raw)) of
     Inl e \<Rightarrow> Inl e
   | Inr pairs \<Rightarrow> Inr (query_text (sort pairs)))"

definition same_name :: "string \<Rightarrow> string \<Rightarrow> bool" where
  "same_name a b \<longleftrightarrow> to_ascii_lowercase a = to_ascii_lowercase b"

definition header_values :: "headers \<Rightarrow> string \<Rightarrow> string list" where
  "header_values headers name = map (\<lambda>(_, v). join '' '' (split_whitespace v)) (filter (\<lambda>(k, _). same_name k name) headers)"

fun canonical_headers :: "headers \<Rightarrow> string list \<Rightarrow> auth_error + string" where
  "canonical_headers headers [] = Inr []"
| "canonical_headers headers (name # names) =
     (if header_values headers name = [] then Inl AMalformed
      else (case canonical_headers headers names of
          Inl e \<Rightarrow> Inl e
        | Inr rest \<Rightarrow> Inr (name @ '':'' @ join '','' (header_values headers name) @ [CHR 0x0A] @ rest)))"

definition canonical_request ::
    "string \<Rightarrow> string \<Rightarrow> string \<Rightarrow> headers \<Rightarrow> string list \<Rightarrow> string \<Rightarrow> auth_error + string" where
  "canonical_request method raw_path raw_query headers signed_names payload_hash =
     (case canonical_headers headers (remdups_adj (sort signed_names)) of
        Inl e \<Rightarrow> Inl e
      | Inr canon_headers \<Rightarrow>
          (case canonical_query raw_query of
             Inl e \<Rightarrow> Inl e
           | Inr query \<Rightarrow> Inr (method @ [CHR 0x0A] @ (if raw_path = [] then ''/'' else raw_path) @ [CHR 0x0A] @ query @ [CHR 0x0A]
               @ canon_headers @ [CHR 0x0A] @ join '';'' signed_names @ [CHR 0x0A] @ payload_hash)))"

text \<open>The key and the string that is signed with it.\<close>

definition signature_for :: "digests \<Rightarrow> string \<Rightarrow> string \<Rightarrow> string \<Rightarrow> string \<Rightarrow> string \<Rightarrow> string \<times> string" where
  "signature_for D secret amz_date date region canonical =
     (let k = hmac_of D (''AWS4'' @ secret) date;
          k = hmac_of D k region;
          k = hmac_of D k ''s3'';
          key = hmac_of D k ''aws4_request''
      in (key, ALGORITHM @ [CHR 0x0A] @ amz_date @ [CHR 0x0A] @ date @ ''/'' @ region @ ''/s3/aws4_request'' @ [CHR 0x0A]
          @ hex_encode (sha256_of D canonical)))"

section \<open>Times\<close>

definition num :: "string \<Rightarrow> nat option" where
  "num s = (if s = [] \<or> \<not> list_all is_ascii_digit s then None else parse_unsigned u64_max s)"

definition to_unix :: "nat \<Rightarrow> nat \<Rightarrow> nat \<Rightarrow> nat \<Rightarrow> nat \<Rightarrow> nat \<Rightarrow> nat option" where
  "to_unix y mo d h mi s =
     (if \<not> (1970 \<le> y \<and> y \<le> 9999) \<or> \<not> (1 \<le> mo \<and> mo \<le> 12) \<or> \<not> (1 \<le> d \<and> d \<le> 31) then None
      else if 23 < h \<or> 59 < mi \<or> 60 < s then None
      else let (y, m) = (if mo \<le> 2 then (y - 1, mo + 9) else (y, mo - 3));
               era = y div 400;
               yoe = y - era * 400;
               doy = (153 * m + 2) div 5 + d - 1;
               doe = yoe * 365 + yoe div 4 - yoe div 100 + doy;
               days = era * 146097 + doe - 719468
           in Some (days * 86400 + h * 3600 + mi * 60 + s))"

definition slice :: "nat \<Rightarrow> nat \<Rightarrow> string \<Rightarrow> string" where
  "slice a b s = take (b - a) (drop a s)"

definition parse_iso_basic :: "string \<Rightarrow> nat option" where
  "parse_iso_basic v =
     (if length v \<noteq> 16 \<or> \<not> list_all (\<lambda>c. of_char c < (128 :: nat)) v \<or> v ! 8 \<noteq> CHR ''T'' \<or> v ! 15 \<noteq> CHR ''Z'' then None
      else (case (num (slice 0 4 v), num (slice 4 6 v), num (slice 6 8 v), num (slice 9 11 v), num (slice 11 13 v), num (slice 13 15 v)) of
          (Some y, Some mo, Some d, Some h, Some mi, Some s) \<Rightarrow> to_unix y mo d h mi s
        | _ \<Rightarrow> None))"

definition MONTHS :: "string list" where
  "MONTHS = [''Jan'', ''Feb'', ''Mar'', ''Apr'', ''May'', ''Jun'', ''Jul'', ''Aug'', ''Sep'', ''Oct'', ''Nov'', ''Dec'']"

definition month_number :: "string \<Rightarrow> nat option" where
  "month_number mon = (if list_ex (\<lambda>m. same_name m mon) MONTHS
     then Some (length (takeWhile (\<lambda>m. \<not> same_name m mon) MONTHS) + 1) else None)"

definition parse_rfc1123 :: "string \<Rightarrow> nat option" where
  "parse_rfc1123 v =
     (if \<not> list_all (\<lambda>c. of_char c < (128 :: nat)) v then None
      else (case split_whitespace v of
          [_, day, mon, year, hms, zone] \<Rightarrow>
            if zone \<noteq> ''GMT'' then None
            else (case (num day, num year, month_number mon, split_on (CHR '':'') hms) of
                (Some d, Some y, Some mo, [hs, mis, ss]) \<Rightarrow>
                  (case (num hs, num mis, num ss) of (Some h, Some mi, Some s) \<Rightarrow> to_unix y mo d h mi s | _ \<Rightarrow> None)
              | _ \<Rightarrow> None)
        | _ \<Rightarrow> None))"

definition format_iso_basic :: "nat \<Rightarrow> string" where
  "format_iso_basic secs =
     (let days = secs div 86400;
          rem = secs mod 86400;
          z = int days + 719468;
          era = z div 146097;
          doe = z mod 146097;
          yoe = (doe - doe div 1460 + doe div 36524 - doe div 146096) div 365;
          doy = doe - (365 * yoe + yoe div 4 - yoe div 100);
          mp = (5 * doy + 2) div 153;
          d = doy - (153 * mp + 2) div 5 + 1;
          m = (if mp < 10 then mp + 3 else mp - 9);
          y = yoe + era * 400 + (if m \<le> 2 then 1 else 0)
      in pad_int 4 y @ pad_int 2 m @ pad_int 2 d @ ''T'' @ pad_nat 2 (rem div 3600) @ pad_nat 2 (rem mod 3600 div 60)
         @ pad_nat 2 (rem mod 60) @ ''Z'')"

definition header_of :: "headers \<Rightarrow> string \<Rightarrow> string option" where
  "header_of headers name = map_option snd (find (\<lambda>(k, _). same_name k name) headers)"

definition request_time :: "headers \<Rightarrow> auth_error + (string \<times> nat)" where
  "request_time headers = (case header_of headers ''x-amz-date'' of
     Some v \<Rightarrow> (case parse_iso_basic (trim v) of Some secs \<Rightarrow> Inr (trim v, secs) | None \<Rightarrow> Inl AMalformed)
   | None \<Rightarrow> (case header_of headers ''date'' of
       None \<Rightarrow> Inl AMalformed
     | Some v \<Rightarrow> (case parse_rfc1123 (trim v) of Some secs \<Rightarrow> Inr (format_iso_basic secs, secs) | None \<Rightarrow> Inl AMalformed)))"

section \<open>Verification\<close>

text \<open>The fields of the header; the last one of a name counts.\<close>

definition auth_field :: "string option \<times> string option \<times> string option \<Rightarrow> string \<Rightarrow> string option \<times> string option \<times> string option" where
  "auth_field = (\<lambda>(cred, signed_names, sig) part0. let part = trim part0 in
     (case strip_prefix ''Credential='' part of
        Some v \<Rightarrow> (Some v, signed_names, sig)
      | None \<Rightarrow> (case strip_prefix ''SignedHeaders='' part of
          Some v \<Rightarrow> (cred, Some v, sig)
        | None \<Rightarrow> (case strip_prefix ''Signature='' part of
            Some v \<Rightarrow> (cred, signed_names, Some v)
          | None \<Rightarrow> (cred, signed_names, sig)))))"

definition parse_authorization :: "string \<Rightarrow> auth_error + parsed_auth" where
  "parse_authorization auth = (case strip_prefix ALGORITHM (trim auth) of
     None \<Rightarrow> Inl AMalformed
   | Some rest \<Rightarrow>
       if \<not> (starts_with '' '' rest \<or> starts_with [CHR 0x09] rest) then Inl AMalformed
       else (case foldl auth_field (None, None, None) (split_on (CHR '','') rest) of
           (Some cred, Some signed_names, Some sig) \<Rightarrow>
             (case split_on (CHR ''/'') cred of
                [key, date, region, service, kind] \<Rightarrow>
                  if region = [] \<or> length date \<noteq> 8 then Inl AMalformed
                  else if \<not> list_all is_ascii_digit date then Inl AMalformed
                  else if service \<noteq> ''s3'' \<or> kind \<noteq> ''aws4_request'' then Inl AMalformed
                  else let names = map (\<lambda>h. to_ascii_lowercase (trim h)) (split_on (CHR '';'') signed_names)
                       in if list_ex (\<lambda>h. h = []) names then Inl AMalformed
                          else (case hex_decode sig of
                              None \<Rightarrow> Inl AMalformed
                            | Some signature \<Rightarrow> Inr \<lparr>pa_access_key = key, pa_date = date, pa_region = region,
                                pa_signed = names, pa_signature = signature\<rparr>)
              | _ \<Rightarrow> Inl AMalformed)
         | _ \<Rightarrow> Inl AMalformed))"

text \<open>\<^verbatim>\<open>ct_eq\<close>: the differences of all bytes are gathered before the answer.\<close>

definition sig_ct_eq :: "string \<Rightarrow> string \<Rightarrow> bool" where
  "sig_ct_eq a b = (foldl (\<lambda>diff (x, y). diff \<or> x \<noteq> y) (length a \<noteq> length b) (zip a b) = False)"

definition abs_diff :: "nat \<Rightarrow> nat \<Rightarrow> nat" where
  "abs_diff a b = (if a < b then b - a else a - b)"

definition verify :: "digests \<Rightarrow> sig_credentials \<Rightarrow> string \<Rightarrow> string \<Rightarrow> string \<Rightarrow> headers \<Rightarrow> nat \<Rightarrow> auth_error + unit" where
  "verify D creds method raw_path raw_query headers now = (case header_of headers ''authorization'' of
     None \<Rightarrow> Inl AMissing
   | Some auth \<Rightarrow> (case parse_authorization auth of
       Inl e \<Rightarrow> Inl e
     | Inr p \<Rightarrow>
         let key_known = sig_ct_eq (pa_access_key p) (sg_access_key creds) in
         (case request_time headers of
            Inl e \<Rightarrow> Inl e
          | Inr (amz_date, request_secs) \<Rightarrow>
              if take 8 amz_date \<noteq> pa_date p then Inl AMalformed
              else if MAX_SKEW_SECS < abs_diff now request_secs then Inl AExpired
              else if \<not> (''host'' \<in> set (pa_signed p)) \<or> \<not> (''x-amz-date'' \<in> set (pa_signed p) \<or> ''date'' \<in> set (pa_signed p))
              then Inl AMalformed
              else (case header_of headers ''x-amz-content-sha256'' of
                  None \<Rightarrow> Inl AMalformed
                | Some payload_hash \<Rightarrow>
                    (case canonical_request method raw_path raw_query headers (pa_signed p) (trim payload_hash) of
                       Inl e \<Rightarrow> Inl e
                     | Inr canonical \<Rightarrow>
                         let (key, string_to_sign) = signature_for D (sg_secret_key creds) amz_date (pa_date p) (pa_region p) canonical;
                             signed_ok = (hmac_of D key string_to_sign = pa_signature p)
                         in if \<not> key_known then Inl AUnknownKey
                            else if signed_ok then Inr () else Inl ABadSignature)))))"

definition access_key_id :: "headers \<Rightarrow> auth_error + string" where
  "access_key_id headers = (case header_of headers ''authorization'' of
     None \<Rightarrow> Inl AMissing
   | Some auth \<Rightarrow> (case parse_authorization auth of Inl e \<Rightarrow> Inl e | Inr p \<Rightarrow> Inr (pa_access_key p)))"

section \<open>Presigned URLs\<close>

text \<open>\<open>None\<close> is the panic of the \<^verbatim>\<open>expect\<close>.\<close>

definition presign_with_query :: "digests \<Rightarrow> sig_credentials \<Rightarrow> string \<Rightarrow> string \<Rightarrow> string \<Rightarrow> string \<Rightarrow> nat \<Rightarrow> nat \<Rightarrow> headers
    \<Rightarrow> (string \<times> string) list \<Rightarrow> string option" where
  "presign_with_query D creds method host raw_path region now expires headers extra_query =
     (let amz_date = format_iso_basic now;
          date = take 8 amz_date;
          credential = aws_encode (sg_access_key creds @ ''/'' @ date @ ''/'' @ region @ ''/s3/aws4_request'');
          every = (''host'', host) # map (\<lambda>(k, v). (to_ascii_lowercase k, v)) headers;
          signed_names = remdups_adj (sort (map fst every));
          query = ''X-Amz-Algorithm='' @ ALGORITHM @ ''&X-Amz-Credential='' @ credential @ ''&X-Amz-Date='' @ amz_date
            @ ''&X-Amz-Expires='' @ show_nat expires @ ''&X-Amz-SignedHeaders='' @ aws_encode (join '';'' signed_names)
            @ concat (map (\<lambda>(k, v). ''&'' @ aws_encode k @ ''='' @ aws_encode v) extra_query)
      in (case canonical_request method raw_path query every signed_names ''UNSIGNED-PAYLOAD'' of
            Inl _ \<Rightarrow> None
          | Inr canonical \<Rightarrow>
              let (key, string_to_sign) = signature_for D (sg_secret_key creds) amz_date date region canonical
              in Some ((if raw_path = [] then ''/'' else raw_path) @ ''?'' @ query @ ''&X-Amz-Signature=''
                  @ hex_encode (hmac_of D key string_to_sign))))"

definition presign :: "digests \<Rightarrow> sig_credentials \<Rightarrow> string \<Rightarrow> string \<Rightarrow> string \<Rightarrow> string \<Rightarrow> nat \<Rightarrow> nat \<Rightarrow> headers \<Rightarrow> string option" where
  "presign D creds method host raw_path region now expires headers =
     presign_with_query D creds method host raw_path region now expires headers []"

section \<open>Encodings invert\<close>

lemma of_char_hex_upper: "n < 16 \<Longrightarrow> of_char (hex_digit_upper n) = (if n < 10 then 48 + n else 55 + n)"
  by (auto simp: hex_digit_upper_def hex_digit_def digit_char_def to_ascii_upper_char_def is_ascii_lower_def)

lemma hex_char_val_upper: "n < 16 \<Longrightarrow> hex_char_val (hex_digit_upper n) = Some n"
  by (simp add: hex_char_val_def is_ascii_digit_def of_char_hex_upper)

lemma hex_digit_upper_plus: "n < 16 \<Longrightarrow> hex_digit_upper n \<noteq> CHR ''+''"
  using hex_char_val_upper [of n] by (auto simp: hex_char_val_def is_ascii_digit_def)

lemma nibble: "of_char c div 16 < (16 :: nat)"
proof -
  have "of_char c < (256 :: nat)" by simp
  then show ?thesis by (simp add: div_less_iff_less_mult)
qed

lemma u8_of_radix16_char: "u8_of_radix16 (hex_digit_upper (of_char c div 16)) (hex_digit_upper (of_char c mod 16)) = Some c"
  using nibble [of c] by (simp add: u8_of_radix16_def hex_char_val_upper hex_digit_upper_plus)

lemma unreserved_plain: "unreserved c \<Longrightarrow> c \<noteq> CHR ''%'' \<and> c \<noteq> CHR ''+''"
  by (auto simp: unreserved_def is_ascii_alphanumeric_def is_ascii_alphabetic_def is_ascii_lower_def is_ascii_upper_def is_ascii_digit_def)

lemma pct_decode_encode [simp]: "pct_decode (aws_encode b) = Some b"
proof (induction b)
  case (Cons c b)
  then show ?case
    using unreserved_plain [of c] by (auto simp: aws_encode_def aws_encode_char_def u8_of_radix16_char)
qed (simp add: aws_encode_def)

lemma unreserved_hex_upper: "n < 16 \<Longrightarrow> unreserved (hex_digit_upper n)"
  by (simp add: unreserved_def is_ascii_alphanumeric_def is_ascii_alphabetic_def is_ascii_upper_def is_ascii_digit_def of_char_hex_upper)

lemma aws_encode_chars: "c \<in> set (aws_encode b) \<Longrightarrow> unreserved c \<or> c = CHR ''%''"
  by (auto simp: aws_encode_def aws_encode_char_def unreserved_hex_upper nibble split: if_splits)

lemma aws_encode_safe [simp]:
  "CHR ''&'' \<notin> set (aws_encode b)" "CHR ''='' \<notin> set (aws_encode b)" "CHR 0x0A \<notin> set (aws_encode b)"
  using aws_encode_chars [of "CHR ''&''" b] aws_encode_chars [of "CHR ''=''" b] aws_encode_chars [of "CHR 0x0A" b]
  by (auto simp: unreserved_def is_ascii_alphanumeric_def is_ascii_alphabetic_def is_ascii_lower_def is_ascii_upper_def is_ascii_digit_def)

lemma aws_encode_unreserved: "list_all unreserved s \<Longrightarrow> aws_encode s = s"
  by (induction s) (auto simp: aws_encode_def aws_encode_char_def)

section \<open>The canonical query\<close>

lemma split_on_join:
  "ls \<noteq> [] \<Longrightarrow> list_all (\<lambda>l. x \<notin> set l) ls \<Longrightarrow> split_on x (join [x] ls) = ls"
  by (induction "[x]" ls rule: join.induct) auto

definition query_piece :: "string \<times> string \<Rightarrow> string" where
  "query_piece = (\<lambda>(k, v). aws_encode k @ ''='' @ aws_encode v)"

lemma query_piece_facts: "CHR ''&'' \<notin> set (query_piece kv)" "query_piece kv \<noteq> []"
  by (simp_all add: query_piece_def case_prod_beta)

lemma query_pieces: "filter (\<lambda>s. s \<noteq> []) (split_on (CHR ''&'') (query_text pairs)) = map query_piece pairs"
proof (cases "pairs = []")
  case False
  have "query_text pairs = join [CHR ''&''] (map query_piece pairs)"
    by (simp add: query_text_def query_piece_def)
  moreover have "split_on (CHR ''&'') (join [CHR ''&''] (map query_piece pairs)) = map query_piece pairs"
    by (rule split_on_join) (simp_all add: False list_all_iff query_piece_facts)
  ultimately show ?thesis by (simp add: filter_id_conv query_piece_facts)
qed (simp add: query_text_def)

lemma decode_query_pieces: "decode_pairs (map query_piece pairs) = Inr pairs"
  by (induction pairs) (auto simp: query_piece_def)

text \<open>The canonical form of a query is canonical, and depends only on which parameters there are.\<close>

lemma canonical_query_text: "canonical_query (query_text pairs) = Inr (query_text (sort pairs))"
  by (simp add: canonical_query_def query_pieces decode_query_pieces)

lemma canonical_query_shape:
  assumes "canonical_query raw = Inr c"
  obtains pairs where "c = query_text (sort pairs)"
  using assms by (auto simp: canonical_query_def split: sum.splits)

lemma canonical_query_idem: "canonical_query raw = Inr c \<Longrightarrow> canonical_query c = Inr c"
  by (elim canonical_query_shape) (simp add: canonical_query_text sorted_sort_id)

lemma canonical_query_perm: "mset ps = mset ps' \<Longrightarrow> canonical_query (query_text ps) = canonical_query (query_text ps')"
  using properties_for_sort [of "sort ps" ps'] by (simp add: canonical_query_text)

lemma in_join: "c \<in> set (join sep ls) \<Longrightarrow> c \<in> set sep \<or> (\<exists>l \<in> set ls. c \<in> set l)"
  by (induction sep ls rule: join.induct) auto

lemma canonical_query_line: "canonical_query raw = Inr c \<Longrightarrow> CHR 0x0A \<notin> set c"
  by (elim canonical_query_shape) (auto simp: query_text_def dest!: in_join)

section \<open>Timestamps\<close>

text \<open>The date of a day of the era, as both civil-date computations have it.\<close>

definition era_date :: "int \<Rightarrow> int \<Rightarrow> int \<times> int \<times> int" where
  "era_date era doe =
     (let yoe = (doe - doe div 1460 + doe div 36524 - doe div 146096) div 365;
          doy = doe - (365 * yoe + yoe div 4 - yoe div 100);
          mp = (5 * doy + 2) div 153;
          m = (if mp < 10 then mp + 3 else mp - 9)
      in (yoe + era * 400 + (if m \<le> 2 then 1 else 0), m, doy - (153 * mp + 2) div 5 + 1))"

lemma civil_era_date:
  assumes "0 \<le> z"
  shows "civil_from_days z = era_date ((z + 719468) div 146097) ((z + 719468) mod 146097)"
proof -
  have nonneg: "(0 \<le> z + 719468) = True" using assms by simp
  have division: "(z + 719468) sdiv 146097 = (z + 719468) div 146097" using assms by (simp add: sdiv_nonneg)
  have next_year: "(if P then x + 1 else x) = x + (if P then 1 else (0 :: int))" for P x by simp
  show ?thesis
    unfolding civil_from_days_def era_date_def Let_def nonneg if_True division minus_div_mult_eq_mod next_year by (rule refl)
qed

lemma iso_civil:
  "format_iso_basic secs = (case civil_from_days (int (secs div 86400)) of (y, m, d) \<Rightarrow>
     pad_int 4 y @ pad_int 2 m @ pad_int 2 d @ ''T'' @ pad_nat 2 (secs mod 86400 div 3600)
       @ pad_nat 2 (secs mod 86400 mod 3600 div 60) @ pad_nat 2 (secs mod 86400 mod 60) @ ''Z'')"
  unfolding civil_era_date [OF of_nat_0_le_iff] format_iso_basic_def era_date_def Let_def prod.case by (rule refl)

lemma civil_years:
  assumes "0 \<le> z" "z < 2932897" "civil_from_days z = (y, m, d)"
  shows "1970 \<le> y" "y \<le> 9999"
proof -
  obtain era yoe doy mp where
    z: "z + 719468 = era * 146097 + (365 * yoe + yoe div 4 - yoe div 100) + doy"
    and b: "0 \<le> era" "0 \<le> yoe" "yoe \<le> 399" "0 \<le> mp" "mp \<le> 11"
    and m: "m = (if mp < 10 then mp + 3 else mp - 9)"
    and d: "d = doy - (153 * mp + 2) div 5 + 1" "1 \<le> d" "d \<le> 31"
    and y: "(if m \<le> 2 then y - 1 else y) = yoe + era * 400"
    using civil_decompose [OF assms(1,3)] by blast
  have q: "4 * (yoe div 4) \<le> yoe" "yoe \<le> 4 * (yoe div 4) + 3" "100 * (yoe div 100) \<le> yoe" "yoe \<le> 100 * (yoe div 100) + 99"
    by linarith+
  consider (early) "mp < 10" "0 \<le> doy" "doy \<le> 305" "y = yoe + era * 400"
    | (late) "306 \<le> doy" "doy \<le> 367" "y = yoe + era * 400 + 1"
  proof (cases "mp < 10")
    case True
    then have "0 \<le> doy" "doy \<le> 305" using b(4) d by linarith+
    moreover have "y = yoe + era * 400" using y m True b(4) by simp
    ultimately show ?thesis using early True by blast
  next
    case False
    then have "306 \<le> doy" "doy \<le> 367" using b(5) d by linarith+
    moreover have "y = yoe + era * 400 + 1" using y m False b(5) by simp
    ultimately show ?thesis using late by blast
  qed
  then have "1970 \<le> y \<and> y \<le> 9999"
  proof cases
    case early
    have "\<not> y < 1970"
    proof
      assume "y < 1970"
      then consider "era \<le> 3" | "era = 4" using early(4) b(2) by linarith
      then show False by cases (use early z q assms(1) b \<open>y < 1970\<close> in linarith)+
    qed
    moreover have "era \<le> 24" using z q early assms(2) b by linarith
    ultimately show ?thesis using early(4) b by linarith
  next
    case late
    have "\<not> y < 1970"
    proof
      assume "y < 1970"
      then consider "era \<le> 3" | "era = 4" using late(3) b(2) by linarith
      then show False by cases (use late z q assms(1) b \<open>y < 1970\<close> in linarith)+
    qed
    moreover have "era \<le> 24" using z q late assms(2) b by linarith
    moreover have "\<not> (era = 24 \<and> yoe = 399)" using z q late(1) assms(2) by linarith
    ultimately show ?thesis using late(3) b by linarith
  qed
  then show "1970 \<le> y" "y \<le> 9999" by simp_all
qed

lemma length_show_nat: "n < 10 ^ Suc k \<Longrightarrow> length (show_nat n) \<le> Suc k"
proof (induction k arbitrary: n)
  case (Suc k)
  show ?case
  proof (cases "n < 10")
    case False
    have "n div 10 < 10 ^ Suc k" using Suc.prems by (simp add: div_less_iff_less_mult mult.commute)
    then show ?thesis using Suc.IH [of "n div 10"] False by (simp add: show_nat.simps [of n])
  qed (simp add: show_nat.simps [of n])
qed (simp add: show_nat.simps)

lemma length_pad: "0 < k \<Longrightarrow> n < 10 ^ k \<Longrightarrow> length (pad_nat k n) = k"
  using length_show_nat [of n "k - 1"] by (cases k) (simp_all add: pad_nat_def)

lemma num_pad: "n < 10000 \<Longrightarrow> num (pad_nat w n) = Some n"
  using digits_pad_nat [of w n] parse_unsigned_pad_nat [of n u64_max w] by (simp add: num_def)

lemma parse_iso_parts:
  assumes "y < 10000" "mo < 100" "d < 100" "h < 100" "mi < 100" "s < 100"
  shows "parse_iso_basic (pad_nat 4 y @ pad_nat 2 mo @ pad_nat 2 d @ ''T'' @ pad_nat 2 h @ pad_nat 2 mi @ pad_nat 2 s @ ''Z'')
    = to_unix y mo d h mi s" (is "parse_iso_basic ?v = _")
proof -
  have len: "length (pad_nat 4 y) = 4" "length (pad_nat 2 mo) = 2" "length (pad_nat 2 d) = 2" "length (pad_nat 2 h) = 2"
    "length (pad_nat 2 mi) = 2" "length (pad_nat 2 s) = 2"
    using assms by (simp_all add: length_pad)
  have slices: "slice 0 4 ?v = pad_nat 4 y" "slice 4 6 ?v = pad_nat 2 mo" "slice 6 8 ?v = pad_nat 2 d"
    "slice 9 11 ?v = pad_nat 2 h" "slice 11 13 ?v = pad_nat 2 mi" "slice 13 15 ?v = pad_nat 2 s" "?v ! 8 = CHR ''T''" "?v ! 15 = CHR ''Z''"
    by (simp_all add: slice_def len nth_append)
  have "list_all (\<lambda>c. of_char c < (128 :: nat)) (pad_nat w n)" for w n
    using digits_pad_nat [of w n] by (auto simp: list_all_iff is_ascii_digit_def)
  then have "list_all (\<lambda>c. of_char c < (128 :: nat)) ?v" "length ?v = 16"
    by (simp_all add: len)
  then show ?thesis
    unfolding parse_iso_basic_def slices using assms by (simp add: num_pad)
qed

lemma time_of_day:
  assumes "r < (86400 :: nat)"
  shows "r div 3600 \<le> 23" "r mod 3600 div 60 \<le> 59" "r mod 60 \<le> 59" "r = r div 3600 * 3600 + r mod 3600 div 60 * 60 + r mod 60"
proof -
  have "r mod 3600 mod 60 = r mod 60" by (simp add: mod_mod_cancel)
  then show "r = r div 3600 * 3600 + r mod 3600 div 60 * 60 + r mod 60"
    using div_mult_mod_eq [of r 3600] div_mult_mod_eq [of "r mod 3600" 60] by linarith
  have "r div 3600 < 24" "r mod 3600 div 60 < 60" "r mod 60 < 60" using assms by (simp_all add: div_less_iff_less_mult)
  then show "r div 3600 \<le> 23" "r mod 3600 div 60 \<le> 59" "r mod 60 \<le> 59" by linarith+
qed

lemma to_unix_civil:
  assumes "civil_from_days (int days) = (y, m, d)" "days < 2932897" "h \<le> 23" "mi \<le> 59" "s \<le> 59"
  shows "to_unix (nat y) (nat m) (nat d) h mi s = Some (days * 86400 + h * 3600 + mi * 60 + s)"
proof -
  obtain era yoe doy mp where
    z: "int days + 719468 = era * 146097 + (365 * yoe + yoe div 4 - yoe div 100) + doy"
    and b: "0 \<le> era" "0 \<le> yoe" "yoe \<le> 399" "0 \<le> mp" "mp \<le> 11"
    and m: "m = (if mp < 10 then mp + 3 else mp - 9)"
    and d: "d = doy - (153 * mp + 2) div 5 + 1" "1 \<le> d" "d \<le> 31"
    and y: "(if m \<le> 2 then y - 1 else y) = yoe + era * 400"
    using civil_decompose [OF of_nat_0_le_iff assms(1)] by blast
  have yr: "1970 \<le> y" "y \<le> 9999" "1 \<le> m" "m \<le> 12" using civil_years [OF _ _ assms(1)] civil_from_days_range [OF _ assms(1)] assms(2) by auto
  obtain E Y P D where nat: "era = int E" "yoe = int Y" "mp = int P" "d = int D"
    using b d(2) by (metis nonneg_int_cases order_trans zero_le_one)
  have bounds: "Y \<le> 399" "P \<le> 11" "1 \<le> D" "D \<le> 31" using b d nat by auto
  have ym: "(if nat m \<le> 2 then (nat y - 1, nat m + 9) else (nat y, nat m - 3)) = (Y + E * 400, P)"
    using m y nat yr bounds by (auto split: if_splits)
  have nm: "1 \<le> nat m" "nat m \<le> 12" "1970 \<le> nat y" "nat y \<le> 9999" using yr by linarith+
  have era: "(Y + E * 400) div 400 = E" "Y + E * 400 - E * 400 = Y" using bounds by simp_all
  have eq: "E * 146097 + (Y * 365 + Y div 4 - Y div 100 + ((153 * P + 2) div 5 + D - 1)) - 719468 = days"
  proof -
    have "Y div 100 \<le> Y * 365 + Y div 4" by (rule order_trans [OF div_le_dividend]) simp
    moreover have "doy = int ((153 * P + 2) div 5 + D - 1)" using d(1) nat bounds by (simp add: of_nat_diff zdiv_int)
    ultimately have "int days + 719468 = int (E * 146097 + (Y * 365 + Y div 4 - Y div 100 + ((153 * P + 2) div 5 + D - 1)))"
      using z nat by (simp add: of_nat_diff zdiv_int mult.commute)
    then show ?thesis by linarith
  qed
  have D: "nat d = D" using nat(4) by simp
  show ?thesis
    unfolding to_unix_def ym Let_def prod.case era D eq using nm bounds(3,4) assms(3-5) by simp
qed

text \<open>A time up to the year 9999 is read back from the timestamp it is written as.\<close>

lemma iso_roundtrip:
  assumes "secs < 253402300800"
  shows "parse_iso_basic (format_iso_basic secs) = Some secs"
proof -
  obtain y m d where c: "civil_from_days (int (secs div 86400)) = (y, m, d)" by (metis prod_cases3)
  have days: "secs div 86400 < 2932897" using assms by (simp add: div_less_iff_less_mult)
  let ?r = "secs mod 86400"
  have t: "?r div 3600 \<le> 23" "?r mod 3600 div 60 \<le> 59" "?r mod 60 \<le> 59"
    and r: "?r = ?r div 3600 * 3600 + ?r mod 3600 div 60 * 60 + ?r mod 60"
    using time_of_day [of ?r] by simp_all
  have range: "1970 \<le> y" "y \<le> 9999" "1 \<le> m" "m \<le> 12" "1 \<le> d" "d \<le> 31"
    using civil_years [OF _ _ c] civil_from_days_range [OF _ c] days by auto
  have "format_iso_basic secs = pad_nat 4 (nat y) @ pad_nat 2 (nat m) @ pad_nat 2 (nat d) @ ''T'' @ pad_nat 2 (?r div 3600)
      @ pad_nat 2 (?r mod 3600 div 60) @ pad_nat 2 (?r mod 60) @ ''Z''"
    unfolding iso_civil c prod.case using range by (simp add: pad_int_def)
  moreover have "parse_iso_basic (pad_nat 4 (nat y) @ pad_nat 2 (nat m) @ pad_nat 2 (nat d) @ ''T'' @ pad_nat 2 (?r div 3600)
      @ pad_nat 2 (?r mod 3600 div 60) @ pad_nat 2 (?r mod 60) @ ''Z'') =
    to_unix (nat y) (nat m) (nat d) (?r div 3600) (?r mod 3600 div 60) (?r mod 60)"
    by (rule parse_iso_parts) (use range t in linarith)+
  moreover have "secs div 86400 * 86400 + ?r div 3600 * 3600 + ?r mod 3600 div 60 * 60 + ?r mod 60 = secs"
    using r div_mult_mod_eq [of secs 86400] by linarith
  ultimately show ?thesis using to_unix_civil [OF c days t] by (simp only:)
qed

section \<open>Presigning does not fail\<close>

lemma join_Cons: "join sep (x # xs) = x @ concat (map (\<lambda>y. sep @ y) xs)"
  by (induction sep "x # xs" arbitrary: x xs rule: join.induct) auto

lemma header_values_present: "n \<in> fst ` set hs \<Longrightarrow> header_values hs n \<noteq> []"
  by (auto simp: header_values_def filter_empty_conv same_name_def)

lemma canonical_headers_present:
  "\<forall>n \<in> set names. header_values headers n \<noteq> [] \<Longrightarrow> \<exists>c. canonical_headers headers names = Inr c"
  by (induction names) auto

lemma unreserved_digit: "is_ascii_digit c \<Longrightarrow> unreserved c"
  by (simp add: unreserved_def is_ascii_alphanumeric_def)

lemma unreserved_pad: "list_all unreserved (pad_nat w n)" "list_all unreserved (pad_int w x)" "list_all unreserved (show_nat n)"
  using digits_pad_nat digits_show_nat [of n] unreserved_digit
  by (auto simp: list_all_iff pad_int_def) (simp_all add: unreserved_def)

lemma unreserved_iso: "list_all unreserved (format_iso_basic secs)"
  unfolding format_iso_basic_def Let_def
  by (simp only: list_all_append unreserved_pad) (simp add: unreserved_def is_ascii_alphanumeric_def is_ascii_alphabetic_def is_ascii_upper_def)

lemma presigned_query:
  "''X-Amz-Algorithm='' @ ALGORITHM @ ''&X-Amz-Credential='' @ aws_encode cred @ ''&X-Amz-Date='' @ format_iso_basic now
     @ ''&X-Amz-Expires='' @ show_nat expires @ ''&X-Amz-SignedHeaders='' @ aws_encode names
     @ concat (map (\<lambda>(k, v). ''&'' @ aws_encode k @ ''='' @ aws_encode v) extra) =
   query_text ([(''X-Amz-Algorithm'', ALGORITHM), (''X-Amz-Credential'', cred), (''X-Amz-Date'', format_iso_basic now),
     (''X-Amz-Expires'', show_nat expires), (''X-Amz-SignedHeaders'', names)] @ extra)"
proof -
  have "aws_encode ''X-Amz-Algorithm'' = ''X-Amz-Algorithm''" "aws_encode ''X-Amz-Credential'' = ''X-Amz-Credential''"
    "aws_encode ''X-Amz-Date'' = ''X-Amz-Date''" "aws_encode ''X-Amz-Expires'' = ''X-Amz-Expires''"
    "aws_encode ''X-Amz-SignedHeaders'' = ''X-Amz-SignedHeaders''" "aws_encode ALGORITHM = ALGORITHM"
    by (rule aws_encode_unreserved, simp add: unreserved_def is_ascii_alphanumeric_def is_ascii_alphabetic_def
        is_ascii_lower_def is_ascii_upper_def is_ascii_digit_def ALGORITHM_def)+
  then show ?thesis
    by (simp add: query_text_def join_Cons aws_encode_unreserved unreserved_iso unreserved_pad case_prod_unfold comp_def)
qed

text \<open>The request a presigned URL is made for always has a canonical form: the \<^verbatim>\<open>expect\<close> does not panic.\<close>

lemma presign_never_panics: "\<exists>url. presign_with_query D creds method host raw_path region now expires headers extra = Some url"
proof -
  let ?every = "(''host'', host) # map (\<lambda>(k, v). (to_ascii_lowercase k, v)) headers"
  let ?names = "remdups_adj (sort (map fst ?every))"
  obtain hs where "canonical_headers ?every (remdups_adj (sort ?names)) = Inr hs"
    using canonical_headers_present [of "remdups_adj (sort ?names)" ?every] header_values_present [of _ ?every]
    unfolding remdups_adj_set set_sort set_map by blast
  then show ?thesis
    unfolding presign_with_query_def Let_def presigned_query
    by (simp add: canonical_request_def canonical_query_text case_prod_beta)
qed

section \<open>A canonical request determines the request\<close>

lemma first_line:
  assumes "CHR 0x0A \<notin> set a" "CHR 0x0A \<notin> set a'" "a @ CHR 0x0A # r = a' @ CHR 0x0A # r'"
  shows "a = a' \<and> r = r'"
proof -
  have "split_once (CHR 0x0A) (a @ CHR 0x0A # r) = split_once (CHR 0x0A) (a' @ CHR 0x0A # r')"
    using assms(3) by simp
  then show ?thesis using assms(1,2) by simp
qed

lemma ws_len_newline [simp]: "ws_len (CHR 0x0A # s) = 1"
  by (simp add: ws_len_def)

lemma split_ws_lines:
  assumes "CHR 0x0A \<notin> set acc" "w \<in> set (split_ws_from acc s)"
  shows "CHR 0x0A \<notin> set w"
  using assms
proof (induction acc s rule: split_ws_from.induct)
  case (1 acc s)
  show ?case
  proof (cases "s = [] \<or> 0 < ws_len s")
    case True
    then show ?thesis
      using 1 by (subst (asm) (4) split_ws_from.simps) (auto split: if_splits)
  next
    case False
    then have "hd s \<noteq> CHR 0x0A" by (cases s) auto
    then show ?thesis
      using 1 False by (subst (asm) (4) split_ws_from.simps) (auto split: if_splits)
  qed
qed

definition signed_value :: "headers \<Rightarrow> string \<Rightarrow> string" where
  "signed_value headers name = join '','' (header_values headers name)"

lemma signed_value_line: "CHR 0x0A \<notin> set (signed_value headers name)"
  by (auto simp: signed_value_def header_values_def split_whitespace_def dest!: in_join split_ws_lines [rotated])

lemma canonical_headers_Cons:
  assumes "canonical_headers h (name # names) = Inr a"
  obtains b where "canonical_headers h names = Inr b" "a = name @ '':'' @ signed_value h name @ [CHR 0x0A] @ b"
  using assms by (cases "canonical_headers h names") (auto simp: signed_value_def split: if_splits)

lemma canonical_headers_determine:
  assumes "canonical_headers h names = Inr a" "canonical_headers h' names = Inr a'" "a @ CHR 0x0A # r = a' @ CHR 0x0A # r'"
  shows "(\<forall>n \<in> set names. signed_value h n = signed_value h' n) \<and> r = r'"
  using assms
proof (induction names arbitrary: a a')
  case (Cons name names)
  obtain b where b: "canonical_headers h names = Inr b" "a = name @ '':'' @ signed_value h name @ [CHR 0x0A] @ b"
    by (rule canonical_headers_Cons [OF Cons.prems(1)])
  obtain b' where b': "canonical_headers h' names = Inr b'" "a' = name @ '':'' @ signed_value h' name @ [CHR 0x0A] @ b'"
    by (rule canonical_headers_Cons [OF Cons.prems(2)])
  have "signed_value h name @ CHR 0x0A # (b @ CHR 0x0A # r) = signed_value h' name @ CHR 0x0A # (b' @ CHR 0x0A # r')"
    using Cons.prems(3) unfolding b(2) b'(2) by simp
  from first_line [OF signed_value_line signed_value_line this] show ?case using Cons.IH [OF b(1) b'(1)] by simp
qed simp

definition path_sent :: "string \<Rightarrow> string" where
  "path_sent raw_path = (if raw_path = [] then ''/'' else raw_path)"

lemma canonical_request_shape:
  assumes "canonical_request m p q h names payload = Inr c"
  obtains hs cq where "canonical_headers h (remdups_adj (sort names)) = Inr hs" "canonical_query q = Inr cq"
    "c = m @ CHR 0x0A # path_sent p @ CHR 0x0A # cq @ CHR 0x0A # hs @ CHR 0x0A # join '';'' names @ CHR 0x0A # payload"
  using assms by (auto simp: canonical_request_def path_sent_def split: sum.splits)

lemma canonical_request_determines:
  assumes "canonical_request m p q h names payload = Inr c" "canonical_request m' p' q' h' names payload' = Inr c"
    and "CHR 0x0A \<notin> set m" "CHR 0x0A \<notin> set m'" "CHR 0x0A \<notin> set p" "CHR 0x0A \<notin> set p'"
  shows "m = m' \<and> path_sent p = path_sent p' \<and> canonical_query q = canonical_query q' \<and>
    (\<forall>n \<in> set names. signed_value h n = signed_value h' n) \<and> payload = payload'"
proof -
  obtain hs cq where 1: "canonical_headers h (remdups_adj (sort names)) = Inr hs" "canonical_query q = Inr cq"
    "c = m @ CHR 0x0A # path_sent p @ CHR 0x0A # cq @ CHR 0x0A # hs @ CHR 0x0A # join '';'' names @ CHR 0x0A # payload"
    by (rule canonical_request_shape [OF assms(1)])
  obtain hs' cq' where 2: "canonical_headers h' (remdups_adj (sort names)) = Inr hs'" "canonical_query q' = Inr cq'"
    "c = m' @ CHR 0x0A # path_sent p' @ CHR 0x0A # cq' @ CHR 0x0A # hs' @ CHR 0x0A # join '';'' names @ CHR 0x0A # payload'"
    by (rule canonical_request_shape [OF assms(2)])
  have paths: "CHR 0x0A \<notin> set (path_sent p)" "CHR 0x0A \<notin> set (path_sent p')"
    using assms(5,6) by (simp_all add: path_sent_def)
  have a: "m = m' \<and> path_sent p @ CHR 0x0A # cq @ CHR 0x0A # hs @ CHR 0x0A # join '';'' names @ CHR 0x0A # payload
      = path_sent p' @ CHR 0x0A # cq' @ CHR 0x0A # hs' @ CHR 0x0A # join '';'' names @ CHR 0x0A # payload'"
    by (rule first_line [OF assms(3,4)]) (use 1(3) 2(3) in simp)
  have b: "path_sent p = path_sent p' \<and> cq @ CHR 0x0A # hs @ CHR 0x0A # join '';'' names @ CHR 0x0A # payload
      = cq' @ CHR 0x0A # hs' @ CHR 0x0A # join '';'' names @ CHR 0x0A # payload'"
    by (rule first_line [OF paths]) (use a in blast)
  have d: "cq = cq' \<and> hs @ CHR 0x0A # join '';'' names @ CHR 0x0A # payload = hs' @ CHR 0x0A # join '';'' names @ CHR 0x0A # payload'"
    by (rule first_line [OF canonical_query_line [OF 1(2)] canonical_query_line [OF 2(2)]]) (use b in blast)
  then have "(\<forall>n \<in> set (remdups_adj (sort names)). signed_value h n = signed_value h' n) \<and>
      join '';'' names @ CHR 0x0A # payload = join '';'' names @ CHR 0x0A # payload'"
    by (intro canonical_headers_determine [OF 1(1) 2(1)]) blast
  then show ?thesis using a b d 1(2) 2(2) by simp
qed

section \<open>A signature is good for one request\<close>

lemma hex_decode_encode: "hex_decode_pairs (hex_encode b) = Some b"
proof (induction b)
  case (Cons c b)
  then show ?case using nibble [of c] by (simp add: hex_encode_def hex_char_val_digit)
qed (simp add: hex_encode_def)

lemma hex_encode_inj: "hex_encode a = hex_encode b \<Longrightarrow> a = b"
  by (metis hex_decode_encode option.inject)

lemma digits_no_newline: "list_all is_ascii_digit s \<Longrightarrow> CHR 0x0A \<notin> set s"
  by (auto simp: list_all_iff is_ascii_digit_def)

lemma num_no_newline: "num s = Some n \<Longrightarrow> CHR 0x0A \<notin> set s"
  by (auto simp: num_def digits_no_newline split: if_splits)

lemma length_16:
  assumes "length v = 16"
  shows "v = slice 0 4 v @ slice 4 6 v @ slice 6 8 v @ [v ! 8] @ slice 9 11 v @ slice 11 13 v @ slice 13 15 v @ [v ! 15]"
proof (rule nth_equalityI)
  fix i
  assume "i < length v"
  then have "i \<in> set [0..<16]" using assms by simp
  then show "v ! i = (slice 0 4 v @ slice 4 6 v @ slice 6 8 v @ [v ! 8] @ slice 9 11 v @ slice 11 13 v @ slice 13 15 v @ [v ! 15]) ! i"
    using assms by (auto simp: upt_rec slice_def nth_append numeral_eq_Suc)
qed (simp add: slice_def assms)

lemma parse_iso_no_newline:
  assumes "parse_iso_basic v = Some t"
  shows "CHR 0x0A \<notin> set v"
proof -
  have "length v = 16" "v ! 8 = CHR ''T''" "v ! 15 = CHR ''Z''" and
    "CHR 0x0A \<notin> set (slice 0 4 v)" "CHR 0x0A \<notin> set (slice 4 6 v)" "CHR 0x0A \<notin> set (slice 6 8 v)"
    "CHR 0x0A \<notin> set (slice 9 11 v)" "CHR 0x0A \<notin> set (slice 11 13 v)" "CHR 0x0A \<notin> set (slice 13 15 v)"
    using assms by (auto simp: parse_iso_basic_def num_no_newline split: if_splits option.splits)
  then show ?thesis by (subst length_16) auto
qed

lemma pad_no_newline: "CHR 0x0A \<notin> set (pad_nat w n)" "CHR 0x0A \<notin> set (pad_int w x)"
  using digits_pad_nat digits_no_newline by (auto simp: pad_int_def)

lemma format_iso_no_newline: "CHR 0x0A \<notin> set (format_iso_basic secs)"
  unfolding format_iso_basic_def Let_def by (simp only: set_append Un_iff pad_no_newline) simp

lemma request_time_no_newline: "request_time h = Inr (amz, secs) \<Longrightarrow> CHR 0x0A \<notin> set amz"
  by (auto simp: request_time_def parse_iso_no_newline format_iso_no_newline split: option.splits)

lemma sig_ct_eq_loop:
  "length a = length b \<Longrightarrow> \<not> foldl (\<lambda>diff (x, y). diff \<or> x \<noteq> y) d (zip a b) \<longleftrightarrow> \<not> d \<and> a = b"
  by (induction a b arbitrary: d rule: list_induct2) auto

lemma sig_ct_eq_differs: "foldl (\<lambda>diff (x, y). diff \<or> x \<noteq> y) True ps"
  by (induction ps) auto

lemma sig_ct_eq_iff: "sig_ct_eq a b \<longleftrightarrow> a = b"
  using sig_ct_eq_loop [of a b False] sig_ct_eq_differs [of "zip a b"] by (cases "length a = length b") (auto simp: sig_ct_eq_def)

text \<open>What is hashed and signed for a request whose header was parsed.\<close>

definition signing_input :: "digests \<Rightarrow> sig_credentials \<Rightarrow> string \<Rightarrow> string \<Rightarrow> string \<Rightarrow> headers \<Rightarrow> (string \<times> string \<times> string) option" where
  "signing_input D creds m p q h = (case header_of h ''authorization'' of
     None \<Rightarrow> None
   | Some auth \<Rightarrow> (case (parse_authorization auth, request_time h, header_of h ''x-amz-content-sha256'') of
       (Inr a, Inr (amz, _), Some payload) \<Rightarrow> (case canonical_request m p q h (pa_signed a) (trim payload) of
           Inr c \<Rightarrow> Some (c, signature_for D (sg_secret_key creds) amz (pa_date a) (pa_region a) c)
         | Inl _ \<Rightarrow> None)
     | _ \<Rightarrow> None))"

definition no_collision :: "digests \<Rightarrow> (string \<times> string \<times> string) option \<Rightarrow> (string \<times> string \<times> string) option \<Rightarrow> bool" where
  "no_collision D x y = (case (x, y) of
     (Some (c, k, s), Some (c', _, s')) \<Rightarrow> (sha256_of D c = sha256_of D c' \<longrightarrow> c = c') \<and> (hmac_of D k s = hmac_of D k s' \<longrightarrow> s = s')
   | _ \<Rightarrow> True)"

text \<open>An accepted request, read back from the answer.\<close>

lemma verify_accepts:
  assumes "verify D creds m p q h now = Inr ()"
  obtains auth a amz secs payload c where "header_of h ''authorization'' = Some auth" "parse_authorization auth = Inr a"
    "pa_access_key a = sg_access_key creds" "request_time h = Inr (amz, secs)" "take 8 amz = pa_date a"
    "abs_diff now secs \<le> MAX_SKEW_SECS" "''host'' \<in> set (pa_signed a)"
    "header_of h ''x-amz-content-sha256'' = Some payload" "canonical_request m p q h (pa_signed a) (trim payload) = Inr c"
    "pa_signature a = hmac_of D (fst (signature_for D (sg_secret_key creds) amz (pa_date a) (pa_region a) c))
       (snd (signature_for D (sg_secret_key creds) amz (pa_date a) (pa_region a) c))"
  using assms
  by (auto simp: verify_def Let_def sig_ct_eq_iff case_prod_beta split: option.splits sum.splits if_splits)

lemma key_ignores_request: "fst (signature_for D secret amz date region c) = fst (signature_for D secret amz' date region c')"
  by (simp add: signature_for_def Let_def)

lemma string_to_sign_determines:
  assumes "snd (signature_for D secret amz date region c) = snd (signature_for D secret amz' date region c')"
    and "CHR 0x0A \<notin> set amz" "CHR 0x0A \<notin> set amz'"
  shows "amz = amz' \<and> sha256_of D c = sha256_of D c'"
proof -
  let ?rest = "\<lambda>c. date @ ''/'' @ region @ ''/s3/aws4_request'' @ [CHR 0x0A] @ hex_encode (sha256_of D c)"
  have "amz @ CHR 0x0A # ?rest c = amz' @ CHR 0x0A # ?rest c'"
    using assms(1) by (simp add: signature_for_def Let_def)
  from first_line [OF assms(2,3) this] show ?thesis by (auto dest: hex_encode_inj)
qed

text \<open>
  C40. One signature is good for one request. If two requests with the same Authorization header are accepted, and
  the digests do not collide on the two, then they are the same request in everything that is signed: the method,
  the path, the query up to order and encoding, the time, the payload hash and the value of every signed header,
  the host among them. Each was sent within the allowed skew under the access key of the credentials.
\<close>

theorem signature_is_good_for_one_request:
  assumes "verify D creds m1 p1 q1 h1 now1 = Inr ()" "verify D creds m2 p2 q2 h2 now2 = Inr ()"
    and "header_of h1 ''authorization'' = header_of h2 ''authorization''"
    and "no_collision D (signing_input D creds m1 p1 q1 h1) (signing_input D creds m2 p2 q2 h2)"
    and "CHR 0x0A \<notin> set m1" "CHR 0x0A \<notin> set m2" "CHR 0x0A \<notin> set p1" "CHR 0x0A \<notin> set p2"
  shows "\<exists>auth a amz secs payload1 payload2. header_of h1 ''authorization'' = Some auth \<and> parse_authorization auth = Inr a \<and>
    pa_access_key a = sg_access_key creds \<and> ''host'' \<in> set (pa_signed a) \<and>
    m1 = m2 \<and> path_sent p1 = path_sent p2 \<and> canonical_query q1 = canonical_query q2 \<and>
    request_time h1 = Inr (amz, secs) \<and> abs_diff now1 secs \<le> 900 \<and> (\<exists>secs'. request_time h2 = Inr (amz, secs')) \<and>
    (\<forall>name \<in> set (pa_signed a). signed_value h1 name = signed_value h2 name) \<and>
    header_of h1 ''x-amz-content-sha256'' = Some payload1 \<and> header_of h2 ''x-amz-content-sha256'' = Some payload2 \<and>
    trim payload1 = trim payload2"
proof -
  obtain auth a amz secs payload c where 1: "header_of h1 ''authorization'' = Some auth" "parse_authorization auth = Inr a"
    "pa_access_key a = sg_access_key creds" "request_time h1 = Inr (amz, secs)" "take 8 amz = pa_date a"
    "abs_diff now1 secs \<le> MAX_SKEW_SECS" "''host'' \<in> set (pa_signed a)"
    "header_of h1 ''x-amz-content-sha256'' = Some payload" "canonical_request m1 p1 q1 h1 (pa_signed a) (trim payload) = Inr c"
    "pa_signature a = hmac_of D (fst (signature_for D (sg_secret_key creds) amz (pa_date a) (pa_region a) c))
       (snd (signature_for D (sg_secret_key creds) amz (pa_date a) (pa_region a) c))"
    by (rule verify_accepts [OF assms(1)])
  obtain auth' a' amz' secs' payload' c' where 2: "header_of h2 ''authorization'' = Some auth'" "parse_authorization auth' = Inr a'"
    "pa_access_key a' = sg_access_key creds" "request_time h2 = Inr (amz', secs')" "take 8 amz' = pa_date a'"
    "abs_diff now2 secs' \<le> MAX_SKEW_SECS" "''host'' \<in> set (pa_signed a')"
    "header_of h2 ''x-amz-content-sha256'' = Some payload'" "canonical_request m2 p2 q2 h2 (pa_signed a') (trim payload') = Inr c'"
    "pa_signature a' = hmac_of D (fst (signature_for D (sg_secret_key creds) amz' (pa_date a') (pa_region a') c'))
       (snd (signature_for D (sg_secret_key creds) amz' (pa_date a') (pa_region a') c'))"
    by (rule verify_accepts [OF assms(2)])
  have a: "a' = a" using assms(3) 1(1,2) 2(1,2) by simp
  let ?s = "signature_for D (sg_secret_key creds) amz (pa_date a) (pa_region a) c"
  let ?s' = "signature_for D (sg_secret_key creds) amz' (pa_date a) (pa_region a) c'"
  have "signing_input D creds m1 p1 q1 h1 = Some (c, ?s)" "signing_input D creds m2 p2 q2 h2 = Some (c', ?s')"
    using 1(1,2,4,8,9) 2(1,2,4,8,9) a by (simp_all add: signing_input_def)
  then have free: "sha256_of D c = sha256_of D c' \<Longrightarrow> c = c'" "hmac_of D (fst ?s) (snd ?s) = hmac_of D (fst ?s) (snd ?s') \<Longrightarrow> snd ?s = snd ?s'"
    using assms(4) by (auto simp: no_collision_def case_prod_beta)
  have "hmac_of D (fst ?s) (snd ?s) = hmac_of D (fst ?s) (snd ?s')"
    using 1(10) 2(10) a key_ignores_request [of D _ amz _ _ c amz' c'] by simp
  from string_to_sign_determines [OF free(2) [OF this] request_time_no_newline [OF 1(4)] request_time_no_newline [OF 2(4)]]
  have same: "amz = amz'" "c = c'" using free(1) by auto
  note det = canonical_request_determines [OF 1(9) 2(9) [unfolded a same(2) [symmetric]] assms(5-8)]
  show ?thesis
    using 1(1-4,6-8) 2(4,8) same(1) det unfolding MAX_SKEW_SECS_def by blast
qed

section \<open>A request and its reordering\<close>

definition demo_digests :: digests where
  "demo_digests = \<lparr>hmac_of = (\<lambda>k s. take 1 s), sha256_of = (\<lambda>s. take 4 s)\<rparr>"

definition demo_auth :: string where
  "demo_auth = ''AWS4-HMAC-SHA256 Credential=AK/20130524/eu/s3/aws4_request,SignedHeaders=host;x-amz-date,Signature=41''"

definition demo_headers :: headers where
  "demo_headers = [(''host'', ''s3.local''), (''x-amz-date'', ''20130524T000000Z''), (''x-amz-content-sha256'', ''UNSIGNED-PAYLOAD''),
     (''authorization'', demo_auth)]"

lemma trim_space: "trim (CHR '' '' # s) = trim s"
  by (simp add: trim_def trim_start.simps [of "CHR '' '' # s"] ws_len_def)

lemmas trim_eval = trim_space trim_graphic is_graphic_def

lemma demo_algorithm: "strip_prefix ALGORITHM (trim demo_auth) = Some '' Credential=AK/20130524/eu/s3/aws4_request,SignedHeaders=host;x-amz-date,Signature=41''"
  by (simp add: demo_auth_def trim_eval ALGORITHM_def strip_prefix_def)

lemma demo_fields: "foldl auth_field (None, None, None) (split_on (CHR '','') '' Credential=AK/20130524/eu/s3/aws4_request,SignedHeaders=host;x-amz-date,Signature=41'')
  = (Some ''AK/20130524/eu/s3/aws4_request'', Some ''host;x-amz-date'', Some ''41'')"
  by (simp add: auth_field_def trim_eval strip_prefix_def)

lemma demo_parsed: "parse_authorization demo_auth = Inr \<lparr>pa_access_key = ''AK'', pa_date = ''20130524'', pa_region = ''eu'',
    pa_signed = [''host'', ''x-amz-date''], pa_signature = ''A''\<rparr>"
  unfolding parse_authorization_def demo_algorithm option.case demo_fields
  by (simp add: char_of_eq_iff starts_with_def Let_def is_ascii_digit_def hex_decode_def hex_char_val_def to_ascii_lowercase_def to_ascii_lower_char_def is_ascii_upper_def trim_eval)

lemma demo_header_of: "header_of demo_headers ''authorization'' = Some demo_auth" "header_of demo_headers ''x-amz-date'' = Some ''20130524T000000Z''"
  "header_of demo_headers ''x-amz-content-sha256'' = Some ''UNSIGNED-PAYLOAD''"
  by (simp_all add: header_of_def demo_headers_def same_name_def to_ascii_lowercase_def to_ascii_lower_char_def is_ascii_upper_def)

lemma demo_time: "request_time demo_headers = Inr (''20130524T000000Z'', 1369353600)"
  by (simp add: request_time_def demo_header_of trim_eval parse_iso_basic_def slice_def num_def is_ascii_digit_def parse_unsigned_def parse_digits_def digits_value_def digit_val_def to_unix_def)

lemma demo_sorted: "sort [''host'', ''x-amz-date''] = [''host'', ''x-amz-date'']"
  by (simp add: less_eq_char_def less_char_def)

lemma demo_values: "header_values demo_headers ''host'' = [''s3.local'']" "header_values demo_headers ''x-amz-date'' = [''20130524T000000Z'']"
  by (simp_all add: header_values_def demo_headers_def same_name_def to_ascii_lowercase_def to_ascii_lower_char_def is_ascii_upper_def split_whitespace_def split_ws_from.simps ws_len_def)

lemma signed_demo_queries: "canonical_query ''b=2&a=1'' = Inr ''a=1&b=2''" "canonical_query ''a=%31&b=2'' = Inr ''a=1&b=2''"
  by (simp_all add: canonical_query_def query_text_def aws_encode_def aws_encode_char_def unreserved_def is_ascii_alphanumeric_def is_ascii_alphabetic_def is_ascii_lower_def is_ascii_upper_def is_ascii_digit_def less_eq_char_def u8_of_radix16_def hex_char_val_def char_of_eq_iff)

abbreviation demo_creds :: sig_credentials where
  "demo_creds \<equiv> \<lparr>sg_access_key = ''AK'', sg_secret_key = ''SK''\<rparr>"

definition demo_canonical :: string where
  "demo_canonical = ''GET'' @ [CHR 0x0A] @ ''/b/k'' @ [CHR 0x0A] @ ''a=1&b=2'' @ [CHR 0x0A] @ ''host:s3.local'' @ [CHR 0x0A]
     @ ''x-amz-date:20130524T000000Z'' @ [CHR 0x0A] @ [CHR 0x0A] @ ''host;x-amz-date'' @ [CHR 0x0A] @ ''UNSIGNED-PAYLOAD''"

lemma demo_request: "canonical_query q = Inr ''a=1&b=2'' \<Longrightarrow>
  canonical_request ''GET'' ''/b/k'' q demo_headers [''host'', ''x-amz-date''] (trim ''UNSIGNED-PAYLOAD'') = Inr demo_canonical"
  unfolding canonical_request_def demo_sorted by (simp add: demo_values trim_eval demo_canonical_def)

lemma demo_accepted: "canonical_query q = Inr ''a=1&b=2'' \<Longrightarrow> verify demo_digests demo_creds ''GET'' ''/b/k'' q demo_headers 1369353600 = Inr ()"
  unfolding verify_def demo_parsed demo_header_of demo_time option.case sum.case
  by (simp add: demo_request sig_ct_eq_iff abs_diff_def MAX_SKEW_SECS_def signature_for_def demo_digests_def ALGORITHM_def)

lemma demo_signing: "canonical_query q = Inr ''a=1&b=2'' \<Longrightarrow> signing_input demo_digests demo_creds ''GET'' ''/b/k'' q demo_headers
  = Some (demo_canonical, signature_for demo_digests ''SK'' ''20130524T000000Z'' ''20130524'' ''eu'' demo_canonical)"
  unfolding signing_input_def demo_header_of option.case by (simp add: demo_parsed demo_time demo_request)

theorem signature_is_good_for_one_request_witness:
  "verify demo_digests demo_creds ''GET'' ''/b/k'' ''b=2&a=1'' demo_headers 1369353600 = Inr () \<and>
   verify demo_digests demo_creds ''GET'' ''/b/k'' ''a=%31&b=2'' demo_headers 1369353600 = Inr () \<and>
   canonical_query ''b=2&a=1'' = canonical_query ''a=%31&b=2''"
proof -
  have "no_collision demo_digests (signing_input demo_digests demo_creds ''GET'' ''/b/k'' ''b=2&a=1'' demo_headers)
      (signing_input demo_digests demo_creds ''GET'' ''/b/k'' ''a=%31&b=2'' demo_headers)"
    unfolding demo_signing [OF signed_demo_queries(1)] demo_signing [OF signed_demo_queries(2)] by (simp add: no_collision_def case_prod_beta)
  from signature_is_good_for_one_request [OF demo_accepted [OF signed_demo_queries(1)] demo_accepted [OF signed_demo_queries(2)] refl this] demo_accepted [OF signed_demo_queries(1)] demo_accepted [OF signed_demo_queries(2)]
  show ?thesis by auto
qed

end
