(* ===== verification/Spec2Isabelle.thy ===== *)
theory Spec2Isabelle
  imports Partition Pipeline Delivery Drain Ring Tenancy Disk_Budget Credentials Peer Tail_History Glob_Walk Sigv4
begin

text \<open>
  Verification of the log-less agent.

  The agent takes log records in from several protocols, decides what may be shed, makes what it keeps
  durable in a write-ahead log, mines templates, sends errors with their context to a vendor and records
  to other instances, and keeps the disk within a budget. The sources named below are under
  \<^verbatim>\<open>src/crates/logless-core/src\<close>.

  \<^bold>\<open>The theories and the code they model.\<close>

  \<^item> \<^verbatim>\<open>Prelude\<close>: bytes, words and the parts of the Rust standard library the code uses (integer
    conversions, string splitting and trimming, parsing and printing of numbers), with the facts the
    components share in the collections \<open>rust_std\<close> and \<open>list_facts\<close>.
  \<^item> \<^verbatim>\<open>Model\<close> (\<^verbatim>\<open>model.rs\<close>): severities, attributes and records.
  \<^item> \<^verbatim>\<open>Partition\<close> (\<^verbatim>\<open>partition.rs\<close>): partition keys, hours as text, directory paths.
  \<^item> \<^verbatim>\<open>Ingest_Queue\<close> (\<^verbatim>\<open>queue.rs\<close>): the bounded queue between the receivers and the WAL writer. The
    channel crate is a record of functions with the documented laws \<open>channel_laws\<close>.
  \<^item> \<^verbatim>\<open>Framing\<close>: the locale of a frame codec (what a reader gives back after a writer, and what it makes
    of a torn end), interpreted by the WAL and by the spool.
  \<^item> \<^verbatim>\<open>Wal\<close> (\<^verbatim>\<open>wal.rs\<close>): segments, the group-commit writer, the split into a main log and a late
    spool, replay and recovery.
  \<^item> \<^verbatim>\<open>Hec_Ack\<close> (\<^verbatim>\<open>hec/ack.rs\<close>): the acknowledgement table of the HEC receiver.
  \<^item> \<^verbatim>\<open>Delivery_Queue\<close>: the locale of a queue that is read, delivered and committed; \<^verbatim>\<open>Spool\<close>
    (\<^verbatim>\<open>spool.rs\<close>) interprets it, and \<^verbatim>\<open>Delivery\<close> (\<^verbatim>\<open>sentry.rs\<close>, \<^verbatim>\<open>sync.rs\<close>) holds its clients, the Sentry
    forwarder and the peer sender.
  \<^item> \<^verbatim>\<open>Mask\<close> (\<^verbatim>\<open>mask.rs\<close>), \<^verbatim>\<open>Float64\<close> and \<^verbatim>\<open>Drain\<close> (\<^verbatim>\<open>drain.rs\<close>): masking of variables, the double
    arithmetic of the similarity score by exact rounding, and template mining.
  \<^item> \<^verbatim>\<open>Ring\<close> (\<^verbatim>\<open>ring.rs\<close>): the buffer of recent lines per correlation key, the context of an error and
    the per-minute budgets (locale \<open>minute_budget\<close>, interpreted for one shape and for all).
  \<^item> \<^verbatim>\<open>Tenancy\<close> (\<^verbatim>\<open>config.rs\<close>): level buckets, tenants and the routing of a record to an index.
  \<^item> \<^verbatim>\<open>Disk_Budget\<close> (\<^verbatim>\<open>budget.rs\<close>): pressure and the reclaim loop.
  \<^item> \<^verbatim>\<open>Dedupe\<close> and \<^verbatim>\<open>Wal_Acks\<close> (\<^verbatim>\<open>peer.rs\<close>): the window of accepted event ids with its file, and the
    tickets that make a peer request wait for the WAL.
  \<^item> \<^verbatim>\<open>Peer\<close> (\<^verbatim>\<open>peer.rs\<close>): the path a record came by, what a peer request is checked for, and the ingest of a batch
    with its wait for the WAL.
  \<^item> \<^verbatim>\<open>Base64url\<close> (\<^verbatim>\<open>auth.rs\<close>, \<^verbatim>\<open>auth/s3.rs\<close>): the encoding of tokens. \<^verbatim>\<open>Auth\<close> (\<^verbatim>\<open>auth.rs\<close>): kinds of principals and
    what each may do, tokens of the broker and their keys, and the binding of a batch to the tenant of its
    principal. \<^verbatim>\<open>S3_Session\<close> (\<^verbatim>\<open>auth/s3.rs\<close>): temporary S3 credentials and the objects they reach. \<^verbatim>\<open>Credentials\<close>
    (\<^verbatim>\<open>auth.rs\<close>): the configured keys and the session key on disk. \<^verbatim>\<open>Sigv4\<close> (\<^verbatim>\<open>s3_sigv4.rs\<close>): canonical requests, their
    verification and presigned URLs. Signatures, digests and JSON are parameters.
  \<^item> \<^verbatim>\<open>Pipeline\<close> (\<^verbatim>\<open>logless-cli/src/main.rs\<close>): the record path and the WAL writer as two threads over the ingest
    queue, the WAL, the HEC table and the peer tickets.
  \<^item> \<^verbatim>\<open>Utf8\<close>: UTF-8 of the standard library. \<^verbatim>\<open>Glob\<close>, \<^verbatim>\<open>Glob_Walk\<close>, \<^verbatim>\<open>Tail\<close> and \<^verbatim>\<open>Tail_History\<close> (\<^verbatim>\<open>tail.rs\<close>): file
    patterns and their matcher, the walk of the file system, the tailer with its cursors and checkpoint, and the
    tailer over the life of a log file.

  \<^bold>\<open>How code becomes definitions.\<close> A struct is a record, an enum a datatype, a method a function from
  the state to the result and the new state; a \<^verbatim>\<open>?\<close> is \<open>try_then\<close> over a sum whose left side is the
  error. What the operating system answers (a failed or partial write, a failed sync, a file that cannot
  be created) is an argument of the operation. Third-party code is an argument too: the checksum, the
  record codec, the hash of the ring, the channel. Hash maps are association lists or functions, strings
  are their UTF-8 bytes as characters. Counters that may wrap are words; counters that only index or
  compare are naturals. Threads are step relations whose steps are the sections under one lock or the
  single atomic accesses, and a value that is loaded outside a lock may be out of date.

  \<^bold>\<open>What is shown.\<close> From end to end: the records of every batch that was answered as durable are in what a
  recovery finds after a crash at any point. For the logs: after a crash at any point recovery gives a prefix of what was written
  that covers everything counted as synced, and a published count is durable. For acknowledgements:
  a positive answer is given only for published counts and never taken back. For the queues: every record
  is counted once, order is kept, the spool refines an abstract queue over restarts. For mining, the ring,
  routing and the budget: invariants, bounds, and what a decision means. For access: a principal is one the
  configuration or the broker vouches for, its records stay in its tenant, and a read scope reaches exactly the
  objects of its tenant and indexes. A signature is good for one request, presigning does not fail, and a timestamp
  and an encoded text are read back. For peers: relays end, a record is accepted once over resends, and a request
  that waits is answered. For tailing: every line of a log file is emitted once and in order over appends,
  rotations, polls and restarts between lines; the matcher of file patterns decides what the pattern means; the
  tailer never indexes outside its tables. Where the code departs from what it means to do, a lemma says how:
  a restart inside a line loses its fragment, an oversized batch is not recovered, a record behind a torn tail of
  the spool is stuck, a partial write garbles the id log, level buckets in descending order misfile. Loops are total functions with a
  measure, or structural recursion; the two that need an invariant to end are partial functions, shown to return:
  draining a channel, under the channel's laws, and the matcher of file patterns. The only fuel is the depth to
  which the walk of the file system may descend; the nesting depth of the directories is shown to be enough.

  \<^bold>\<open>Not modelled\<close>: the network transports and HTTP routing, the Parquet and SQLite stores behind the merge,
  the walks of the file system for retention and migration, part upload and replication, the
  sending policy of peer sync, and the rest of the command line. These are I/O over
  third-party crates around the parts above.
\<close>

end
